(* ===== verification/Prelude.thy ===== *)
theory Prelude
  imports Main "HOL-Library.Word" "HOL-Library.Signed_Division"
begin

text \<open>
  Shared vocabulary of the MyNet development: the faults a C++ operation of the library can end
  in, the sequencing of fallible operations, the arithmetic of the 64-bit type size_t, the
  pieces of the C++ standard library that several components call (std::copy on a byte vector,
  vector::resize, the forward search), and the facts about lists that the component theories
  share. Facts are collected in the named theorem lists declared here, so that the component
  proofs name a collection and not single lemmas.
\<close>

named_theorems fault_simps \<open>sequencing of fallible operations\<close>
named_theorems size_simps \<open>size_t arithmetic that does not wrap\<close>
named_theorems segment_simps \<open>segments of a byte vector\<close>

unbundle bit_operations_syntax

section \<open>Faults and their sequencing\<close>

text \<open>
  The library is built as a debug build by default (CMakeLists.txt), so assert is active: a
  failed assertion ends the process. The other constructors name the remaining ways in which an
  operation does not return: an exception of the standard library, the dereference of a null
  smart pointer, an out-of-range access, locking a non-recursive mutex
  twice in one thread, the abort call, a signed integer overflow, and a loop that never
  ends.
\<close>

datatype fault =
    AssertFail
  | LengthError
  | NullDeref
  | OutOfRange
  | SelfDeadlock
  | Aborted
  | Overflow
  | Diverges

type_synonym 'a result = "fault + 'a"

definition bindE :: "'a result \<Rightarrow> ('a \<Rightarrow> 'b result) \<Rightarrow> 'b result" where
  "bindE r k = (case r of Inl e \<Rightarrow> Inl e | Inr x \<Rightarrow> k x)"

definition assert_then :: "bool \<Rightarrow> 'a result \<Rightarrow> 'a result" where
  "assert_then p r = (if p then r else Inl AssertFail)"

text \<open>A loop that may not return is an option; inside an operation, not returning is a fault too.\<close>

definition of_loop :: "'a option \<Rightarrow> 'a result" where
  "of_loop r = (case r of None \<Rightarrow> Inl Diverges | Some x \<Rightarrow> Inr x)"

lemma of_loop_simps [simp]: "of_loop None = Inl Diverges" "of_loop (Some x) = Inr x"
  by (simp_all add: of_loop_def)

lemma bindE_Inr [simp, fault_simps]: "bindE (Inr x) k = k x"
  by (simp add: bindE_def)

lemma bindE_Inl [simp, fault_simps]: "bindE (Inl e) k = Inl e"
  by (simp add: bindE_def)

lemma bindE_eq_Inr [fault_simps]: "bindE r k = Inr y \<longleftrightarrow> (\<exists>x. r = Inr x \<and> k x = Inr y)"
  by (cases r) auto

lemma assert_then_True [simp, fault_simps]: "assert_then True r = r"
  by (simp add: assert_then_def)

lemma assert_then_False [simp, fault_simps]: "assert_then False r = Inl AssertFail"
  by (simp add: assert_then_def)

lemma assert_then_eq_Inr [fault_simps]: "assert_then p r = Inr y \<longleftrightarrow> p \<and> r = Inr y"
  by (simp add: assert_then_def)

section \<open>The type int\<close>

text \<open>
  A signed overflow has no defined result. An expression of type int is its value over the
  integers, under the check that the intermediate values it names fit in 32 bits.
\<close>

definition in_int32 :: "int \<Rightarrow> bool" where
  "in_int32 v \<longleftrightarrow> - (2 ^ 31) \<le> v \<and> v < 2 ^ 31"

definition checked32 :: "int list \<Rightarrow> 'a \<Rightarrow> 'a result" where
  "checked32 vs x = (if list_all in_int32 vs then Inr x else Inl Overflow)"

lemma checked32_eq_Inr [fault_simps]: "checked32 vs x = Inr y \<longleftrightarrow> list_all in_int32 vs \<and> x = y"
  by (simp add: checked32_def)

text \<open>The same for values of type int64\_t.\<close>

definition in_int64 :: "int \<Rightarrow> bool" where
  "in_int64 v \<longleftrightarrow> - (2 ^ 63) \<le> v \<and> v < 2 ^ 63"

definition checked64 :: "int list \<Rightarrow> 'a \<Rightarrow> 'a result" where
  "checked64 vs x = (if list_all in_int64 vs then Inr x else Inl Overflow)"

text \<open>C's division rounds towards zero; on numbers of one sign it is the one of HOL.\<close>

lemma sdiv_nonneg: "0 \<le> a \<Longrightarrow> 0 < b \<Longrightarrow> a sdiv b = a div (b::int)"
  by (cases "a = 0") (simp_all add: signed_divide_int_def)

lemma smod_nonneg: "0 \<le> a \<Longrightarrow> 0 < b \<Longrightarrow> a smod b = a mod (b::int)"
  by (cases "a = 0") (simp_all add: signed_modulo_int_def)

section \<open>The type size\_t\<close>

text \<open>
  Sizes and indices are size\_t, 64 bits on the platforms the build targets. They are natural
  numbers below \<open>size_mod\<close> here, with the wrap-around of addition and subtraction written out.
\<close>

definition size_mod :: nat where
  "size_mod = 2 ^ 64"

definition size_add :: "nat \<Rightarrow> nat \<Rightarrow> nat" where
  "size_add a b = (a + b) mod size_mod"

definition size_sub :: "nat \<Rightarrow> nat \<Rightarrow> nat" where
  "size_sub a b = (a + size_mod - b) mod size_mod"

lemma size_add_exact [size_simps]: "a + b < size_mod \<Longrightarrow> size_add a b = a + b"
  by (simp add: size_add_def)

lemma size_sub_exact [size_simps]:
  assumes "b \<le> a" and "a < size_mod"
  shows "size_sub a b = a - b"
proof -
  have "a + size_mod - b = (a - b) + size_mod" using assms by simp
  moreover have "a - b < size_mod" using assms by simp
  ultimately show ?thesis unfolding size_sub_def by (simp only: mod_add_self2 mod_less)
qed

text \<open>The largest size a vector of char takes: vector::resize throws beyond it.\<close>

definition vector_max :: nat where
  "vector_max = 2 ^ 63 - 1"

lemma vector_max_less_size_mod: "vector_max < size_mod"
  by (simp add: vector_max_def size_mod_def)

section \<open>Vectors of bytes\<close>

type_synonym byte = "8 word"

text \<open>vector::resize: longer vectors are filled up with zero bytes, shorter ones are cut.\<close>

definition vector_resize :: "nat \<Rightarrow> 'a::zero list \<Rightarrow> 'a list result" where
  "vector_resize n xs =
     (if n > vector_max then Inl LengthError
      else Inr (take n xs @ replicate (n - length xs) 0))"

text \<open>Storing the elements \<open>ds\<close> from index \<open>i\<close> on, as memcpy and std::copy from outside do.\<close>

definition overwrite :: "nat \<Rightarrow> 'a list \<Rightarrow> 'a list \<Rightarrow> 'a list" where
  "overwrite i ds xs = take i xs @ ds @ drop (i + length ds) xs"

definition segment :: "nat \<Rightarrow> nat \<Rightarrow> 'a list \<Rightarrow> 'a list" where
  "segment i j xs = take (j - i) (drop i xs)"

text \<open>std::copy inside one vector: element by element, from the first to the last.\<close>

primrec std_copy :: "nat \<Rightarrow> nat \<Rightarrow> nat \<Rightarrow> 'a list \<Rightarrow> 'a list" where
  "std_copy 0 src dst xs = xs"
| "std_copy (Suc n) src dst xs = std_copy n (Suc src) (Suc dst) (xs[dst := xs ! src])"

lemma length_overwrite [simp]:
  "i + length ds \<le> length xs \<Longrightarrow> length (overwrite i ds xs) = length xs"
  by (simp add: overwrite_def)

lemma overwrite_Nil [simp]: "overwrite i [] xs = xs"
  by (simp add: overwrite_def)

lemma length_segment [simp]: "j \<le> length xs \<Longrightarrow> length (segment i j xs) = j - i"
  by (simp add: segment_def)

lemma segment_empty [simp]: "j \<le> i \<Longrightarrow> segment i j xs = []"
  by (simp add: segment_def)

lemma segment_split [segment_simps]:
  assumes "i \<le> j" and "j \<le> k"
  shows "segment i k xs = segment i j xs @ segment j k xs"
proof -
  have "take (k - i) (drop i xs)
      = take (j - i) (drop i xs) @ take (k - j) (drop (j - i) (drop i xs))"
    using assms by (metis Nat.add_diff_assoc2 add.commute le_add_diff_inverse take_add)
  then show ?thesis using assms by (simp add: segment_def)
qed

lemma segment_overwrite_before [segment_simps]:
  assumes "j \<le> p" and "p + length ds \<le> length xs"
  shows "segment i j (overwrite p ds xs) = segment i j xs"
proof (rule nth_equalityI)
  show "length (segment i j (overwrite p ds xs)) = length (segment i j xs)"
    using assms by simp
next
  fix k assume "k < length (segment i j (overwrite p ds xs))"
  then show "segment i j (overwrite p ds xs) ! k = segment i j xs ! k"
    using assms by (simp add: segment_def overwrite_def nth_append)
qed

lemma segment_overwrite_here [segment_simps]:
  assumes "p + length ds \<le> length xs"
  shows "segment p (p + length ds) (overwrite p ds xs) = ds"
  using assms by (simp add: segment_def overwrite_def)

lemma segment_overwrite_after [segment_simps]:
  assumes "p + length ds \<le> i" and "i \<le> length xs"
  shows "segment i j (overwrite p ds xs) = segment i j xs"
proof -
  have "drop i (overwrite p ds xs) = drop i xs"
    using assms by (simp add: overwrite_def)
  then show ?thesis by (simp add: segment_def)
qed

lemma segment_append_right [segment_simps]: "j \<le> length xs \<Longrightarrow> segment i j (xs @ ys) = segment i j xs"
  by (simp add: segment_def)

lemma drop_segment: "drop n (segment i j xs) = segment (i + n) j xs"
  by (simp add: segment_def drop_take add.commute)

lemma take_segment: "i + n \<le> j \<Longrightarrow> take n (segment i j xs) = segment i (i + n) xs"
  by (simp add: segment_def min_def)

lemma segment_nth: "i + k < j \<Longrightarrow> j \<le> length xs \<Longrightarrow> segment i j xs ! k = xs ! (i + k)"
  by (simp add: segment_def)

text \<open>
  Copying to the left inside one vector moves the segment unchanged even when source and
  destination overlap, which is why std::copy and not std::copy_backward is the right call.
\<close>

lemma length_std_copy [simp]: "length (std_copy n src dst xs) = length xs"
  by (induction n arbitrary: src dst xs) simp_all

lemma std_copy_nth_left:
  assumes "dst < src" and "src + n \<le> length xs" and "k < length xs"
  shows "std_copy n src dst xs ! k
      = (if dst \<le> k \<and> k < dst + n then xs ! (src + (k - dst)) else xs ! k)"
  using assms
proof (induction n arbitrary: src dst xs)
  case 0
  then show ?case by auto
next
  case (Suc n)
  let ?ys = "xs[dst := xs ! src]"
  have IH: "std_copy n (Suc src) (Suc dst) ?ys ! k
      = (if Suc dst \<le> k \<and> k < Suc dst + n then ?ys ! (Suc src + (k - Suc dst)) else ?ys ! k)"
    by (rule Suc.IH) (use Suc.prems in simp_all)
  consider (first) "k = dst" | (mid) "dst < k" "k < dst + Suc n" | (rest) "k < dst \<or> dst + Suc n \<le> k"
    by linarith
  then show ?case
  proof cases
    case first
    then show ?thesis using IH Suc.prems by simp
  next
    case mid
    then have "Suc src + (k - Suc dst) = src + (k - dst)" by simp
    moreover have "src + (k - dst) \<noteq> dst" using Suc.prems(1) by linarith
    ultimately show ?thesis using IH mid by simp
  next
    case rest
    then show ?thesis using IH by auto
  qed
qed

lemma segment_std_copy_left [segment_simps]:
  assumes "dst < src" and "src + n \<le> length xs"
  shows "segment dst (dst + n) (std_copy n src dst xs) = segment src (src + n) xs"
proof (rule nth_equalityI)
  show "length (segment dst (dst + n) (std_copy n src dst xs)) = length (segment src (src + n) xs)"
    using assms by simp
next
  fix k assume "k < length (segment dst (dst + n) (std_copy n src dst xs))"
  then show "segment dst (dst + n) (std_copy n src dst xs) ! k = segment src (src + n) xs ! k"
    using assms by (simp add: segment_nth std_copy_nth_left)
qed

section \<open>Searching a vector\<close>

text \<open>
  std::search over a range: the offset of the first occurrence of the pattern, or the length of
  the range when there is none.
\<close>

fun std_search :: "'a list \<Rightarrow> 'a list \<Rightarrow> nat" where
  "std_search pat [] = 0"
| "std_search pat (x # xs) =
     (if take (length pat) (x # xs) = pat then 0 else Suc (std_search pat xs))"

definition occurs_at :: "'a list \<Rightarrow> nat \<Rightarrow> 'a list \<Rightarrow> bool" where
  "occurs_at pat i xs \<longleftrightarrow> i + length pat \<le> length xs \<and> take (length pat) (drop i xs) = pat"

lemma occurs_at_0: "take (length pat) xs = pat \<longleftrightarrow> occurs_at pat 0 xs"
  by (metis add_0 drop0 length_take min.cobounded1 occurs_at_def)

lemma occurs_at_Suc [simp]: "occurs_at pat (Suc i) (x # xs) = occurs_at pat i xs"
  by (simp add: occurs_at_def)

lemma occurs_at_Nil [simp]: "occurs_at pat i [] \<longleftrightarrow> i = 0 \<and> pat = []"
  by (auto simp: occurs_at_def)

lemma occurs_at_drop: "occurs_at pat i xs \<Longrightarrow> drop i xs = pat @ drop (i + length pat) xs"
  by (metis add.commute append_take_drop_id drop_drop occurs_at_def)

lemma std_search_le: "std_search pat xs \<le> length xs"
  by (induction xs) auto

lemma std_search_first:
  assumes "i < std_search pat xs"
  shows "\<not> occurs_at pat i xs"
  using assms
proof (induction xs arbitrary: i)
  case Nil
  then show ?case by simp
next
  case (Cons x xs)
  show ?case
  proof (cases i)
    case 0
    with Cons.prems show ?thesis by (auto simp: occurs_at_0 split: if_splits)
  next
    case (Suc j)
    with Cons.prems have "j < std_search pat xs" by (simp split: if_splits)
    with Suc Cons.IH show ?thesis by simp
  qed
qed

lemma std_search_found:
  assumes "std_search pat xs < length xs"
  shows "occurs_at pat (std_search pat xs) xs"
  using assms by (induction xs) (auto simp: occurs_at_0)

lemma std_search_not_found:
  assumes "std_search pat xs = length xs" and "pat \<noteq> []"
  shows "\<not> occurs_at pat i xs"
proof (cases "i < length xs")
  case True
  then show ?thesis using assms(1) std_search_first [of i pat xs] by simp
next
  case False
  then show ?thesis using assms(2) by (auto simp: occurs_at_def)
qed

end
