(* ===== verification/Endian.thy ===== *)
theory Endian
  imports Prelude
begin

text \<open>
  net/Endian.h: the conversions between host and network byte order, and the bytes an integer
  occupies in memory. The byte order of the host is a parameter, so every statement holds on
  little-endian and on big-endian machines; the functions htobe and betoh of glibc's endian.h,
  which Endian.h calls, are written out for both. The main fact is that the memory image of a
  converted integer is its big-endian encoding on every host.
\<close>

datatype byte_order = LittleEndian | BigEndian

section \<open>Memory images of integers\<close>

primrec le_bytes :: "nat \<Rightarrow> nat \<Rightarrow> byte list" where
  "le_bytes 0 v = []"
| "le_bytes (Suc n) v = of_nat v # le_bytes n (v div 256)"

primrec le_value :: "byte list \<Rightarrow> nat" where
  "le_value [] = 0"
| "le_value (b # bs) = unat b + 256 * le_value bs"

definition be_bytes :: "nat \<Rightarrow> nat \<Rightarrow> byte list" where
  "be_bytes n v = rev (le_bytes n v)"

definition be_value :: "byte list \<Rightarrow> nat" where
  "be_value bs = le_value (rev bs)"

definition memory_image :: "byte_order \<Rightarrow> 'a::len word \<Rightarrow> byte list" where
  "memory_image ho x =
     (let n = LENGTH('a) div 8 in
      case ho of LittleEndian \<Rightarrow> le_bytes n (unat x) | BigEndian \<Rightarrow> be_bytes n (unat x))"

definition memory_load :: "byte_order \<Rightarrow> byte list \<Rightarrow> 'a::len word" where
  "memory_load ho bs =
     of_nat (case ho of LittleEndian \<Rightarrow> le_value bs | BigEndian \<Rightarrow> be_value bs)"

section \<open>glibc: htobe and betoh\<close>

definition byte_swap :: "'a::len word \<Rightarrow> 'a word" where
  "byte_swap x = of_nat (be_value (le_bytes (LENGTH('a) div 8) (unat x)))"

definition htobe :: "byte_order \<Rightarrow> 'a::len word \<Rightarrow> 'a word" where
  "htobe ho x = (case ho of LittleEndian \<Rightarrow> byte_swap x | BigEndian \<Rightarrow> x)"

definition betoh :: "byte_order \<Rightarrow> 'a::len word \<Rightarrow> 'a word" where
  "betoh ho x = (case ho of LittleEndian \<Rightarrow> byte_swap x | BigEndian \<Rightarrow> x)"

section \<open>Endian.h\<close>

definition hostToNetwork64 :: "byte_order \<Rightarrow> 64 word \<Rightarrow> 64 word" where
  "hostToNetwork64 ho host64 = htobe ho host64"

definition hostToNetwork32 :: "byte_order \<Rightarrow> 32 word \<Rightarrow> 32 word" where
  "hostToNetwork32 ho host32 = htobe ho host32"

definition hostToNetwork16 :: "byte_order \<Rightarrow> 16 word \<Rightarrow> 16 word" where
  "hostToNetwork16 ho host16 = htobe ho host16"

definition networkToHost64 :: "byte_order \<Rightarrow> 64 word \<Rightarrow> 64 word" where
  "networkToHost64 ho network64 = betoh ho network64"

definition networkToHost32 :: "byte_order \<Rightarrow> 32 word \<Rightarrow> 32 word" where
  "networkToHost32 ho network32 = betoh ho network32"

definition networkToHost16 :: "byte_order \<Rightarrow> 16 word \<Rightarrow> 16 word" where
  "networkToHost16 ho network16 = betoh ho network16"

section \<open>Encodings of a fixed width\<close>

lemma length_le_bytes [simp]: "length (le_bytes n v) = n"
  by (induction n arbitrary: v) simp_all

lemma le_bytes_numeral [simp]:
  "le_bytes (numeral k) v = of_nat v # le_bytes (pred_numeral k) (v div 256)"
  by (simp only: numeral_eq_Suc [of k] le_bytes.simps)

lemma length_be_bytes [simp]: "length (be_bytes n v) = n"
  by (simp add: be_bytes_def)

lemma le_value_le_bytes: "le_value (le_bytes n v) = v mod 256 ^ n"
proof (induction n arbitrary: v)
  case 0
  then show ?case by simp
next
  case (Suc n)
  have "le_value (le_bytes (Suc n) v) = v mod 256 + 256 * (v div 256 mod 256 ^ n)"
    by (simp add: Suc.IH unat_of_nat)
  also have "\<dots> = v mod 256 ^ Suc n"
    by (simp add: mod_mult2_eq)
  finally show ?case .
qed

lemma le_bytes_le_value: "le_bytes (length bs) (le_value bs) = bs"
proof (induction bs)
  case Nil
  then show ?case by simp
next
  case (Cons b bs)
  have "unat b < 256" using unsigned_less [of b] by simp
  then have "(unat b + 256 * le_value bs) div 256 = le_value bs" by simp
  moreover have "(256 :: byte) = 0" by simp
  then have "of_nat (unat b + 256 * le_value bs) = b"
    by (simp only: of_nat_add of_nat_mult of_nat_numeral mult_zero_left add_0_right of_nat_unat)
       simp
  ultimately show ?case using Cons by simp
qed

lemma le_value_bound: "le_value bs < 256 ^ length bs"
proof (induction bs)
  case Nil
  then show ?case by simp
next
  case (Cons b bs)
  have "unat b < 256" using unsigned_less [of b] by simp
  with Cons show ?case by simp
qed

lemma be_value_be_bytes: "be_value (be_bytes n v) = v mod 256 ^ n"
  by (simp add: be_value_def be_bytes_def le_value_le_bytes)

lemma pow_256: "(256::nat) ^ n = 2 ^ (8 * n)"
  by (simp add: power_mult)

lemma unat_of_le_value:
  assumes "8 * length bs = LENGTH('a::len)"
  shows "unat (of_nat (le_value bs) :: 'a word) = le_value bs"
  using le_value_bound [of bs] assms
  by (simp add: unat_of_nat pow_256)

lemma unat_mod_pow_256:
  "8 * n = LENGTH('a::len) \<Longrightarrow> unat (x :: 'a word) mod 256 ^ n = unat x"
  using unsigned_less [of x] by (simp add: pow_256)

text \<open>Byte swapping reverses the memory image of a little-endian host.\<close>

lemma le_bytes_byte_swap:
  assumes "8 * n = LENGTH('a::len)"
  shows "le_bytes n (unat (byte_swap (x :: 'a word))) = be_bytes n (unat x)"
proof -
  let ?bs = "rev (le_bytes n (unat x))"
  have n: "LENGTH('a) div 8 = n" using assms by simp
  have "unat (byte_swap x) = le_value ?bs"
    using assms unat_of_le_value [of ?bs, where 'a = 'a]
    by (simp add: byte_swap_def be_value_def n)
  then show ?thesis using le_bytes_le_value [of ?bs] by (simp add: be_bytes_def)
qed

lemma byte_swap_byte_swap:
  assumes "8 * n = LENGTH('a::len)"
  shows "byte_swap (byte_swap x) = (x :: 'a word)"
proof -
  have n: "LENGTH('a) div 8 = n" using assms by simp
  have "byte_swap (byte_swap x) = of_nat (be_value (be_bytes n (unat x)))"
    using le_bytes_byte_swap [OF assms, of x] byte_swap_def [of "byte_swap x"] n by simp
  then show ?thesis
    using unat_mod_pow_256 [OF assms, of x] by (simp add: be_value_be_bytes)
qed

section \<open>Network byte order is big-endian on every host\<close>

lemma memory_image_htobe:
  assumes "8 * n = LENGTH('a::len)"
  shows "memory_image ho (htobe ho (x :: 'a word)) = be_bytes n (unat x)"
proof -
  have n: "LENGTH('a) div 8 = n" using assms by simp
  show ?thesis
    using le_bytes_byte_swap [OF assms, of x]
    by (cases ho) (simp_all add: memory_image_def htobe_def n)
qed

lemma betoh_memory_load:
  assumes "8 * length bs = LENGTH('a::len)"
  shows "betoh ho (memory_load ho bs) = (of_nat (be_value bs) :: 'a word)"
proof (cases ho)
  case LittleEndian
  have n: "LENGTH('a) div 8 = length bs" using assms by simp
  have "le_bytes (length bs) (unat (of_nat (le_value bs) :: 'a word)) = bs"
    using unat_of_le_value [OF assms] le_bytes_le_value [of bs] by simp
  then show ?thesis
    by (simp add: LittleEndian betoh_def memory_load_def byte_swap_def n)
next
  case BigEndian
  then show ?thesis by (simp add: betoh_def memory_load_def)
qed

lemma betoh_htobe:
  assumes "8 * n = LENGTH('a::len)"
  shows "betoh ho (htobe ho x) = (x :: 'a word)"
  using byte_swap_byte_swap [OF assms] by (cases ho) (simp_all add: betoh_def htobe_def)

lemma of_be_value_be_bytes:
  assumes "8 * n = LENGTH('a::len)"
  shows "of_nat (be_value (be_bytes n (unat x))) = (x :: 'a word)"
  using unat_mod_pow_256 [OF assms, of x] by (simp add: be_value_be_bytes)

lemmas endian_defs =
  hostToNetwork64_def hostToNetwork32_def hostToNetwork16_def
  networkToHost64_def networkToHost32_def networkToHost16_def

end
