(* ===== verification/NetBuffer.thy ===== *)
theory NetBuffer
  imports Endian
begin

text \<open>
  net/Buffer.h and net/Buffer.cc: the growable byte buffer between a socket and its user. The
  record has the three fields of the class; a pointer into the buffer is its offset from
  begin(), and a null pointer is None. Every operation is translated with its assertions. The
  second half gives the buffer's contract: what it holds is the byte sequence between the two
  indices, and every operation acts on that sequence as the operation's name says.
\<close>

record net_buffer =
  buffer :: "byte list"
  readerIndex :: nat
  writerIndex :: nat

definition kCheapPrepend :: nat where
  "kCheapPrepend = 8"

definition kInitialSize :: nat where
  "kInitialSize = 1024"

definition kCRLF :: "byte list" where
  "kCRLF = [13, 10]"

section \<open>Accessors\<close>

definition Buffer_readableBytes :: "net_buffer \<Rightarrow> nat" where
  "Buffer_readableBytes b = size_sub (writerIndex b) (readerIndex b)"

definition Buffer_writableBytes :: "net_buffer \<Rightarrow> nat" where
  "Buffer_writableBytes b = size_sub (length (buffer b)) (writerIndex b)"

definition Buffer_prependableBytes :: "net_buffer \<Rightarrow> nat" where
  "Buffer_prependableBytes b = readerIndex b"

definition Buffer_peek :: "net_buffer \<Rightarrow> nat" where
  "Buffer_peek b = readerIndex b"

definition Buffer_beginWrite :: "net_buffer \<Rightarrow> nat" where
  "Buffer_beginWrite b = writerIndex b"

definition Buffer_new :: "nat \<Rightarrow> net_buffer result" where
  "Buffer_new initialSize =
     bindE (vector_resize (size_add kCheapPrepend initialSize) [])
       (\<lambda>v. let b = \<lparr>buffer = v, readerIndex = kCheapPrepend, writerIndex = kCheapPrepend\<rparr> in
            assert_then (Buffer_readableBytes b = 0)
              (assert_then (Buffer_writableBytes b = initialSize)
                (assert_then (Buffer_prependableBytes b = kCheapPrepend) (Inr b))))"

definition Buffer_swap :: "net_buffer \<Rightarrow> net_buffer \<Rightarrow> net_buffer \<times> net_buffer" where
  "Buffer_swap b rhs =
     (b\<lparr>buffer := buffer rhs, readerIndex := readerIndex rhs, writerIndex := writerIndex rhs\<rparr>,
      rhs\<lparr>buffer := buffer b, readerIndex := readerIndex b, writerIndex := writerIndex b\<rparr>)"

section \<open>Searching the readable bytes\<close>

definition Buffer_search :: "byte list \<Rightarrow> nat \<Rightarrow> net_buffer \<Rightarrow> nat" where
  "Buffer_search pat start b =
     start + std_search pat (segment start (Buffer_beginWrite b) (buffer b))"

definition Buffer_findCRLF :: "net_buffer \<Rightarrow> nat option" where
  "Buffer_findCRLF b =
     (let crlf = Buffer_search kCRLF (Buffer_peek b) b in
      if crlf = Buffer_beginWrite b then None else Some crlf)"

definition Buffer_findCRLF_from :: "nat \<Rightarrow> net_buffer \<Rightarrow> nat option result" where
  "Buffer_findCRLF_from start b =
     assert_then (Buffer_peek b \<le> start)
       (assert_then (start \<le> Buffer_beginWrite b)
         (let crlf = Buffer_search kCRLF start b in
          Inr (if crlf = Buffer_beginWrite b then None else Some crlf)))"

definition memchr :: "byte \<Rightarrow> nat \<Rightarrow> nat \<Rightarrow> byte list \<Rightarrow> nat option" where
  "memchr c start n xs =
     (let i = std_search [c] (take n (drop start xs)) in if i < n then Some (start + i) else None)"

definition Buffer_findEOL :: "nat \<Rightarrow> net_buffer \<Rightarrow> nat option result" where
  "Buffer_findEOL start b =
     assert_then (Buffer_peek b \<le> start)
       (assert_then (start \<le> Buffer_beginWrite b)
         (Inr (memchr 10 start (Buffer_beginWrite b - start) (buffer b))))"

section \<open>Consuming\<close>

definition Buffer_retrieveAll :: "net_buffer \<Rightarrow> net_buffer" where
  "Buffer_retrieveAll b = b\<lparr>readerIndex := kCheapPrepend, writerIndex := kCheapPrepend\<rparr>"

definition Buffer_retrieve :: "nat \<Rightarrow> net_buffer \<Rightarrow> net_buffer result" where
  "Buffer_retrieve len b =
     assert_then (len \<le> Buffer_readableBytes b)
       (if len < Buffer_readableBytes b
        then Inr (b\<lparr>readerIndex := size_add (readerIndex b) len\<rparr>)
        else Inr (Buffer_retrieveAll b))"

definition Buffer_retrieveUntil :: "nat \<Rightarrow> net_buffer \<Rightarrow> net_buffer result" where
  "Buffer_retrieveUntil endp b =
     assert_then (Buffer_peek b \<le> endp)
       (assert_then (endp \<le> Buffer_beginWrite b)
         (Buffer_retrieve (endp - Buffer_peek b) b))"

definition Buffer_retrieveInt64 :: "net_buffer \<Rightarrow> net_buffer result" where
  "Buffer_retrieveInt64 b = Buffer_retrieve 8 b"

definition Buffer_retrieveInt32 :: "net_buffer \<Rightarrow> net_buffer result" where
  "Buffer_retrieveInt32 b = Buffer_retrieve 4 b"

definition Buffer_retrieveInt16 :: "net_buffer \<Rightarrow> net_buffer result" where
  "Buffer_retrieveInt16 b = Buffer_retrieve 2 b"

definition Buffer_retrieveInt8 :: "net_buffer \<Rightarrow> net_buffer result" where
  "Buffer_retrieveInt8 b = Buffer_retrieve 1 b"

definition Buffer_retrieveAsString :: "nat \<Rightarrow> net_buffer \<Rightarrow> (byte list \<times> net_buffer) result" where
  "Buffer_retrieveAsString len b =
     assert_then (len \<le> Buffer_readableBytes b)
       (let res = take len (drop (Buffer_peek b) (buffer b)) in
        bindE (Buffer_retrieve len b) (\<lambda>b'. Inr (res, b')))"

definition Buffer_retrieveAllAsString :: "net_buffer \<Rightarrow> (byte list \<times> net_buffer) result" where
  "Buffer_retrieveAllAsString b = Buffer_retrieveAsString (Buffer_readableBytes b) b"

section \<open>Making space and appending\<close>

definition Buffer_makeSpace :: "nat \<Rightarrow> net_buffer \<Rightarrow> net_buffer result" where
  "Buffer_makeSpace len b =
     (if size_add (Buffer_writableBytes b) (Buffer_prependableBytes b) < size_add len kCheapPrepend
      then bindE (vector_resize (size_add (writerIndex b) len) (buffer b))
             (\<lambda>v. Inr (b\<lparr>buffer := v\<rparr>))
      else
        assert_then (kCheapPrepend < readerIndex b)
          (let readable = Buffer_readableBytes b;
               v = std_copy (writerIndex b - readerIndex b) (readerIndex b) kCheapPrepend (buffer b);
               b' = b\<lparr>buffer := v, readerIndex := kCheapPrepend,
                       writerIndex := size_add kCheapPrepend readable\<rparr>
           in assert_then (readable = Buffer_readableBytes b') (Inr b')))"

definition Buffer_ensureWritableBytes :: "nat \<Rightarrow> net_buffer \<Rightarrow> net_buffer result" where
  "Buffer_ensureWritableBytes len b =
     bindE (if Buffer_writableBytes b < len then Buffer_makeSpace len b else Inr b)
       (\<lambda>b'. assert_then (len \<le> Buffer_writableBytes b') (Inr b'))"

definition Buffer_hasWritten :: "nat \<Rightarrow> net_buffer \<Rightarrow> net_buffer result" where
  "Buffer_hasWritten len b =
     assert_then (len \<le> Buffer_writableBytes b)
       (Inr (b\<lparr>writerIndex := size_add (writerIndex b) len\<rparr>))"

definition Buffer_unwrite :: "nat \<Rightarrow> net_buffer \<Rightarrow> net_buffer result" where
  "Buffer_unwrite len b =
     assert_then (len \<le> Buffer_readableBytes b)
       (Inr (b\<lparr>writerIndex := size_sub (writerIndex b) len\<rparr>))"

definition Buffer_append :: "byte list \<Rightarrow> net_buffer \<Rightarrow> net_buffer result" where
  "Buffer_append data b =
     bindE (Buffer_ensureWritableBytes (length data) b)
       (\<lambda>b1. Buffer_hasWritten (length data)
               (b1\<lparr>buffer := overwrite (Buffer_beginWrite b1) data (buffer b1)\<rparr>))"

definition Buffer_prepend :: "byte list \<Rightarrow> net_buffer \<Rightarrow> net_buffer result" where
  "Buffer_prepend data b =
     assert_then (length data \<le> Buffer_prependableBytes b)
       (let r = size_sub (readerIndex b) (length data) in
        Inr (b\<lparr>readerIndex := r, buffer := overwrite r data (buffer b)\<rparr>))"

text \<open>
  The two members that shrink calls and the class does not define (toStringPiece and the append
  that takes its result) are a parameter: the bytes the string piece covers.
\<close>

definition Buffer_shrink :: "(net_buffer \<Rightarrow> byte list) \<Rightarrow> nat \<Rightarrow> net_buffer \<Rightarrow> net_buffer result" where
  "Buffer_shrink toStringPiece reserve b =
     bindE (Buffer_new kInitialSize)
       (\<lambda>other. bindE (Buffer_ensureWritableBytes
                          (size_add (Buffer_readableBytes b) reserve) other)
         (\<lambda>other1. bindE (Buffer_append (toStringPiece b) other1)
           (\<lambda>other2. Inr (fst (Buffer_swap b other2)))))"

section \<open>Integers in network byte order\<close>

definition Buffer_appendInt64 :: "byte_order \<Rightarrow> 64 word \<Rightarrow> net_buffer \<Rightarrow> net_buffer result" where
  "Buffer_appendInt64 ho x b =
     (let be64 = hostToNetwork64 ho x in Buffer_append (memory_image ho be64) b)"

definition Buffer_appendInt32 :: "byte_order \<Rightarrow> 32 word \<Rightarrow> net_buffer \<Rightarrow> net_buffer result" where
  "Buffer_appendInt32 ho x b =
     (let be32 = hostToNetwork32 ho x in Buffer_append (memory_image ho be32) b)"

definition Buffer_appendInt16 :: "byte_order \<Rightarrow> 16 word \<Rightarrow> net_buffer \<Rightarrow> net_buffer result" where
  "Buffer_appendInt16 ho x b =
     (let be16 = hostToNetwork16 ho x in Buffer_append (memory_image ho be16) b)"

definition Buffer_appendInt8 :: "8 word \<Rightarrow> net_buffer \<Rightarrow> net_buffer result" where
  "Buffer_appendInt8 x b = Buffer_append [x] b"

definition Buffer_peekInt64 :: "byte_order \<Rightarrow> net_buffer \<Rightarrow> 64 word result" where
  "Buffer_peekInt64 ho b =
     assert_then (8 \<le> Buffer_readableBytes b)
       (let be64 = memory_load ho (take 8 (drop (Buffer_peek b) (buffer b))) in
        Inr (networkToHost64 ho be64))"

definition Buffer_peekInt32 :: "byte_order \<Rightarrow> net_buffer \<Rightarrow> 32 word result" where
  "Buffer_peekInt32 ho b =
     assert_then (4 \<le> Buffer_readableBytes b)
       (let be32 = memory_load ho (take 4 (drop (Buffer_peek b) (buffer b))) in
        Inr (networkToHost32 ho be32))"

definition Buffer_peekInt16 :: "byte_order \<Rightarrow> net_buffer \<Rightarrow> 16 word result" where
  "Buffer_peekInt16 ho b =
     assert_then (2 \<le> Buffer_readableBytes b)
       (let be16 = memory_load ho (take 2 (drop (Buffer_peek b) (buffer b))) in
        Inr (networkToHost16 ho be16))"

definition Buffer_peekInt8 :: "net_buffer \<Rightarrow> 8 word result" where
  "Buffer_peekInt8 b =
     assert_then (1 \<le> Buffer_readableBytes b) (Inr (buffer b ! Buffer_peek b))"

definition Buffer_readInt64 :: "byte_order \<Rightarrow> net_buffer \<Rightarrow> (64 word \<times> net_buffer) result" where
  "Buffer_readInt64 ho b =
     bindE (Buffer_peekInt64 ho b) (\<lambda>res. bindE (Buffer_retrieveInt64 b) (\<lambda>b'. Inr (res, b')))"

definition Buffer_readInt32 :: "byte_order \<Rightarrow> net_buffer \<Rightarrow> (32 word \<times> net_buffer) result" where
  "Buffer_readInt32 ho b =
     bindE (Buffer_peekInt32 ho b) (\<lambda>res. bindE (Buffer_retrieveInt32 b) (\<lambda>b'. Inr (res, b')))"

definition Buffer_readInt16 :: "byte_order \<Rightarrow> net_buffer \<Rightarrow> (16 word \<times> net_buffer) result" where
  "Buffer_readInt16 ho b =
     bindE (Buffer_peekInt16 ho b) (\<lambda>res. bindE (Buffer_retrieveInt16 b) (\<lambda>b'. Inr (res, b')))"

definition Buffer_readInt8 :: "net_buffer \<Rightarrow> (8 word \<times> net_buffer) result" where
  "Buffer_readInt8 b =
     bindE (Buffer_peekInt8 b) (\<lambda>res. bindE (Buffer_retrieveInt8 b) (\<lambda>b'. Inr (res, b')))"

definition Buffer_prependInt64 :: "byte_order \<Rightarrow> 64 word \<Rightarrow> net_buffer \<Rightarrow> net_buffer result" where
  "Buffer_prependInt64 ho x b =
     (let be64 = hostToNetwork64 ho x in Buffer_prepend (memory_image ho be64) b)"

definition Buffer_prependInt32 :: "byte_order \<Rightarrow> 32 word \<Rightarrow> net_buffer \<Rightarrow> net_buffer result" where
  "Buffer_prependInt32 ho x b =
     (let be32 = hostToNetwork32 ho x in Buffer_prepend (memory_image ho be32) b)"

definition Buffer_prependInt16 :: "byte_order \<Rightarrow> 16 word \<Rightarrow> net_buffer \<Rightarrow> net_buffer result" where
  "Buffer_prependInt16 ho x b =
     (let be16 = hostToNetwork16 ho x in Buffer_prepend (memory_image ho be16) b)"

definition Buffer_prependInt8 :: "8 word \<Rightarrow> net_buffer \<Rightarrow> net_buffer result" where
  "Buffer_prependInt8 x b = Buffer_prepend [x] b"

section \<open>Reading from a descriptor\<close>

text \<open>
  The kernel's readv is a parameter: given the lengths of the io vectors it answers with an
  errno or with the bytes it delivered, which it stores into the vectors in order. The result is
  the return value of readFd, the saved errno if there was one, and the new buffer.
\<close>

definition extrabuf_size :: nat where
  "extrabuf_size = 65536"

definition readFd_iov :: "net_buffer \<Rightarrow> nat list" where
  "readFd_iov b =
     (let writable = Buffer_writableBytes b in
      if writable < extrabuf_size then [writable, extrabuf_size] else [writable])"

definition Buffer_readFd ::
    "(nat list \<Rightarrow> int + byte list) \<Rightarrow> net_buffer \<Rightarrow> (int \<times> int option \<times> net_buffer) result" where
  "Buffer_readFd readv b =
     (let writable = Buffer_writableBytes b in
      case readv (readFd_iov b) of
        Inl errno \<Rightarrow> Inr (-1, Some errno, b)
      | Inr bytes \<Rightarrow>
          let n = length bytes;
              b1 = b\<lparr>buffer := overwrite (writerIndex b) (take writable bytes) (buffer b)\<rparr>;
              extrabuf = drop writable bytes
          in if n \<le> writable
             then Inr (int n, None, b1\<lparr>writerIndex := size_add (writerIndex b1) n\<rparr>)
             else bindE (Buffer_append extrabuf (b1\<lparr>writerIndex := length (buffer b1)\<rparr>))
                    (\<lambda>b2. Inr (int n, None, b2)))"

section \<open>The invariant and the contents\<close>

definition buf_inv :: "net_buffer \<Rightarrow> bool" where
  "buf_inv b \<longleftrightarrow> readerIndex b \<le> writerIndex b \<and> writerIndex b \<le> length (buffer b)
     \<and> kCheapPrepend \<le> length (buffer b) \<and> length (buffer b) \<le> vector_max"

definition content :: "net_buffer \<Rightarrow> byte list" where
  "content b = segment (readerIndex b) (writerIndex b) (buffer b)"

lemma buf_inv_sizes:
  assumes "buf_inv b"
  shows "Buffer_readableBytes b = writerIndex b - readerIndex b"
    and "Buffer_writableBytes b = length (buffer b) - writerIndex b"
    and "length (content b) = writerIndex b - readerIndex b"
    and "length (buffer b) < size_mod"
  using assms vector_max_less_size_mod
  by (simp_all add: buf_inv_def content_def Buffer_readableBytes_def Buffer_writableBytes_def
        size_sub_exact)

lemma buf_inv_readable: "buf_inv b \<Longrightarrow> Buffer_readableBytes b = length (content b)"
  by (simp add: buf_inv_sizes)

lemma Buffer_new_ok:
  assumes "kCheapPrepend + initialSize \<le> vector_max"
  shows "\<exists>b. Buffer_new initialSize = Inr b \<and> buf_inv b \<and> content b = []
    \<and> readerIndex b = kCheapPrepend \<and> writerIndex b = kCheapPrepend
    \<and> length (buffer b) = kCheapPrepend + initialSize"
proof -
  let ?b = "\<lparr>buffer = replicate (kCheapPrepend + initialSize) 0,
             readerIndex = kCheapPrepend, writerIndex = kCheapPrepend\<rparr>"
  have inv: "buf_inv ?b" using assms by (simp add: buf_inv_def)
  have "size_add kCheapPrepend initialSize = kCheapPrepend + initialSize"
    using assms vector_max_less_size_mod by (simp add: size_add_exact)
  then have "Buffer_new initialSize = Inr ?b"
    using assms buf_inv_sizes(1,2) [OF inv]
    by (simp add: Buffer_new_def vector_resize_def Let_def Buffer_prependableBytes_def)
  then show ?thesis using inv by (simp add: content_def)
qed

subsection \<open>Consuming\<close>

lemma Buffer_retrieve_fails_iff:
  "buf_inv b \<Longrightarrow> Buffer_retrieve len b = Inl e \<longleftrightarrow> length (content b) < len \<and> e = AssertFail"
  by (auto simp: Buffer_retrieve_def buf_inv_readable assert_then_def)

lemma Buffer_retrieve_ok:
  assumes inv: "buf_inv b" and len: "len \<le> length (content b)"
  shows "\<exists>b'. Buffer_retrieve len b = Inr b' \<and> buf_inv b' \<and> content b' = drop len (content b)
    \<and> writerIndex b' \<le> max kCheapPrepend (writerIndex b)"
proof (cases "len < length (content b)")
  case True
  have add: "size_add (readerIndex b) len = readerIndex b + len"
    using True inv buf_inv_sizes(3,4) [OF inv] unfolding buf_inv_def
    by (intro size_add_exact) linarith
  have "Buffer_retrieve len b = Inr (b\<lparr>readerIndex := readerIndex b + len\<rparr>)"
    using True add by (simp add: Buffer_retrieve_def buf_inv_readable [OF inv])
  then show ?thesis
    using True inv buf_inv_sizes(3) [OF inv] by (simp add: buf_inv_def content_def drop_segment)
next
  case False
  then have "Buffer_retrieve len b = Inr (Buffer_retrieveAll b)"
    using len by (simp add: Buffer_retrieve_def buf_inv_readable [OF inv])
  then show ?thesis
    using False inv by (simp add: Buffer_retrieveAll_def buf_inv_def content_def)
qed

lemma Buffer_retrieveAll_ok:
  "buf_inv b \<Longrightarrow> buf_inv (Buffer_retrieveAll b) \<and> content (Buffer_retrieveAll b) = []"
  by (simp add: Buffer_retrieveAll_def buf_inv_def content_def)

lemma take_peek:
  "buf_inv b \<Longrightarrow> len \<le> length (content b) \<Longrightarrow>
     take len (drop (Buffer_peek b) (buffer b)) = take len (content b)"
  by (simp add: Buffer_peek_def content_def segment_def buf_inv_def)

lemma Buffer_retrieveAsString_ok:
  assumes "buf_inv b" and "len \<le> length (content b)"
  shows "\<exists>b'. Buffer_retrieveAsString len b = Inr (take len (content b), b') \<and> buf_inv b'
    \<and> content b' = drop len (content b)"
  using Buffer_retrieve_ok [OF assms] assms
  by (auto simp: Buffer_retrieveAsString_def buf_inv_readable take_peek)

lemma Buffer_unwrite_ok:
  assumes inv: "buf_inv b" and len: "len \<le> length (content b)"
  shows "\<exists>b'. Buffer_unwrite len b = Inr b' \<and> buf_inv b'
    \<and> content b' = take (length (content b) - len) (content b)"
proof -
  have sub: "size_sub (writerIndex b) len = writerIndex b - len"
    using inv len buf_inv_sizes(3,4) [OF inv] by (simp add: size_sub_exact buf_inv_def)
  have "content (b\<lparr>writerIndex := writerIndex b - len\<rparr>)
      = take (length (content b) - len) (content b)"
    unfolding buf_inv_sizes(3) [OF inv]
    by (simp add: content_def segment_def min_def add.commute)
  then show ?thesis
    using inv len sub buf_inv_sizes(3) [OF inv] buf_inv_readable [OF inv]
    by (auto simp: Buffer_unwrite_def buf_inv_def)
qed

subsection \<open>Making space\<close>

text \<open>
  With room for the request below the maximal vector size, making space succeeds: neither its
  inner assertion nor the vector fails, the contents stay, and the room is there.
\<close>

lemma Buffer_makeSpace_grow:
  assumes inv: "buf_inv b" and need: "length (buffer b) - writerIndex b < len"
    and fit: "writerIndex b + len \<le> vector_max"
    and grow: "length (buffer b) - writerIndex b + readerIndex b < len + kCheapPrepend"
  shows "Buffer_makeSpace len b
      = Inr (b\<lparr>buffer := buffer b @ replicate (writerIndex b + len - length (buffer b)) 0\<rparr>)"
proof -
  note sizes = buf_inv_sizes [OF inv]
  have a1: "size_add (Buffer_writableBytes b) (readerIndex b)
      = length (buffer b) - writerIndex b + readerIndex b"
    using inv sizes(4) unfolding buf_inv_def sizes(2) by (intro size_add_exact) linarith
  have a2: "size_add len kCheapPrepend = len + kCheapPrepend"
    using fit by (simp add: size_add_exact vector_max_def size_mod_def kCheapPrepend_def)
  have a3: "size_add (writerIndex b) len = writerIndex b + len"
    using fit vector_max_less_size_mod by (simp add: size_add_exact)
  show ?thesis
    using grow fit need a1 a2 a3
    by (simp add: Buffer_makeSpace_def Buffer_prependableBytes_def vector_resize_def)
qed

lemma Buffer_makeSpace_move:
  assumes inv: "buf_inv b" and need: "length (buffer b) - writerIndex b < len"
    and fit: "len \<le> vector_max"
    and room: "\<not> length (buffer b) - writerIndex b + readerIndex b < len + kCheapPrepend"
  shows "Buffer_makeSpace len b
      = Inr (b\<lparr>buffer := std_copy (writerIndex b - readerIndex b) (readerIndex b) kCheapPrepend
                          (buffer b),
               readerIndex := kCheapPrepend,
               writerIndex := kCheapPrepend + (writerIndex b - readerIndex b)\<rparr>)"
proof -
  note sizes = buf_inv_sizes [OF inv]
  have a1: "size_add (Buffer_writableBytes b) (readerIndex b)
      = length (buffer b) - writerIndex b + readerIndex b"
    using inv sizes(4) unfolding buf_inv_def sizes(2) by (intro size_add_exact) linarith
  have a2: "size_add len kCheapPrepend = len + kCheapPrepend"
    using fit by (simp add: size_add_exact vector_max_def size_mod_def kCheapPrepend_def)
  have front: "kCheapPrepend < readerIndex b"
    using room need by linarith
  have a3: "size_add kCheapPrepend (writerIndex b - readerIndex b)
      = kCheapPrepend + (writerIndex b - readerIndex b)"
    using inv front sizes(4) unfolding buf_inv_def by (intro size_add_exact) linarith
  have a4: "size_sub (kCheapPrepend + (writerIndex b - readerIndex b)) kCheapPrepend
      = writerIndex b - readerIndex b"
    using inv front sizes(4) by (subst size_sub_exact) (auto simp: buf_inv_def)
  show ?thesis
    using room a1 a2 a3 a4 front sizes(1)
    by (simp add: Buffer_makeSpace_def Buffer_prependableBytes_def Let_def Buffer_readableBytes_def)
qed

lemma Buffer_makeSpace_ok:
  assumes inv: "buf_inv b" and need: "length (buffer b) - writerIndex b < len"
    and fit: "writerIndex b + len \<le> vector_max"
  shows "\<exists>b'. Buffer_makeSpace len b = Inr b' \<and> buf_inv b' \<and> content b' = content b
    \<and> len \<le> length (buffer b') - writerIndex b' \<and> writerIndex b' \<le> writerIndex b"
proof (cases "length (buffer b) - writerIndex b + readerIndex b < len + kCheapPrepend")
  case True
  show ?thesis
    using Buffer_makeSpace_grow [OF inv need fit True] inv need fit
    by (auto simp: buf_inv_def content_def segment_append_right)
next
  case False
  have front: "kCheapPrepend < readerIndex b" using False need by linarith
  obtain n where n: "writerIndex b = readerIndex b + n"
    using inv by (auto simp: buf_inv_def le_iff_add)
  have "segment kCheapPrepend (kCheapPrepend + n) (std_copy n (readerIndex b) kCheapPrepend (buffer b))
      = content b"
    using inv front by (simp add: content_def n segment_std_copy_left buf_inv_def)
  then show ?thesis
    using Buffer_makeSpace_move [OF inv need _ False] inv need fit front False
    by (auto simp: buf_inv_def n content_def)
qed

lemma Buffer_ensureWritableBytes_ok:
  assumes inv: "buf_inv b" and fit: "writerIndex b + len \<le> vector_max"
  shows "\<exists>b'. Buffer_ensureWritableBytes len b = Inr b' \<and> buf_inv b' \<and> content b' = content b
    \<and> len \<le> length (buffer b') - writerIndex b' \<and> writerIndex b' \<le> writerIndex b"
proof (cases "length (buffer b) - writerIndex b < len")
  case True
  then show ?thesis
    using Buffer_makeSpace_ok [OF inv True fit]
    by (auto simp: Buffer_ensureWritableBytes_def buf_inv_sizes(2) inv)
next
  case False
  then show ?thesis
    using inv by (simp add: Buffer_ensureWritableBytes_def buf_inv_sizes(2))
qed

subsection \<open>Adding bytes\<close>

lemma Buffer_append_room_eq:
  assumes inv: "buf_inv b" and room: "length data \<le> length (buffer b) - writerIndex b"
  shows "Buffer_append data b = Inr (b\<lparr>buffer := overwrite (writerIndex b) data (buffer b),
                                       writerIndex := writerIndex b + length data\<rparr>)"
proof -
  let ?b2 = "b\<lparr>buffer := overwrite (writerIndex b) data (buffer b)\<rparr>"
  have room': "writerIndex b + length data \<le> length (buffer b)"
    using room inv by (auto simp: buf_inv_def)
  have inv2: "buf_inv ?b2" using inv room' by (simp add: buf_inv_def)
  have sum: "size_add (writerIndex b) (length data) = writerIndex b + length data"
    using room' buf_inv_sizes(4) [OF inv] by (simp add: size_add_exact)
  show ?thesis
    using room' room sum buf_inv_sizes(2) [OF inv2] buf_inv_sizes(2) [OF inv]
    by (simp add: Buffer_append_def Buffer_hasWritten_def Buffer_beginWrite_def
        Buffer_ensureWritableBytes_def)
qed

lemma Buffer_append_room:
  assumes inv: "buf_inv b" and room: "length data \<le> length (buffer b) - writerIndex b"
  shows "\<exists>b'. Buffer_append data b = Inr b' \<and> buf_inv b' \<and> content b' = content b @ data
    \<and> length (buffer b') = length (buffer b) \<and> writerIndex b' = writerIndex b + length data
    \<and> readerIndex b' = readerIndex b"
proof -
  have room': "writerIndex b + length data \<le> length (buffer b)"
    using room inv by (auto simp: buf_inv_def)
  then show ?thesis
    using inv unfolding Buffer_append_room_eq [OF assms]
    by (simp add: content_def buf_inv_def segment_overwrite_before segment_overwrite_here
          segment_split [of "readerIndex b" "writerIndex b" "writerIndex b + length data"])
qed

lemma Buffer_append_after_ensure:
  assumes "Buffer_ensureWritableBytes (length data) b = Inr b1" and "buf_inv b1"
    and "length data \<le> length (buffer b1) - writerIndex b1"
  shows "Buffer_append data b = Buffer_append data b1"
  using assms by (simp add: Buffer_append_def Buffer_ensureWritableBytes_def buf_inv_sizes(2))

lemma Buffer_append_ok:
  assumes inv: "buf_inv b" and fit: "writerIndex b + length data \<le> vector_max"
  shows "\<exists>b'. Buffer_append data b = Inr b' \<and> buf_inv b' \<and> content b' = content b @ data
    \<and> writerIndex b' \<le> writerIndex b + length data"
proof -
  obtain b1 where b1: "Buffer_ensureWritableBytes (length data) b = Inr b1"
    and inv1: "buf_inv b1" and c1: "content b1 = content b"
    and room: "length data \<le> length (buffer b1) - writerIndex b1"
    and w1: "writerIndex b1 \<le> writerIndex b"
    using Buffer_ensureWritableBytes_ok [OF inv fit] by blast
  show ?thesis
    using Buffer_append_room [OF inv1 room] Buffer_append_after_ensure [OF b1 inv1 room] c1 w1
    by auto
qed

lemma Buffer_prepend_ok:
  assumes inv: "buf_inv b" and room: "length data \<le> readerIndex b"
  shows "\<exists>b'. Buffer_prepend data b = Inr b' \<and> buf_inv b' \<and> content b' = data @ content b
    \<and> readerIndex b' = readerIndex b - length data"
proof -
  let ?r = "readerIndex b - length data"
  let ?b' = "b\<lparr>readerIndex := ?r, buffer := overwrite ?r data (buffer b)\<rparr>"
  have fit: "?r + length data = readerIndex b" "?r + length data \<le> length (buffer b)"
    using inv room by (simp_all add: buf_inv_def)
  have sub: "size_sub (readerIndex b) (length data) = ?r"
    using inv room buf_inv_sizes(4) [OF inv] by (simp add: size_sub_exact buf_inv_def)
  have "Buffer_prepend data b = Inr ?b'"
    using room sub by (simp add: Buffer_prepend_def Buffer_prependableBytes_def Let_def)
  moreover have "segment ?r (readerIndex b) (overwrite ?r data (buffer b)) = data"
    using segment_overwrite_here [OF fit(2)] fit(1) by simp
  moreover have "segment (readerIndex b) (writerIndex b) (overwrite ?r data (buffer b)) = content b"
    using inv fit by (simp add: content_def segment_overwrite_after buf_inv_def)
  ultimately show ?thesis
    using inv fit
    by (simp add: content_def buf_inv_def segment_split [of ?r "readerIndex b" "writerIndex b"])
qed

lemma Buffer_prepend_fails:
  "readerIndex b < length data \<Longrightarrow> Buffer_prepend data b = Inl AssertFail"
  by (simp add: Buffer_prepend_def Buffer_prependableBytes_def assert_then_def)

end
