(* ===== verification/BufferContract.thy ===== *)
theory BufferContract
  imports NetBuffer
begin

text \<open>
  The contract of net/Buffer: a queue of bytes. An abstract machine on byte lists is refined by
  the buffer for every sequence of calls; the integer operations of every width share one
  interface, stated as a locale and interpreted for the four widths; reading from a descriptor
  and shrinking keep the contents; searching finds the first match. The last section shows the
  one call that can leave the buffer broken.
\<close>

section \<open>Calls and the abstract byte queue\<close>

datatype buffer_call =
    Append "byte list"
  | Prepend "byte list"
  | Retrieve nat
  | RetrieveUntil nat
  | RetrieveAll
  | EnsureWritable nat
  | Unwrite nat

fun buffer_step :: "buffer_call \<Rightarrow> net_buffer \<Rightarrow> net_buffer result" where
  "buffer_step (Append ds) b = Buffer_append ds b"
| "buffer_step (Prepend ds) b = Buffer_prepend ds b"
| "buffer_step (Retrieve n) b = Buffer_retrieve n b"
| "buffer_step (RetrieveUntil p) b = Buffer_retrieveUntil (Buffer_peek b + p) b"
| "buffer_step RetrieveAll b = Inr (Buffer_retrieveAll b)"
| "buffer_step (EnsureWritable n) b = Buffer_ensureWritableBytes n b"
| "buffer_step (Unwrite n) b = Buffer_unwrite n b"

fun buffer_run :: "buffer_call list \<Rightarrow> net_buffer \<Rightarrow> net_buffer result" where
  "buffer_run [] b = Inr b"
| "buffer_run (c # cs) b = bindE (buffer_step c b) (buffer_run cs)"

fun queue_step :: "buffer_call \<Rightarrow> byte list \<Rightarrow> byte list" where
  "queue_step (Append ds) q = q @ ds"
| "queue_step (Prepend ds) q = ds @ q"
| "queue_step (Retrieve n) q = drop n q"
| "queue_step (RetrieveUntil p) q = drop p q"
| "queue_step RetrieveAll q = []"
| "queue_step (EnsureWritable n) q = q"
| "queue_step (Unwrite n) q = take (length q - n) q"

fun queue_run :: "buffer_call list \<Rightarrow> byte list \<Rightarrow> byte list" where
  "queue_run [] q = q"
| "queue_run (c # cs) q = queue_run cs (queue_step c q)"

text \<open>The size argument of a call is one that a vector of char could have.\<close>

fun call_size_ok :: "buffer_call \<Rightarrow> bool" where
  "call_size_ok (Append ds) = (length ds \<le> vector_max)"
| "call_size_ok (EnsureWritable n) = (n \<le> vector_max)"
| "call_size_ok c = True"

section \<open>Refinement of the abstract queue\<close>

lemma Buffer_makeSpace_too_long:
  assumes inv: "buf_inv b" and need: "length (buffer b) - writerIndex b < len"
    and len: "len \<le> vector_max" and long: "vector_max < writerIndex b + len"
  shows "(\<exists>b'. Buffer_makeSpace len b = Inr b' \<and> buf_inv b' \<and> content b' = content b
           \<and> len \<le> length (buffer b') - writerIndex b')
    \<or> Buffer_makeSpace len b = Inl LengthError"
proof (cases "length (buffer b) - writerIndex b + readerIndex b < len + kCheapPrepend")
  case True
  note sizes = buf_inv_sizes [OF inv]
  have a1: "size_add (Buffer_writableBytes b) (readerIndex b)
      = length (buffer b) - writerIndex b + readerIndex b"
    using inv sizes(4) unfolding buf_inv_def sizes(2) by (intro size_add_exact) linarith
  have a2: "size_add len kCheapPrepend = len + kCheapPrepend"
    using len by (simp add: size_add_exact vector_max_def size_mod_def kCheapPrepend_def)
  have "writerIndex b \<le> vector_max" using inv unfolding buf_inv_def by linarith
  then have a3: "size_add (writerIndex b) len = writerIndex b + len"
    using len by (intro size_add_exact) (simp add: vector_max_def size_mod_def)
  show ?thesis
    using True long a1 a2 a3
    by (simp add: Buffer_makeSpace_def Buffer_prependableBytes_def vector_resize_def)
next
  case False
  have front: "kCheapPrepend < readerIndex b" using False need by linarith
  obtain n where n: "writerIndex b = readerIndex b + n"
    using inv by (auto simp: buf_inv_def le_iff_add)
  have "segment kCheapPrepend (kCheapPrepend + n) (std_copy n (readerIndex b) kCheapPrepend (buffer b))
      = content b"
    using inv front by (simp add: content_def n segment_std_copy_left buf_inv_def)
  then show ?thesis
    using Buffer_makeSpace_move [OF inv need len False] inv need front False
    by (auto simp: buf_inv_def n content_def)
qed

lemma Buffer_ensureWritableBytes_cases:
  assumes inv: "buf_inv b" and len: "len \<le> vector_max"
  shows "(\<exists>b'. Buffer_ensureWritableBytes len b = Inr b' \<and> buf_inv b' \<and> content b' = content b
           \<and> len \<le> length (buffer b') - writerIndex b')
    \<or> Buffer_ensureWritableBytes len b = Inl LengthError"
proof (cases "writerIndex b + len \<le> vector_max \<or> \<not> length (buffer b) - writerIndex b < len")
  case True
  then show ?thesis
    using Buffer_ensureWritableBytes_ok [OF inv, of len] inv buf_inv_sizes(2) [OF inv]
    by (auto simp: Buffer_ensureWritableBytes_def)
next
  case False
  then show ?thesis
    using Buffer_makeSpace_too_long [OF inv _ len] buf_inv_sizes(2) [OF inv]
    by (auto simp: Buffer_ensureWritableBytes_def buf_inv_sizes(2))
qed

lemma Buffer_append_cases:
  assumes inv: "buf_inv b" and len: "length data \<le> vector_max"
  shows "(\<exists>b'. Buffer_append data b = Inr b' \<and> buf_inv b' \<and> content b' = content b @ data)
    \<or> Buffer_append data b = Inl LengthError"
proof -
  consider (ok) b1 where "Buffer_ensureWritableBytes (length data) b = Inr b1" "buf_inv b1"
      "content b1 = content b" "length data \<le> length (buffer b1) - writerIndex b1"
    | (err) "Buffer_ensureWritableBytes (length data) b = Inl LengthError"
    using Buffer_ensureWritableBytes_cases [OF inv len] by blast
  then show ?thesis
  proof cases
    case ok
    have fit: "writerIndex b1 + length data \<le> vector_max"
      using ok(2,4) unfolding buf_inv_def by linarith
    show ?thesis
      using Buffer_append_ok [OF ok(2) fit] Buffer_append_after_ensure [OF ok(1,2,4)] ok(3)
      by auto
  next
    case err
    then show ?thesis by (simp add: Buffer_append_def)
  qed
qed

lemma buffer_step_refines:
  assumes inv: "buf_inv b" and ok: "call_size_ok c" and run: "buffer_step c b = Inr b'"
  shows "buf_inv b' \<and> content b' = queue_step c (content b)"
proof (cases c)
  case (Append ds)
  then show ?thesis using Buffer_append_cases [OF inv, of ds] ok run by auto
next
  case (Prepend ds)
  then show ?thesis
    using Buffer_prepend_ok [OF inv, of ds] Buffer_prepend_fails [of b ds] run
    by (cases "length ds \<le> readerIndex b") auto
next
  case (Retrieve n)
  then show ?thesis
    using Buffer_retrieve_ok [OF inv, of n] Buffer_retrieve_fails_iff [OF inv, of n AssertFail] run
    by (cases "n \<le> length (content b)") auto
next
  case (RetrieveUntil p)
  then have ret: "Buffer_retrieve p b = Inr b'"
    using run by (simp add: Buffer_retrieveUntil_def assert_then_def split: if_splits)
  then show ?thesis
    using Buffer_retrieve_ok [OF inv, of p] Buffer_retrieve_fails_iff [OF inv, of p AssertFail]
      RetrieveUntil
    by (cases "p \<le> length (content b)") auto
next
  case RetrieveAll
  then show ?thesis using Buffer_retrieveAll_ok [OF inv] run by auto
next
  case (EnsureWritable n)
  then show ?thesis using Buffer_ensureWritableBytes_cases [OF inv, of n] ok run by auto
next
  case (Unwrite n)
  then have "n \<le> length (content b)"
    using run by (simp add: Buffer_unwrite_def buf_inv_readable [OF inv] assert_then_def
          split: if_splits)
  then show ?thesis using Buffer_unwrite_ok [OF inv, of n] Unwrite run by auto
qed

lemma buffer_run_refines:
  assumes "buf_inv b" and "list_all call_size_ok cs" and "buffer_run cs b = Inr b'"
  shows "buf_inv b' \<and> content b' = queue_run cs (content b)"
  using assms
proof (induction cs arbitrary: b)
  case Nil
  then show ?case by simp
next
  case (Cons c cs)
  then obtain b1 where "buffer_step c b = Inr b1" and "buffer_run cs b1 = Inr b'"
    by (auto simp: bindE_eq_Inr)
  then show ?case using Cons buffer_step_refines [of b c b1] by auto
qed

text \<open>
  What a caller has to see to before a call, by the accessors of the class: it consumes at most readableBytes and
  prepends at most prependableBytes. A list of calls is in order when each of them is at the moment it is made.
\<close>

fun call_ok :: "buffer_call \<Rightarrow> net_buffer \<Rightarrow> bool" where
  "call_ok (Prepend ds) b = (length ds \<le> Buffer_prependableBytes b)"
| "call_ok (Retrieve n) b = (n \<le> Buffer_readableBytes b)"
| "call_ok (RetrieveUntil p) b = (p \<le> Buffer_readableBytes b)"
| "call_ok (Unwrite n) b = (n \<le> Buffer_readableBytes b)"
| "call_ok c b = True"

primrec calls_ok :: "buffer_call list \<Rightarrow> net_buffer \<Rightarrow> bool" where
  "calls_ok [] b = True"
| "calls_ok (c # cs) b =
     (call_ok c b \<and> (case buffer_step c b of Inr b' \<Rightarrow> calls_ok cs b' | Inl _ \<Rightarrow> True))"

fun call_size :: "buffer_call \<Rightarrow> nat" where
  "call_size (Append ds) = length ds"
| "call_size (EnsureWritable n) = n"
| "call_size c = 0"

lemma buffer_step_succeeds:
  assumes inv: "buf_inv b" and call: "call_ok c b"
    and fit: "max kCheapPrepend (writerIndex b) + call_size c \<le> vector_max"
  shows "\<exists>b'. buffer_step c b = Inr b' \<and> buf_inv b' \<and> content b' = queue_step c (content b)
    \<and> max kCheapPrepend (writerIndex b') \<le> max kCheapPrepend (writerIndex b) + call_size c"
proof -
  have ok: "n \<le> length (content b)" if "c = Retrieve n \<or> c = RetrieveUntil n \<or> c = Unwrite n" for n
    using call that by (auto simp: buf_inv_readable [OF inv])
  show ?thesis
  proof (cases c)
    case (Append ds)
    then show ?thesis using Buffer_append_ok [OF inv, of ds] fit by fastforce
  next
    case (Prepend ds)
    then obtain b' where b': "Buffer_prepend ds b = Inr b'" "buf_inv b'" "content b' = ds @ content b"
      using Buffer_prepend_ok [OF inv, of ds] call by (auto simp: Buffer_prependableBytes_def)
    then have "writerIndex b' = writerIndex b"
      by (auto simp: Buffer_prepend_def assert_then_def Let_def split: if_splits)
    then show ?thesis using Prepend b' by simp
  next
    case (Retrieve n)
    then show ?thesis using Buffer_retrieve_ok [OF inv, of n] ok by fastforce
  next
    case (RetrieveUntil p)
    have "Buffer_retrieveUntil (Buffer_peek b + p) b = Buffer_retrieve p b"
      using RetrieveUntil ok inv buf_inv_sizes(3) [OF inv]
      by (auto simp: Buffer_retrieveUntil_def Buffer_peek_def Buffer_beginWrite_def buf_inv_def
            assert_then_def)
    then show ?thesis using RetrieveUntil Buffer_retrieve_ok [OF inv, of p] ok by fastforce
  next
    case RetrieveAll
    then show ?thesis
      using Buffer_retrieveAll_ok [OF inv] by (simp add: Buffer_retrieveAll_def)
  next
    case (EnsureWritable n)
    then show ?thesis using Buffer_ensureWritableBytes_ok [OF inv, of n] fit by fastforce
  next
    case (Unwrite n)
    have "size_sub (writerIndex b) n \<le> writerIndex b"
      using Unwrite ok inv buf_inv_sizes(3,4) [OF inv]
      by (subst size_sub_exact) (auto simp: buf_inv_def)
    then show ?thesis
      using Unwrite Buffer_unwrite_ok [OF inv, of n] ok
      by (auto simp: Buffer_unwrite_def assert_then_def split: if_splits)
  qed
qed

text \<open>
  A condition on the calls alone, which needs no look at the buffer: they consume what the abstract queue holds, and
  all that they prepend fits into \<open>room\<close> bytes; at the start these are the reserved ones.
\<close>

fun queue_calls_ok :: "nat \<Rightarrow> buffer_call list \<Rightarrow> byte list \<Rightarrow> bool" where
  "queue_calls_ok room [] q = True"
| "queue_calls_ok room (Prepend ds # cs) q = (length ds \<le> room \<and> queue_calls_ok (room - length ds) cs (ds @ q))"
| "queue_calls_ok room (c # cs) q =
     ((case c of Retrieve n \<Rightarrow> n \<le> length q | RetrieveUntil n \<Rightarrow> n \<le> length q | Unwrite n \<Rightarrow> n \<le> length q | _ \<Rightarrow> True)
      \<and> queue_calls_ok room cs (queue_step c q))"

lemma Buffer_append_front:
  "Buffer_append data b = Inr b' \<Longrightarrow> readerIndex b' = readerIndex b \<or> readerIndex b' = kCheapPrepend"
  by (auto simp: Buffer_append_def Buffer_ensureWritableBytes_def Buffer_makeSpace_def Buffer_hasWritten_def bindE_eq_Inr
      assert_then_def Let_def split: if_splits)

lemma buffer_step_front:
  assumes inv: "buf_inv b" and step: "buffer_step c b = Inr b'" and c: "\<And>ds. c \<noteq> Prepend ds"
  shows "min kCheapPrepend (readerIndex b) \<le> readerIndex b'"
proof -
  have retrieve: "min kCheapPrepend (readerIndex b) \<le> readerIndex b'" if "Buffer_retrieve n b = Inr b'" for n
  proof -
    have "size_add (readerIndex b) n = readerIndex b + n" if "n < length (content b)"
      using that inv buf_inv_sizes(3,4) [OF inv] unfolding buf_inv_def by (intro size_add_exact) linarith
    then show ?thesis using that buf_inv_readable [OF inv]
      by (auto simp: Buffer_retrieve_def Buffer_retrieveAll_def assert_then_def split: if_splits)
  qed
  show ?thesis
  proof (cases c)
    case (Append ds)
    then show ?thesis using step Buffer_append_front [of ds b b'] by auto
  next
    case (RetrieveUntil n)
    then show ?thesis using step retrieve by (auto simp: Buffer_retrieveUntil_def assert_then_def split: if_splits)
  qed (use c step retrieve in \<open>auto simp: Buffer_ensureWritableBytes_def Buffer_makeSpace_def Buffer_retrieveAll_def
      Buffer_unwrite_def assert_then_def Let_def bindE_eq_Inr split: if_splits dest!: arg_cong [of _ b' readerIndex]\<close>)
qed

lemma queue_calls_in_order:
  "buf_inv b \<Longrightarrow> queue_calls_ok room cs (content b) \<Longrightarrow> room \<le> kCheapPrepend \<Longrightarrow> room \<le> readerIndex b \<Longrightarrow>
    max kCheapPrepend (writerIndex b) + sum_list (map call_size cs) \<le> vector_max \<Longrightarrow> calls_ok cs b"
proof (induction cs arbitrary: b room)
  case (Cons c cs)
  have ok: "call_ok c b"
    using Cons.prems(1,2,4) by (cases c) (auto simp: buf_inv_readable Buffer_prependableBytes_def)
  have fit: "max kCheapPrepend (writerIndex b) + call_size c \<le> vector_max" using Cons.prems(5) by simp
  obtain b1 where b1: "buffer_step c b = Inr b1" "buf_inv b1" "content b1 = queue_step c (content b)"
      "max kCheapPrepend (writerIndex b1) \<le> max kCheapPrepend (writerIndex b) + call_size c"
    using buffer_step_succeeds [OF Cons.prems(1) ok fit] by blast
  have rest: "max kCheapPrepend (writerIndex b1) + sum_list (map call_size cs) \<le> vector_max"
    using Cons.prems(5) b1(4) by (simp only: list.map sum_list.Cons)
  have "calls_ok cs b1"
  proof (cases "\<exists>ds. c = Prepend ds")
    case True
    then obtain ds where c: "c = Prepend ds" by blast
    then have "readerIndex b1 = readerIndex b - length ds"
      using Buffer_prepend_ok [OF Cons.prems(1), of ds] Cons.prems(2,4) b1(1) by auto
    then show ?thesis
      using Cons.IH [OF b1(2), of "room - length ds"] Cons.prems(2-4) c b1(3) rest by auto
  next
    case False
    then have "room \<le> readerIndex b1"
      using buffer_step_front [OF Cons.prems(1) b1(1)] Cons.prems(3,4) by fastforce
    moreover have "queue_calls_ok room cs (content b1)"
      using Cons.prems(2) False b1(3) by (cases c) auto
    ultimately show ?thesis using Cons.IH [OF b1(2)] Cons.prems(3) rest by blast
  qed
  then show ?case using ok b1(1) by simp
qed simp

lemma buffer_run_succeeds:
  assumes "buf_inv b" and "calls_ok cs b"
    and "max kCheapPrepend (writerIndex b) + sum_list (map call_size cs) \<le> vector_max"
  shows "\<exists>b'. buffer_run cs b = Inr b' \<and> buf_inv b' \<and> content b' = queue_run cs (content b)"
  using assms
proof (induction cs arbitrary: b)
  case Nil
  then show ?case by simp
next
  case (Cons c cs)
  have fit: "max kCheapPrepend (writerIndex b) + call_size c \<le> vector_max"
    using Cons.prems(3) by simp
  obtain b1 where b1: "buffer_step c b = Inr b1" "buf_inv b1"
      "content b1 = queue_step c (content b)"
      "max kCheapPrepend (writerIndex b1) \<le> max kCheapPrepend (writerIndex b) + call_size c"
    using buffer_step_succeeds [OF Cons.prems(1) _ fit] Cons.prems(2) by auto
  have "calls_ok cs b1" using Cons.prems(2) b1(1) by simp
  moreover have "max kCheapPrepend (writerIndex b1) + sum_list (map call_size cs) \<le> vector_max"
    using Cons.prems(3) b1(4) by (simp only: list.map sum_list.Cons)
  ultimately show ?case using Cons.IH [OF b1(2)] b1 by simp
qed

section \<open>Properties of whole runs\<close>

text \<open>
  C1. Whatever calls a program makes on a fresh buffer, whose initial size fits a vector, if none of them is refused and none appends or
  reserves more bytes than a vector of char can hold (what happens beyond that is the subject of the last section), then the buffer's invariant holds
  (reader index, writer index and vector size in order) and what is readable is exactly what the same calls
  leave in an abstract queue of bytes.
\<close>

theorem buffer_refines_queue:
  assumes "Buffer_new initialSize = Inr b" and "kCheapPrepend + initialSize \<le> vector_max"
    and "list_all call_size_ok cs" and "buffer_run cs b = Inr b'"
  shows "readerIndex b' \<le> writerIndex b' \<and> writerIndex b' \<le> length (buffer b')
    \<and> content b' = queue_run cs []"
proof -
  have "buf_inv b" and "content b = []"
    using Buffer_new_ok [OF assms(2)] assms(1) by auto
  then show ?thesis
    using buffer_run_refines [OF _ assms(3,4)] by (auto simp: buf_inv_def)
qed

definition sample_buffer :: net_buffer where
  "sample_buffer =
     \<lparr>buffer = [0, 0, 0, 0, 0, 0, 0, 0, 0, 0, 0, 0], readerIndex = 8, writerIndex = 8\<rparr>"

lemma sample_buffer_new: "Buffer_new 4 = Inr sample_buffer"
proof -
  have "replicate 12 0 = [0, 0, 0, 0, 0, 0, 0, 0, 0, 0, 0, 0 :: byte]"
    by (simp add: numeral_eq_Suc)
  then show ?thesis
  by (simp add: Buffer_new_def vector_resize_def size_add_def size_sub_def size_mod_def
      vector_max_def kCheapPrepend_def Buffer_readableBytes_def Buffer_writableBytes_def
      Buffer_prependableBytes_def sample_buffer_def Let_def)
qed

lemma sample_calls_ok:
  "queue_calls_ok 8 cs [] \<Longrightarrow> 8 + sum_list (map call_size cs) \<le> vector_max \<Longrightarrow> calls_ok cs sample_buffer"
  by (rule queue_calls_in_order [where room = 8])
    (auto simp: sample_buffer_def buf_inv_def content_def segment_def kCheapPrepend_def vector_max_def)

theorem buffer_refines_queue_witness:
  "content (case buffer_run [Append [1, 2, 3], Retrieve 1, Append [4, 5]] sample_buffer of
              Inr b \<Rightarrow> b | Inl e \<Rightarrow> sample_buffer) = [2, 3, 4, 5]"
proof -
  let ?cs = "[Append [1, 2, 3], Retrieve 1, Append [4, 5]]"
  have "calls_ok ?cs sample_buffer" by (rule sample_calls_ok) (simp_all add: vector_max_def)
  moreover have "buf_inv sample_buffer" "max kCheapPrepend (writerIndex sample_buffer) + sum_list (map call_size ?cs) \<le> vector_max"
    by (simp_all add: sample_buffer_def buf_inv_def kCheapPrepend_def vector_max_def)
  ultimately obtain b' where b': "buffer_run ?cs sample_buffer = Inr b'" using buffer_run_succeeds by blast
  have "content b' = queue_run ?cs []"
    using buffer_refines_queue [OF sample_buffer_new _ _ b']
    by (simp add: kCheapPrepend_def vector_max_def del: buffer_run.simps)
  then show ?thesis using b' by (simp del: buffer_run.simps)
qed

text \<open>
  C2. No call faults on a fresh buffer, whose initial size fits a vector, as long as the caller, at each call, consumes no more than readableBytes and
  prepends no more than prependableBytes, and all the bytes that it appends and reserves together fit a vector: no
  assertion of the class fails and no exception is thrown, whatever moves and growth happen inside, and the
  readable bytes are those of the abstract queue.
\<close>

theorem buffer_calls_succeed:
  assumes "Buffer_new initialSize = Inr b" and "kCheapPrepend + initialSize \<le> vector_max"
    and "calls_ok cs b" and "kCheapPrepend + sum_list (map call_size cs) \<le> vector_max"
  shows "\<exists>b'. buffer_run cs b = Inr b' \<and> content b' = queue_run cs []"
proof -
  have "buf_inv b" and "content b = []" and "writerIndex b = kCheapPrepend"
    using Buffer_new_ok [OF assms(2)] assms(1) by auto
  then show ?thesis using buffer_run_succeeds [of b cs] assms(3,4) by auto
qed

theorem buffer_calls_succeed_witness:
  "\<exists>b'. buffer_run [Append [7, 8], Prepend [1], EnsureWritable 100, Unwrite 1] sample_buffer = Inr b'
     \<and> content b' = [1, 7]"
proof -
  let ?cs = "[Append [7, 8], Prepend [1], EnsureWritable 100, Unwrite 1]"
  have "calls_ok ?cs sample_buffer" by (rule sample_calls_ok) (simp_all add: vector_max_def)
  then show ?thesis
    using buffer_calls_succeed [OF sample_buffer_new, of ?cs]
    by (simp add: kCheapPrepend_def vector_max_def del: calls_ok.simps buffer_run.simps)
qed

section \<open>Integers of every width\<close>

text \<open>
  The interface of the integer operations of one width: an encoding into a fixed number of
  bytes, and the four calls of the class written over it. What follows from the interface is
  proved once.
\<close>

locale buffer_integer =
  fixes width :: nat
    and enc :: "'a \<Rightarrow> byte list"
    and dec :: "byte list \<Rightarrow> 'a"
    and appendInt :: "'a \<Rightarrow> net_buffer \<Rightarrow> net_buffer result"
    and peekInt :: "net_buffer \<Rightarrow> 'a result"
    and readInt :: "net_buffer \<Rightarrow> ('a \<times> net_buffer) result"
    and prependInt :: "'a \<Rightarrow> net_buffer \<Rightarrow> net_buffer result"
  assumes enc_length: "length (enc x) = width"
    and dec_enc: "dec (enc x) = x"
    and appendInt_eq: "appendInt x b = Buffer_append (enc x) b"
    and prependInt_eq: "prependInt x b = Buffer_prepend (enc x) b"
    and peekInt_eq: "buf_inv b \<Longrightarrow> peekInt b =
      assert_then (width \<le> length (content b)) (Inr (dec (take width (content b))))"
    and readInt_eq: "readInt b =
      bindE (peekInt b) (\<lambda>x. bindE (Buffer_retrieve width b) (\<lambda>b'. Inr (x, b')))"
begin

lemma append_int:
  assumes "buf_inv b" and "writerIndex b + width \<le> vector_max"
  shows "\<exists>b'. appendInt x b = Inr b' \<and> buf_inv b' \<and> content b' = content b @ enc x"
  using Buffer_append_ok [of b "enc x"] assms by (auto simp: appendInt_eq enc_length)

lemma prepend_int:
  assumes "buf_inv b" and "width \<le> readerIndex b"
  shows "\<exists>b'. prependInt x b = Inr b' \<and> buf_inv b' \<and> content b' = enc x @ content b"
  using Buffer_prepend_ok [of b "enc x"] assms by (auto simp: prependInt_eq enc_length)

lemma read_int:
  assumes "buf_inv b" and "content b = enc x @ rest"
  shows "\<exists>b'. readInt b = Inr (x, b') \<and> buf_inv b' \<and> content b' = rest"
  using Buffer_retrieve_ok [of b width] assms
  by (auto simp: readInt_eq peekInt_eq enc_length dec_enc)

lemma read_int_short:
  assumes "buf_inv b" and "length (content b) < width"
  shows "readInt b = Inl AssertFail"
  using assms by (simp add: readInt_eq peekInt_eq assert_then_def)

lemma append_read_int:
  assumes "buf_inv b" and "content b = []" and "writerIndex b + width \<le> vector_max"
  shows "\<exists>b1 b2. appendInt x b = Inr b1 \<and> content b1 = enc x
    \<and> readInt b1 = Inr (x, b2) \<and> buf_inv b2 \<and> content b2 = []"
proof -
  obtain b1 where b1: "appendInt x b = Inr b1" "buf_inv b1" "content b1 = enc x"
    using append_int [OF assms(1,3), of x] assms(2) by auto
  then show ?thesis using read_int [of b1 x "[]"] by auto
qed

lemma prepend_read_int:
  assumes "buf_inv b" and "width \<le> readerIndex b"
  shows "\<exists>b1 b2. prependInt x b = Inr b1 \<and> readInt b1 = Inr (x, b2) \<and> buf_inv b2
    \<and> content b2 = content b"
proof -
  obtain b1 where b1: "prependInt x b = Inr b1" "buf_inv b1" "content b1 = enc x @ content b"
    using prepend_int [OF assms, of x] by auto
  then show ?thesis using read_int [of b1 x "content b"] by auto
qed

end

lemma memory_image_network:
  "memory_image ho (hostToNetwork64 ho x64) = be_bytes 8 (unat x64)"
  "memory_image ho (hostToNetwork32 ho x32) = be_bytes 4 (unat x32)"
  "memory_image ho (hostToNetwork16 ho x16) = be_bytes 2 (unat x16)"
  by (simp_all add: endian_defs memory_image_htobe)

lemma networkToHost_memory:
  "length bs = 8 \<Longrightarrow> networkToHost64 ho (memory_load ho bs) = of_nat (be_value bs)"
  "length bs = 4 \<Longrightarrow> networkToHost32 ho (memory_load ho bs) = of_nat (be_value bs)"
  "length bs = 2 \<Longrightarrow> networkToHost16 ho (memory_load ho bs) = of_nat (be_value bs)"
  by (simp_all add: endian_defs betoh_memory_load)

lemma peek_network:
  assumes "buf_inv b"
  shows "Buffer_peekInt64 ho b =
      assert_then (8 \<le> length (content b)) (Inr (of_nat (be_value (take 8 (content b)))))"
    and "Buffer_peekInt32 ho b =
      assert_then (4 \<le> length (content b)) (Inr (of_nat (be_value (take 4 (content b)))))"
    and "Buffer_peekInt16 ho b =
      assert_then (2 \<le> length (content b)) (Inr (of_nat (be_value (take 2 (content b)))))"
  using assms
  by (simp_all add: Buffer_peekInt64_def Buffer_peekInt32_def Buffer_peekInt16_def
      buf_inv_readable assert_then_def take_peek networkToHost_memory Let_def)

lemma peek_byte:
  assumes "buf_inv b"
  shows "Buffer_peekInt8 b =
      assert_then (1 \<le> length (content b)) (Inr (hd (take 1 (content b))))"
  using assms
  by (auto simp: Buffer_peekInt8_def buf_inv_readable assert_then_def Buffer_peek_def
      content_def segment_def hd_drop_conv_nth buf_inv_def hd_take)

interpretation int64: buffer_integer 8 "\<lambda>x. be_bytes 8 (unat (x :: 64 word))"
  "\<lambda>bs. of_nat (be_value bs)" "Buffer_appendInt64 ho" "Buffer_peekInt64 ho'"
  "Buffer_readInt64 ho'" "Buffer_prependInt64 ho" for ho ho'
  by unfold_locales
    (simp_all add: Buffer_appendInt64_def Buffer_prependInt64_def Buffer_readInt64_def
      Buffer_retrieveInt64_def memory_image_network peek_network of_be_value_be_bytes Let_def)

interpretation int32: buffer_integer 4 "\<lambda>x. be_bytes 4 (unat (x :: 32 word))"
  "\<lambda>bs. of_nat (be_value bs)" "Buffer_appendInt32 ho" "Buffer_peekInt32 ho'"
  "Buffer_readInt32 ho'" "Buffer_prependInt32 ho" for ho ho'
  by unfold_locales
    (simp_all add: Buffer_appendInt32_def Buffer_prependInt32_def Buffer_readInt32_def
      Buffer_retrieveInt32_def memory_image_network peek_network of_be_value_be_bytes Let_def)

interpretation int16: buffer_integer 2 "\<lambda>x. be_bytes 2 (unat (x :: 16 word))"
  "\<lambda>bs. of_nat (be_value bs)" "Buffer_appendInt16 ho" "Buffer_peekInt16 ho'"
  "Buffer_readInt16 ho'" "Buffer_prependInt16 ho" for ho ho'
  by unfold_locales
    (simp_all add: Buffer_appendInt16_def Buffer_prependInt16_def Buffer_readInt16_def
      Buffer_retrieveInt16_def memory_image_network peek_network of_be_value_be_bytes Let_def)

interpretation int8: buffer_integer 1 "\<lambda>x. [x]" hd Buffer_appendInt8 Buffer_peekInt8
  Buffer_readInt8 Buffer_prependInt8
  by unfold_locales
    (simp_all add: Buffer_appendInt8_def Buffer_prependInt8_def Buffer_readInt8_def
      Buffer_retrieveInt8_def peek_byte)

section \<open>Messages\<close>

text \<open>
  C20. A message of a 64-bit, a 32-bit, a 16-bit and an 8-bit integer appended on one host and
  read back on another, whatever the byte orders of the two, gives the same integers in the same
  order and leaves nothing behind; on the wire each integer is big-endian.
\<close>

theorem integers_roundtrip:
  assumes "buf_inv b" and "content b = []" and "writerIndex b + 15 \<le> vector_max"
  shows "\<exists>b1 b2 b3 b4 r1 r2 r3 r4.
      Buffer_appendInt64 ho x b = Inr b1 \<and> Buffer_appendInt32 ho y b1 = Inr b2
    \<and> Buffer_appendInt16 ho z b2 = Inr b3 \<and> Buffer_appendInt8 w b3 = Inr b4
    \<and> content b4 = be_bytes 8 (unat x) @ be_bytes 4 (unat y) @ be_bytes 2 (unat z) @ [w]
    \<and> Buffer_readInt64 ho' b4 = Inr (x, r1) \<and> Buffer_readInt32 ho' r1 = Inr (y, r2)
    \<and> Buffer_readInt16 ho' r2 = Inr (z, r3) \<and> Buffer_readInt8 r3 = Inr (w, r4)
    \<and> content r4 = []"
proof -
  let ?w = "\<lambda>b. writerIndex b"
  obtain b1 where b1: "Buffer_appendInt64 ho x b = Inr b1" "buf_inv b1"
      "content b1 = be_bytes 8 (unat x)" "?w b1 \<le> ?w b + 8"
    using Buffer_append_ok [OF assms(1), of "be_bytes 8 (unat x)"] assms
    by (auto simp: int64.appendInt_eq)
  obtain b2 where b2: "Buffer_appendInt32 ho y b1 = Inr b2" "buf_inv b2"
      "content b2 = be_bytes 8 (unat x) @ be_bytes 4 (unat y)" "?w b2 \<le> ?w b + 12"
    using Buffer_append_ok [OF b1(2), of "be_bytes 4 (unat y)"] assms(3) b1
    by (auto simp: int32.appendInt_eq)
  obtain b3 where b3: "Buffer_appendInt16 ho z b2 = Inr b3" "buf_inv b3"
      "content b3 = be_bytes 8 (unat x) @ be_bytes 4 (unat y) @ be_bytes 2 (unat z)"
      "?w b3 \<le> ?w b + 14"
    using Buffer_append_ok [OF b2(2), of "be_bytes 2 (unat z)"] assms(3) b2
    by (auto simp: int16.appendInt_eq)
  obtain b4 where b4: "Buffer_appendInt8 w b3 = Inr b4" "buf_inv b4"
      "content b4 = be_bytes 8 (unat x) @ be_bytes 4 (unat y) @ be_bytes 2 (unat z) @ [w]"
    using Buffer_append_ok [OF b3(2), of "[w]"] assms(3) b3
    by (auto simp: int8.appendInt_eq)
  obtain r1 where r1: "Buffer_readInt64 ho' b4 = Inr (x, r1)" "buf_inv r1"
      "content r1 = be_bytes 4 (unat y) @ be_bytes 2 (unat z) @ [w]"
    using int64.read_int [OF b4(2,3)] by blast
  obtain r2 where r2: "Buffer_readInt32 ho' r1 = Inr (y, r2)" "buf_inv r2"
      "content r2 = be_bytes 2 (unat z) @ [w]"
    using int32.read_int [OF r1(2,3)] by blast
  obtain r3 where r3: "Buffer_readInt16 ho' r2 = Inr (z, r3)" "buf_inv r3" "content r3 = [w]"
    using int16.read_int [OF r2(2,3)] by blast
  obtain r4 where r4: "Buffer_readInt8 r3 = Inr (w, r4)" "content r4 = []"
    using int8.read_int [of r3 w "[]"] r3 by auto
  show ?thesis using b1(1) b2(1) b3(1) b4(1,3) r1(1) r2(1) r3(1) r4 by blast
qed

lemma sample_buffer_inv: "buf_inv sample_buffer \<and> content sample_buffer = []"
  by (simp add: sample_buffer_def buf_inv_def content_def kCheapPrepend_def vector_max_def)

theorem integers_roundtrip_witness:
  "\<exists>b1 b2 b3 b4 r1 r2 r3 r4.
      Buffer_appendInt64 LittleEndian 1 sample_buffer = Inr b1
    \<and> Buffer_appendInt32 LittleEndian 2 b1 = Inr b2
    \<and> Buffer_appendInt16 LittleEndian 258 b2 = Inr b3 \<and> Buffer_appendInt8 4 b3 = Inr b4
    \<and> content b4 = [0, 0, 0, 0, 0, 0, 0, 1, 0, 0, 0, 2, 1, 2, 4]
    \<and> Buffer_readInt64 BigEndian b4 = Inr (1, r1) \<and> Buffer_readInt32 BigEndian r1 = Inr (2, r2)
    \<and> Buffer_readInt16 BigEndian r2 = Inr (258, r3) \<and> Buffer_readInt8 r3 = Inr (4, r4)
    \<and> content r4 = []"
proof -
  have bytes: "be_bytes 8 (unat (1 :: 64 word)) @ be_bytes 4 (unat (2 :: 32 word))
      @ be_bytes 2 (unat (258 :: 16 word)) @ [4] = [0, 0, 0, 0, 0, 0, 0, 1, 0, 0, 0, 2, 1, 2, 4]"
    by (simp add: be_bytes_def)
  show ?thesis
    using integers_roundtrip [of sample_buffer LittleEndian 1 2 258 4 BigEndian]
      sample_buffer_inv
    unfolding bytes by (simp add: sample_buffer_def vector_max_def)
qed

text \<open>
  Framing with a length header, the use the class names for prepend: the sender appends the
  payload and prepends its length as a 32-bit integer without moving the payload; a receiver that
  has the frame's bytes, followed by whatever else arrived, reads the length and then takes
  exactly the payload, and the bytes that follow stay in its buffer.
\<close>

theorem frame_roundtrip:
  assumes "buf_inv s" and "content s = []" and "4 \<le> readerIndex s"
    and "length payload \<le> length (buffer s) - writerIndex s"
    and "length payload < 2 ^ 32"
    and "buf_inv r" and "content r = frame @ rest"
    and "Buffer_append payload s = Inr s1"
    and "Buffer_prependInt32 ho (of_nat (length payload)) s1 = Inr s2"
    and "frame = content s2"
  shows "frame = be_bytes 4 (length payload) @ payload
    \<and> (\<exists>n r1 r2. Buffer_readInt32 ho' r = Inr (n, r1)
         \<and> Buffer_retrieveAsString (unat n) r1 = Inr (payload, r2) \<and> content r2 = rest)"
proof -
  let ?n = "of_nat (length payload) :: 32 word"
  have n: "unat ?n = length payload" using assms(5) by (simp add: unat_of_nat)
  have s1: "buf_inv s1" "content s1 = payload" "readerIndex s1 = readerIndex s"
    using Buffer_append_room [OF assms(1,4)] assms(2,8) by auto
  have frame: "frame = be_bytes 4 (length payload) @ payload"
    using int32.prepend_int [OF s1(1), of ho ?n] assms(3,9,10) s1 n by auto
  then have "content r = be_bytes 4 (unat ?n) @ (payload @ rest)" using assms(7) n by simp
  then obtain r1 where r1: "Buffer_readInt32 ho' r = Inr (?n, r1)" "buf_inv r1"
      "content r1 = payload @ rest"
    using int32.read_int [OF assms(6)] by blast
  obtain r2 where "Buffer_retrieveAsString (unat ?n) r1 = Inr (payload, r2)" "content r2 = rest"
    using Buffer_retrieveAsString_ok [OF r1(2), of "unat ?n"] r1(3) n by auto
  then show ?thesis using frame r1(1) by blast
qed

theorem frame_roundtrip_witness:
  "\<exists>n r1 r2. Buffer_readInt32 BigEndian
       \<lparr>buffer = [0, 0, 0, 0, 0, 0, 0, 0, 0, 0, 0, 2, 7, 9, 5], readerIndex = 8, writerIndex = 15\<rparr>
       = Inr (n, r1)
     \<and> Buffer_retrieveAsString (unat n) r1 = Inr ([7, 9], r2) \<and> content r2 = [5]"
proof -
  let ?r = "\<lparr>buffer = [0, 0, 0, 0, 0, 0, 0, 0, 0, 0, 0, 2, 7, 9, 5], readerIndex = 8,
             writerIndex = 15\<rparr>"
  let ?s1 = "\<lparr>buffer = [0, 0, 0, 0, 0, 0, 0, 0, 7, 9, 0, 0], readerIndex = 8, writerIndex = 10\<rparr>"
  let ?s2 = "\<lparr>buffer = [0, 0, 0, 0, 0, 0, 0, 2, 7, 9, 0, 0], readerIndex = 4, writerIndex = 10\<rparr>"
  have app: "Buffer_append [7, 9] sample_buffer = Inr ?s1"
    using sample_buffer_inv
    by (simp add: Buffer_append_room_eq sample_buffer_def overwrite_def)
  have pre: "Buffer_prependInt32 LittleEndian (of_nat (length [7, 9 :: byte])) ?s1 = Inr ?s2"
    by (simp add: int32.prependInt_eq be_bytes_def Buffer_prepend_def
        Buffer_prependableBytes_def size_sub_def size_mod_def overwrite_def)
  have inv: "buf_inv ?r" "buf_inv sample_buffer" "content sample_buffer = []"
    using sample_buffer_inv by (simp_all add: buf_inv_def kCheapPrepend_def vector_max_def)
  have con: "content ?r = content ?s2 @ [5]"
    by (simp add: content_def segment_def)
  show ?thesis
    using frame_roundtrip [OF inv(2,3) _ _ _ inv(1) con app pre refl, of BigEndian]
    by (simp add: sample_buffer_def)
qed

section \<open>Reading from a descriptor\<close>

text \<open>
  What readv promises: it never delivers more bytes than the io vectors hold together.
\<close>

definition readv_contract :: "(nat list \<Rightarrow> int + byte list) \<Rightarrow> bool" where
  "readv_contract readv \<longleftrightarrow> (\<forall>iov bytes. readv iov = Inr bytes \<longrightarrow> length bytes \<le> sum_list iov)"

lemma readFd_iov_total:
  "buf_inv b \<Longrightarrow> sum_list (readFd_iov b) =
     (if length (buffer b) - writerIndex b < extrabuf_size
      then length (buffer b) - writerIndex b + extrabuf_size
      else length (buffer b) - writerIndex b)"
  by (simp add: readFd_iov_def buf_inv_sizes Let_def)

lemma Buffer_readFd_fits:
  assumes inv: "buf_inv b" and rv: "readv (readFd_iov b) = Inr bytes"
    and short: "length bytes \<le> length (buffer b) - writerIndex b"
  shows "\<exists>b'. Buffer_readFd readv b = Inr (int (length bytes), None, b') \<and> buf_inv b'
    \<and> content b' = content b @ bytes \<and> writerIndex b' \<le> writerIndex b + length bytes"
proof -
  have "Buffer_readFd readv b = bindE (Buffer_append bytes b)
      (\<lambda>b'. Inr (int (length bytes), None, b'))"
    using rv short buf_inv_sizes(2,4) [OF inv] inv
    by (auto simp: Buffer_readFd_def Buffer_append_room_eq [OF inv short] Let_def size_add_exact
        buf_inv_def)
  then show ?thesis using Buffer_append_room [OF inv short] by auto
qed

lemma Buffer_readFd_spills:
  assumes inv: "buf_inv b" and rv: "readv (readFd_iov b) = Inr bytes"
    and long: "length (buffer b) - writerIndex b < length bytes"
    and fit: "writerIndex b + length bytes \<le> vector_max"
  shows "\<exists>b'. Buffer_readFd readv b = Inr (int (length bytes), None, b') \<and> buf_inv b'
    \<and> content b' = content b @ bytes \<and> writerIndex b' \<le> writerIndex b + length bytes"
proof -
  let ?w = "length (buffer b) - writerIndex b"
  have room: "length (take ?w bytes) \<le> ?w" by simp
  have full: "writerIndex b + ?w = length (buffer b)" using inv by (simp add: buf_inv_def)
  obtain b1 where b1: "Buffer_append (take ?w bytes) b = Inr b1" "buf_inv b1"
      "content b1 = content b @ take ?w bytes" "writerIndex b1 = length (buffer b)"
    using Buffer_append_room [OF inv room] long full by (auto simp: min_def)
  have eq: "b1 = b\<lparr>buffer := overwrite (writerIndex b) (take ?w bytes) (buffer b),
                    writerIndex := length (buffer b)\<rparr>"
    using b1(1) Buffer_append_room_eq [OF inv room] long full by (simp add: min_def)
  have "length (overwrite (writerIndex b) (take ?w bytes) (buffer b)) = length (buffer b)"
    using full by simp
  then have "Buffer_readFd readv b = bindE (Buffer_append (drop ?w bytes) b1)
      (\<lambda>b2. Inr (int (length bytes), None, b2))"
    using rv long buf_inv_sizes(2) [OF inv] by (simp add: Buffer_readFd_def Let_def eq)
  moreover have "writerIndex b1 + length (drop ?w bytes) \<le> vector_max"
    using fit long full b1(4) by simp
  ultimately show ?thesis
    using Buffer_append_ok [OF b1(2), of "drop ?w bytes"] b1(3,4) long full by fastforce
qed

lemma Buffer_readFd_ok:
  assumes "buf_inv b" and "readv (readFd_iov b) = Inr bytes" and "writerIndex b + length bytes \<le> vector_max"
  shows "\<exists>b'. Buffer_readFd readv b = Inr (int (length bytes), None, b') \<and> buf_inv b' \<and> content b' = content b @ bytes
    \<and> writerIndex b' \<le> writerIndex b + length bytes"
  using Buffer_readFd_fits [of b readv bytes] Buffer_readFd_spills [of b readv bytes] assms by (meson not_le)

text \<open>
  C28. readFd appends to the readable bytes exactly the bytes the kernel delivered, whether they
  fit the space behind the write index or spill into the stack buffer, and returns their number;
  when readv fails the buffer is untouched and the error is handed on. With less than 64 KiB of
  space one call takes at most 128 KiB less one byte, as the comment in Buffer.cc says.
\<close>

theorem readFd_appends:
  assumes "buf_inv b" and "readv_contract readv"
    and "writerIndex b + sum_list (readFd_iov b) \<le> vector_max"
  shows "case readv (readFd_iov b) of
           Inl err \<Rightarrow> Buffer_readFd readv b = Inr (-1, Some err, b)
         | Inr bytes \<Rightarrow>
             (\<exists>b'. Buffer_readFd readv b = Inr (int (length bytes), None, b') \<and> buf_inv b'
                \<and> content b' = content b @ bytes)
             \<and> (Buffer_writableBytes b < extrabuf_size \<longrightarrow> length bytes \<le> 128 * 1024 - 1)"
proof (cases "readv (readFd_iov b)")
  case (Inl err)
  then show ?thesis by (simp add: Buffer_readFd_def Let_def)
next
  case (Inr bytes)
  have len: "length bytes \<le> sum_list (readFd_iov b)"
    using assms(2) Inr by (auto simp: readv_contract_def)
  then have fit: "writerIndex b + length bytes \<le> vector_max" using assms(3) by linarith
  have "\<exists>b'. Buffer_readFd readv b = Inr (int (length bytes), None, b') \<and> buf_inv b'
      \<and> content b' = content b @ bytes"
    using Buffer_readFd_ok [of b readv bytes, OF assms(1) Inr fit] by blast
  moreover have "Buffer_writableBytes b < extrabuf_size \<longrightarrow> length bytes \<le> 128 * 1024 - 1"
    using len by (auto simp: readFd_iov_total [OF assms(1)] buf_inv_sizes(2) [OF assms(1)]
        extrabuf_size_def)
  ultimately show ?thesis using Inr by simp
qed

text \<open>A kernel that has six bytes waiting and delivers as many of them as fit.\<close>

definition sample_readv :: "nat list \<Rightarrow> int + byte list" where
  "sample_readv iov = Inr (take (sum_list iov) [1, 2, 3, 4, 5, 6])"

theorem readFd_appends_witness:
  "\<exists>b'. Buffer_readFd sample_readv sample_buffer = Inr (6, None, b') \<and> buf_inv b'
     \<and> content b' = [1, 2, 3, 4, 5, 6]"
proof -
  have contract: "readv_contract sample_readv"
    by (auto simp: readv_contract_def sample_readv_def)
  have iov: "sum_list (readFd_iov sample_buffer) = 65540"
    using sample_buffer_inv by (simp add: readFd_iov_total sample_buffer_def extrabuf_size_def)
  have "sample_readv (readFd_iov sample_buffer) = Inr [1, 2, 3, 4, 5, 6]"
    by (simp add: sample_readv_def iov)
  moreover have "writerIndex sample_buffer + sum_list (readFd_iov sample_buffer) \<le> vector_max"
    unfolding iov by (simp add: sample_buffer_def vector_max_def)
  ultimately show ?thesis
    using readFd_appends [OF _ contract, of sample_buffer] sample_buffer_inv by auto
qed

section \<open>Shrinking\<close>

text \<open>
  shrink keeps the readable bytes and leaves the room that was asked for behind them, given
  that the string piece it copies from covers the readable bytes.
\<close>

theorem shrink_keeps_content:
  assumes "buf_inv b" and "toStringPiece b = content b"
    and "kCheapPrepend + length (content b) + reserve \<le> vector_max"
  shows "\<exists>b'. Buffer_shrink toStringPiece reserve b = Inr b' \<and> buf_inv b'
    \<and> content b' = content b \<and> reserve \<le> Buffer_writableBytes b'
    \<and> readerIndex b' = kCheapPrepend"
proof -
  let ?n = "length (content b) + reserve"
  have "kCheapPrepend + kInitialSize \<le> vector_max"
    by (simp add: kCheapPrepend_def kInitialSize_def vector_max_def)
  then obtain o0 where o0: "Buffer_new kInitialSize = Inr o0" "buf_inv o0" "content o0 = []"
      "readerIndex o0 = kCheapPrepend" "writerIndex o0 = kCheapPrepend"
    using Buffer_new_ok [of kInitialSize] by auto
  have sz: "size_add (Buffer_readableBytes b) reserve = ?n"
    using assms(3) vector_max_less_size_mod buf_inv_readable [OF assms(1)]
    by (simp add: size_add_exact)
  have fit: "writerIndex o0 + ?n \<le> vector_max" using o0(5) assms(3) by simp
  obtain o1 where o1: "Buffer_ensureWritableBytes ?n o0 = Inr o1" "buf_inv o1" "content o1 = []"
      "?n \<le> length (buffer o1) - writerIndex o1" "writerIndex o1 \<le> kCheapPrepend"
    using Buffer_ensureWritableBytes_ok [OF o0(2) fit] o0(3,5) by auto
  have front: "readerIndex o1 = kCheapPrepend"
    using o1(1,2) o0(2,4,5) Buffer_makeSpace_grow [OF o0(2) _ fit]
      Buffer_makeSpace_move [OF o0(2), of ?n] assms(3)
    by (auto simp: Buffer_ensureWritableBytes_def buf_inv_sizes(2) assert_then_def
        split: if_splits)
  have room: "length (content b) \<le> length (buffer o1) - writerIndex o1" using o1(4) by simp
  obtain o2 where o2: "Buffer_append (content b) o1 = Inr o2" "buf_inv o2" "content o2 = content b"
      "length (buffer o2) = length (buffer o1)"
      "writerIndex o2 = writerIndex o1 + length (content b)" "readerIndex o2 = readerIndex o1"
    using Buffer_append_room [OF o1(2) room] o1(3) by auto
  have "Buffer_shrink toStringPiece reserve b = Inr o2"
    using o0(1) o1(1) o2(1) sz assms(2) by (simp add: Buffer_shrink_def Buffer_swap_def)
  moreover have "reserve \<le> Buffer_writableBytes o2"
    using o1(4) o2(2,4,5) by (simp add: buf_inv_sizes(2))
  ultimately show ?thesis using o2(2,3,6) front by auto
qed

theorem shrink_keeps_content_witness:
  "\<exists>b'. Buffer_shrink content 5
        \<lparr>buffer = [0, 0, 0, 0, 0, 0, 0, 0, 1, 2, 3], readerIndex = 9, writerIndex = 11\<rparr> = Inr b'
     \<and> buf_inv b' \<and> content b' = [2, 3] \<and> 5 \<le> Buffer_writableBytes b'
     \<and> readerIndex b' = kCheapPrepend"
  using shrink_keeps_content [of "\<lparr>buffer = [0, 0, 0, 0, 0, 0, 0, 0, 1, 2, 3], readerIndex = 9,
      writerIndex = 11\<rparr>" content 5]
  by (simp add: buf_inv_def content_def segment_def kCheapPrepend_def vector_max_def)

section \<open>Searching\<close>

lemma Buffer_search_content:
  "buf_inv b \<Longrightarrow> Buffer_search pat (Buffer_peek b) b = readerIndex b + std_search pat (content b)"
  by (simp add: Buffer_search_def Buffer_peek_def Buffer_beginWrite_def content_def)

text \<open>
  findCRLF returns null exactly when the readable bytes hold no CR LF pair, and otherwise the
  position of the first one, inside the readable bytes together with its second byte; a caller
  that takes the bytes before it gets the first line, and the pair is next in the buffer.
\<close>

theorem findCRLF_first_line:
  assumes "buf_inv b"
  shows "case Buffer_findCRLF b of
           None \<Rightarrow> \<forall>i. \<not> occurs_at kCRLF i (content b)
         | Some p \<Rightarrow> Buffer_peek b \<le> p \<and> p + 2 \<le> Buffer_beginWrite b
             \<and> (\<forall>i < p - Buffer_peek b. \<not> occurs_at kCRLF i (content b))
             \<and> (\<exists>line rest b'. content b = line @ kCRLF @ rest
                  \<and> Buffer_retrieveAsString (p - Buffer_peek b) b = Inr (line, b')
                  \<and> content b' = kCRLF @ rest)"
proof -
  let ?i = "std_search kCRLF (content b)"
  have len: "length (content b) = writerIndex b - readerIndex b" "readerIndex b \<le> writerIndex b"
    using buf_inv_sizes(3) [OF assms] assms by (simp_all add: buf_inv_def)
  have le: "?i \<le> length (content b)" by (rule std_search_le)
  show ?thesis
  proof (cases "?i = length (content b)")
    case True
    then have "Buffer_findCRLF b = None"
      using len by (simp add: Buffer_findCRLF_def Buffer_search_content [OF assms]
          Buffer_beginWrite_def Let_def)
    then show ?thesis using std_search_not_found [OF True] by (simp add: kCRLF_def)
  next
    case False
    then have occ: "occurs_at kCRLF ?i (content b)" using le by (intro std_search_found) simp
    have find: "Buffer_findCRLF b = Some (readerIndex b + ?i)"
      using False len by (auto simp: Buffer_findCRLF_def Buffer_search_content [OF assms]
          Buffer_beginWrite_def Let_def)
    let ?line = "take ?i (content b)" and ?rest = "drop (?i + 2) (content b)"
    have dec: "drop ?i (content b) = kCRLF @ ?rest"
      using occurs_at_drop [OF occ] by (simp add: kCRLF_def)
    then have "content b = ?line @ kCRLF @ ?rest" by (metis append_take_drop_id)
    moreover obtain b' where "Buffer_retrieveAsString ?i b = Inr (?line, b')"
        "content b' = drop ?i (content b)"
      using Buffer_retrieveAsString_ok [OF assms le] by blast
    moreover have "?i + 2 \<le> length (content b)" using occ by (simp add: occurs_at_def kCRLF_def)
    ultimately show ?thesis
      using find dec len std_search_first [of _ kCRLF "content b"]
      by (auto simp: Buffer_peek_def Buffer_beginWrite_def)
  qed
qed

theorem findCRLF_first_line_witness:
  "(let b = \<lparr>buffer = [0, 0, 0, 0, 0, 0, 0, 0, 71, 13, 10, 72], readerIndex = 8,
             writerIndex = 12\<rparr>
    in Buffer_findCRLF b = Some 9
       \<and> (\<exists>line rest b'. content b = line @ kCRLF @ rest
            \<and> Buffer_retrieveAsString 1 b = Inr (line, b') \<and> content b' = kCRLF @ rest))"
proof -
  let ?b = "\<lparr>buffer = [0, 0, 0, 0, 0, 0, 0, 0, 71, 13, 10, 72], readerIndex = 8,
             writerIndex = 12\<rparr>"
  have inv: "buf_inv ?b" by (simp add: buf_inv_def kCheapPrepend_def vector_max_def)
  have find: "Buffer_findCRLF ?b = Some 9"
    by (simp add: Buffer_findCRLF_def Buffer_search_def Buffer_peek_def Buffer_beginWrite_def
        segment_def kCRLF_def)
  have "Buffer_peek ?b = 8" by (simp add: Buffer_peek_def)
  then show ?thesis using findCRLF_first_line [OF inv] find by simp
qed

section \<open>The unchecked addition in makeSpace\<close>

text \<open>
  C40. makeSpace adds the requested length to the write index without an overflow check. For a
  request just below the top of size\_t the sum wraps, the vector is cut instead of grown, the
  assertion that follows holds only because its subtraction wraps too, and
  ensureWritableBytes returns a buffer whose write index lies beyond its vector.
\<close>

theorem ensureWritableBytes_wraps:
  assumes "buf_inv b" and "kCheapPrepend < k" and "k \<le> writerIndex b"
  shows "\<exists>b'. Buffer_ensureWritableBytes (size_mod - k) b = Inr b'
    \<and> length (buffer b') < writerIndex b' \<and> \<not> buf_inv b'"
proof -
  let ?len = "size_mod - k" and ?b' = "b\<lparr>buffer := take (writerIndex b - k) (buffer b)\<rparr>"
  have w: "writerIndex b \<le> length (buffer b)" "length (buffer b) \<le> vector_max"
      "readerIndex b \<le> writerIndex b"
    using assms(1) by (auto simp: buf_inv_def)
  have big: "2 * vector_max < size_mod" by (simp add: vector_max_def size_mod_def)
  have a1: "size_add (Buffer_writableBytes b) (readerIndex b)
      = length (buffer b) - writerIndex b + readerIndex b"
    using w big unfolding buf_inv_sizes(2) [OF assms(1)] by (intro size_add_exact) linarith
  have a2: "size_add ?len kCheapPrepend = ?len + kCheapPrepend"
    using assms(2,3) w big by (intro size_add_exact) linarith
  have sum: "writerIndex b + ?len = (writerIndex b - k) + size_mod"
    using assms(3) w big by linarith
  have "(writerIndex b - k) mod size_mod = writerIndex b - k"
    using w big by simp
  then have a3: "size_add (writerIndex b) ?len = writerIndex b - k"
    unfolding size_add_def sum by (simp only: mod_add_self2)
  have space: "Buffer_makeSpace ?len b = Inr ?b'"
    using a1 a2 a3 w big assms(2,3)
    by (auto simp: Buffer_makeSpace_def Buffer_prependableBytes_def vector_resize_def)
  have cut: "length (take (writerIndex b - k) (buffer b)) = writerIndex b - k" using w by simp
  have "(writerIndex b - k) + size_mod - writerIndex b = ?len" using assms(3) w big by linarith
  then have wr: "Buffer_writableBytes ?b' = ?len"
    using cut assms(2,3) w big by (simp add: Buffer_writableBytes_def size_sub_def)
  have "Buffer_ensureWritableBytes ?len b = Inr ?b'"
    using space wr w big assms(3)
    by (auto simp: Buffer_ensureWritableBytes_def buf_inv_sizes(2) [OF assms(1)])
  then show ?thesis using cut assms(2,3) by (auto simp: buf_inv_def)
qed

theorem ensureWritableBytes_wraps_witness:
  "\<exists>b'. Buffer_ensureWritableBytes (size_mod - 9)
        \<lparr>buffer = [0, 0, 0, 0, 0, 0, 0, 0, 1], readerIndex = 8, writerIndex = 9\<rparr> = Inr b'
    \<and> length (buffer b') < writerIndex b' \<and> \<not> buf_inv b'"
  by (rule ensureWritableBytes_wraps)
     (simp_all add: buf_inv_def kCheapPrepend_def vector_max_def)

end
