(* ===== verification/Frames.thy ===== *)
theory Frames
  imports BufferContract
begin

text \<open>
  Buffers at the two ends of a connection. A sender puts the length of a message in front of it, which is what
  the reserved bytes of the class are for (prepend in Buffer.h); the receiver appends whatever readFd gets
  from the socket and takes the messages that are complete. The socket is a stream: it may deliver any
  number of bytes at a time, or an error, but keeps their order.
\<close>

section \<open>The two ends\<close>

definition send_frame :: "byte_order \<Rightarrow> byte list \<Rightarrow> byte list result" where
  "send_frame ho payload =
     bindE (Buffer_new kInitialSize) (\<lambda>b.
     bindE (Buffer_append payload b) (\<lambda>b.
     bindE (Buffer_prependInt32 ho (of_nat (length payload)) b) (\<lambda>b.
     bindE (Buffer_retrieveAllAsString b) (\<lambda>(bytes, b). Inr bytes))))"

primrec send_frames :: "byte_order \<Rightarrow> byte list list \<Rightarrow> byte list result" where
  "send_frames ho [] = Inr []"
| "send_frames ho (m # ms) =
     bindE (send_frame ho m) (\<lambda>bytes. bindE (send_frames ho ms) (\<lambda>rest. Inr (bytes @ rest)))"

text \<open>The complete messages of a buffer; every round takes at least four bytes.\<close>

primrec take_frames :: "byte_order \<Rightarrow> nat \<Rightarrow> net_buffer \<Rightarrow> (byte list list \<times> net_buffer) result" where
  "take_frames ho 0 b = Inr ([], b)"
| "take_frames ho (Suc n) b =
     (if Buffer_readableBytes b < 4 then Inr ([], b)
      else
        bindE (Buffer_peekInt32 ho b) (\<lambda>len.
          if Buffer_readableBytes b < 4 + unat len then Inr ([], b)
          else
            bindE (Buffer_readInt32 ho b) (\<lambda>(len, b).
            bindE (Buffer_retrieveAsString (unat len) b) (\<lambda>(m, b).
            bindE (take_frames ho n b) (\<lambda>(ms, b). Inr (m # ms, b))))))"

text \<open>readv on a socket: an error, or at most n of the bytes that are under way.\<close>

definition stream_readv :: "int + nat \<Rightarrow> byte list \<Rightarrow> nat list \<Rightarrow> int + byte list" where
  "stream_readv avail wire iov =
     (case avail of Inl errno \<Rightarrow> Inl errno | Inr n \<Rightarrow> Inr (take (min n (sum_list iov)) wire))"

primrec receive ::
  "byte_order \<Rightarrow> (int + nat) list \<Rightarrow> byte list \<Rightarrow> net_buffer \<Rightarrow> (byte list list \<times> byte list \<times> net_buffer) result" where
  "receive ho [] wire b = Inr ([], wire, b)"
| "receive ho (avail # rest) wire b =
     bindE (Buffer_readFd (stream_readv avail wire) b) (\<lambda>(n, _, b).
     bindE (take_frames ho (Buffer_readableBytes b) b) (\<lambda>(ms, b).
     bindE (receive ho rest (drop (nat n) wire) b) (\<lambda>(ms', wire, b). Inr (ms @ ms', wire, b))))"

section \<open>Frames on the wire\<close>

definition frame :: "byte list \<Rightarrow> byte list" where
  "frame m = be_bytes 4 (length m) @ m"

definition frames :: "byte list list \<Rightarrow> byte list" where
  "frames ms = concat (map frame ms)"

lemma frames_simps [simp]: "frames [] = []" "frames (m # ms) = be_bytes 4 (length m) @ m @ frames ms"
  by (simp_all add: frames_def frame_def)

lemma be_bytes_length: "length (be_bytes 4 n) = 4"
  by (simp add: be_bytes_def)

lemma send_frame_ok:
  assumes "length m < 2 ^ 32"
  shows "send_frame ho m = Inr (frame m)"
proof -
  have n: "unat (of_nat (length m) :: 32 word) = length m" using assms by (simp add: unat_of_nat)
  obtain b0 where b0: "Buffer_new kInitialSize = Inr b0" "buf_inv b0" "content b0 = []" "readerIndex b0 = kCheapPrepend"
      "writerIndex b0 = kCheapPrepend"
    using Buffer_new_ok [of kInitialSize] by (auto simp: kCheapPrepend_def kInitialSize_def vector_max_def)
  have "writerIndex b0 + length m \<le> vector_max" using assms b0(5) by (simp add: kCheapPrepend_def vector_max_def)
  then obtain b1 where b1: "Buffer_append m b0 = Inr b1" "buf_inv b1" "content b1 = m"
    using Buffer_append_ok [OF b0(2), of m] b0(3) by auto
  have "kCheapPrepend = readerIndex b1" using Buffer_append_front [OF b1(1)] b0(4) by simp
  then obtain b2 where b2: "Buffer_prependInt32 ho (of_nat (length m)) b1 = Inr b2" "buf_inv b2"
      "content b2 = be_bytes 4 (length m) @ m"
    using int32.prepend_int [OF b1(2), of ho "of_nat (length m)"] b1(3) n by (auto simp: kCheapPrepend_def)
  then show ?thesis using b0(1) b1(1) Buffer_retrieveAsString_ok [OF b2(2), of "length (content b2)"]
    by (auto simp: send_frame_def frame_def Buffer_retrieveAllAsString_def buf_inv_readable)
qed

lemma send_frames_ok:
  "list_all (\<lambda>m. length m < 2 ^ 32) ms \<Longrightarrow> send_frames ho ms = Inr (frames ms)"
  by (induction ms) (simp_all add: send_frame_ok frame_def)

section \<open>Taking the messages\<close>

text \<open>What is in the buffer and on the wire is the rest of the frames; the next one is not complete.\<close>

definition waiting :: "byte list list \<Rightarrow> byte list \<Rightarrow> net_buffer \<Rightarrow> bool" where
  "waiting ms wire b \<longleftrightarrow> buf_inv b \<and> content b @ wire = frames ms
     \<and> (case ms of [] \<Rightarrow> True | m # _ \<Rightarrow> length (content b) < length (frame m))"

lemma read_int32_writer:
  assumes "buf_inv b" and "content b = be_bytes 4 (unat x) @ rest"
  shows "\<exists>b'. Buffer_readInt32 ho b = Inr (x, b') \<and> buf_inv b' \<and> content b' = rest
    \<and> writerIndex b' \<le> max kCheapPrepend (writerIndex b)"
  using Buffer_retrieve_ok [of b 4] peek_network(2) [OF assms(1), of ho] int32.dec_enc [of x] assms
  by (auto simp: Buffer_readInt32_def Buffer_retrieveInt32_def be_bytes_length assert_then_def)

lemma retrieve_string_writer:
  assumes "buf_inv b" and "len \<le> length (content b)"
  shows "\<exists>b'. Buffer_retrieveAsString len b = Inr (take len (content b), b') \<and> buf_inv b' \<and> content b' = drop len (content b)
    \<and> writerIndex b' \<le> max kCheapPrepend (writerIndex b)"
  using Buffer_retrieve_ok [OF assms] assms
  by (auto simp: Buffer_retrieveAsString_def buf_inv_readable assert_then_def take_peek)

lemma frame_front:
  assumes "content b @ wire = be_bytes 4 (length m) @ m @ rest" and "4 + length m \<le> length (content b)"
  shows "\<exists>c. content b = be_bytes 4 (length m) @ m @ c \<and> c @ wire = rest"
proof -
  have "be_bytes 4 (length m) @ m = take (4 + length m) (content b)"
    using arg_cong [OF assms(1), of "take (4 + length m)"] assms(2) by (simp add: be_bytes_length)
  then obtain c where c: "content b = (be_bytes 4 (length m) @ m) @ c" by (metis append_take_drop_id)
  then show ?thesis using assms(1) by simp
qed

lemma take_frames_spec:
  "buf_inv b \<Longrightarrow> content b @ wire = frames ms \<Longrightarrow> list_all (\<lambda>m. length m < 2 ^ 32) ms \<Longrightarrow> length (content b) \<le> n \<Longrightarrow>
    \<exists>k b'. take_frames ho n b = Inr (take k ms, b') \<and> waiting (drop k ms) wire b'
      \<and> writerIndex b' \<le> max kCheapPrepend (writerIndex b)"
proof (induction n arbitrary: b ms)
  case 0
  then show ?case by (intro exI [of _ 0] exI [of _ b]) (auto simp: waiting_def frame_def be_bytes_length split: list.split)
next
  case (Suc n)
  have stay: ?case if "take_frames ho (Suc n) b = Inr ([], b)" "\<And>m ms'. ms = m # ms' \<Longrightarrow> length (content b) < 4 + length m"
    using that Suc.prems by (intro exI [of _ 0] exI [of _ b])
      (auto simp: waiting_def frame_def be_bytes_length split: list.split)
  note readable = buf_inv_readable [OF Suc.prems(1)]
  show ?case
  proof (cases "length (content b) < 4")
    case True
    then show ?thesis by (intro stay) (simp_all add: readable)
  next
    case False
    then obtain m ms' where ms: "ms = m # ms'" using Suc.prems(2) by (cases ms) auto
    have len: "unat (of_nat (length m) :: 32 word) = length m" using Suc.prems(3) ms by (simp add: unat_of_nat)
    have front: "content b @ wire = be_bytes 4 (length m) @ m @ frames ms'" using Suc.prems(2) ms by simp
    have "take 4 (content b) = be_bytes 4 (length m)"
      using arg_cong [OF front, of "take 4"] False by (simp add: be_bytes_length)
    then have peek: "Buffer_peekInt32 ho b = Inr (of_nat (length m))"
      using peek_network(2) [OF Suc.prems(1), of ho] False int32.dec_enc [of "of_nat (length m)"] len
      by (simp add: assert_then_def)
    show ?thesis
    proof (cases "length (content b) < 4 + length m")
      case True
      then show ?thesis using False ms by (intro stay) (simp_all add: readable peek len)
    next
      case whole: False
      then obtain c where c: "content b = be_bytes 4 (length m) @ m @ c" "c @ wire = frames ms'"
        using frame_front [OF front] by auto
      obtain b1 where b1: "Buffer_readInt32 ho b = Inr (of_nat (length m), b1)" "buf_inv b1" "content b1 = m @ c"
          "writerIndex b1 \<le> max kCheapPrepend (writerIndex b)"
        using read_int32_writer [OF Suc.prems(1), of "of_nat (length m)" "m @ c" ho] c(1) len by auto
      obtain b2 where b2: "Buffer_retrieveAsString (length m) b1 = Inr (m, b2)" "buf_inv b2" "content b2 = c"
          "writerIndex b2 \<le> max kCheapPrepend (writerIndex b1)"
        using retrieve_string_writer [OF b1(2), of "length m"] b1(3) by auto
      have "length c \<le> n" using Suc.prems(4) c(1) by (simp add: be_bytes_length)
      then obtain k b' where b': "take_frames ho n b2 = Inr (take k ms', b')" "waiting (drop k ms') wire b'"
          "writerIndex b' \<le> max kCheapPrepend (writerIndex b2)"
        using Suc.IH [OF b2(2), of ms'] b2(3) c(2) Suc.prems(3) ms by auto
      have "take_frames ho (Suc n) b = Inr (m # take k ms', b')"
        using False whole by (simp add: readable peek len b1(1) b2(1) b'(1))
      then show ?thesis using b'(2,3) b1(4) b2(4) ms by (intro exI [of _ "Suc k"] exI [of _ b']) auto
    qed
  qed
qed

section \<open>Receiving\<close>

lemma waiting_drained: "waiting ms [] b \<Longrightarrow> list_all (\<lambda>m. length m < 2 ^ 32) ms \<Longrightarrow> ms = [] \<and> content b = []"
  by (cases ms) (auto simp: waiting_def frame_def be_bytes_length dest: arg_cong [where f = length])

lemma receive_spec:
  "waiting ms wire b \<Longrightarrow> list_all (\<lambda>m. length m < 2 ^ 32) ms \<Longrightarrow> max kCheapPrepend (writerIndex b) + length wire \<le> vector_max \<Longrightarrow>
    \<exists>k wire' b'. receive ho avails wire b = Inr (take k ms, wire', b') \<and> waiting (drop k ms) wire' b' \<and> length wire' \<le> length wire"
proof (induction avails arbitrary: ms wire b)
  case Nil
  then show ?case by (intro exI [of _ 0]) simp
next
  case (Cons avail avails)
  have inv: "buf_inv b" "content b @ wire = frames ms" using Cons.prems(1) by (simp_all add: waiting_def)
  define got where "got = (case avail of Inl _ \<Rightarrow> [] | Inr n \<Rightarrow> take (min n (sum_list (readFd_iov b))) wire)"
  define left where "left = drop (length got) wire"
  have split: "got @ left = wire" by (cases avail) (auto simp: got_def left_def min_def)
  have size: "writerIndex b + length got \<le> vector_max"
    using Cons.prems(3) split by (metis add_le_mono1 le_add1 length_append max.cobounded2 order_trans add.assoc add_left_mono)
  obtain n e b1 where b1: "Buffer_readFd (stream_readv avail wire) b = Inr (n, e, b1)" "drop (nat n) wire = left"
      "buf_inv b1" "content b1 = content b @ got" "writerIndex b1 \<le> writerIndex b + length got"
  proof (cases avail)
    case (Inl errno)
    then show thesis using that [of "- 1" "Some errno" b] inv(1)
      by (simp add: Buffer_readFd_def stream_readv_def got_def left_def Let_def)
  next
    case (Inr m)
    have "stream_readv avail wire (readFd_iov b) = Inr got" using Inr by (simp add: stream_readv_def got_def)
    from Buffer_readFd_ok [of b "stream_readv avail wire" got, OF inv(1) this size] show thesis
      using that [of "int (length got)" None] by (auto simp: left_def)
  qed
  have "content b1 @ left = frames ms" using inv(2) b1(4) split by simp
  then obtain k b2 where b2: "take_frames ho (Buffer_readableBytes b1) b1 = Inr (take k ms, b2)" "waiting (drop k ms) left b2"
      "writerIndex b2 \<le> max kCheapPrepend (writerIndex b1)"
    using take_frames_spec [OF b1(3) _ Cons.prems(2)] buf_inv_readable [OF b1(3)] by (metis order_refl)
  have "max kCheapPrepend (writerIndex b2) + length left \<le> vector_max"
    using b2(3) b1(5) Cons.prems(3) arg_cong [OF split, of length] by (simp add: max_def split: if_splits)
  moreover have "list_all (\<lambda>m. length m < 2 ^ 32) (drop k ms)" using Cons.prems(2) by (auto simp: list_all_iff dest: in_set_dropD)
  ultimately obtain k' wire' b' where r: "receive ho avails left b2 = Inr (take k' (drop k ms), wire', b')"
      "waiting (drop k' (drop k ms)) wire' b'" "length wire' \<le> length left"
    using Cons.IH [OF b2(2)] by blast
  have "receive ho (avail # avails) wire b = Inr (take k ms @ take k' (drop k ms), wire', b')"
    by (simp add: b1(1,2) b2(1) r(1))
  moreover have "take k ms @ take k' (drop k ms) = take (k + k') ms" by (simp add: take_add)
  moreover have "waiting (drop (k + k') ms) wire' b'" using r(2) by (simp add: add.commute)
  moreover have "length wire' \<le> length wire" using r(3) by (simp add: left_def)
  ultimately show ?case by (metis)
qed

text \<open>
  C3. Length-prefixed messages survive any fragmentation. What the sender builds with append, prependInt32 and
  retrieveAllAsString, on a host of either byte order, arrives on a host of either byte order through any sequence
  of readFd calls: whatever number of bytes each call finds and whichever calls fail, no assertion fails, the
  messages taken so far are the first ones, unchanged and in order, and the next one is not yet complete in the
  buffer; once the socket is drained all have been taken and the buffer is empty.
\<close>

theorem frames_survive_fragmentation:
  assumes "list_all (\<lambda>m. length m < 2 ^ 32) ms" and "Buffer_new kInitialSize = Inr b"
    and "8 + sum_list (map (\<lambda>m. 4 + length m) ms) \<le> vector_max"
  shows "\<exists>wire. send_frames ho ms = Inr wire
    \<and> (\<exists>k wire' b'. receive ho' avails wire b = Inr (take k ms, wire', b')
        \<and> content b' @ wire' = frames (drop k ms)
        \<and> (k < length ms \<longrightarrow> length (content b') < 4 + length (ms ! k))
        \<and> (wire' = [] \<longrightarrow> take k ms = ms \<and> content b' = []))"
proof -
  have new: "buf_inv b" "content b = []" "writerIndex b = kCheapPrepend"
    using Buffer_new_ok [of kInitialSize] assms(2) by (auto simp: kCheapPrepend_def kInitialSize_def vector_max_def)
  have "length (frames ms) = sum_list (map (\<lambda>m. 4 + length m) ms)" by (induction ms) (simp_all add: be_bytes_length)
  then have "max kCheapPrepend (writerIndex b) + length (frames ms) \<le> vector_max" using assms(3) new(3) by (simp add: kCheapPrepend_def)
  moreover have "waiting ms (frames ms) b" using new(1,2) by (auto simp: waiting_def frame_def be_bytes_length split: list.split)
  ultimately obtain k wire' b' where r: "receive ho' avails (frames ms) b = Inr (take k ms, wire', b')"
      "waiting (drop k ms) wire' b'"
    using receive_spec [OF _ assms(1)] by blast
  have "k < length ms \<longrightarrow> length (content b') < 4 + length (ms ! k)"
    using r(2) by (auto simp: waiting_def frame_def be_bytes_length Cons_nth_drop_Suc [symmetric])
  moreover have "take k ms = ms \<and> content b' = []" if "wire' = []"
  proof -
    have "list_all (\<lambda>m. length m < 2 ^ 32) (drop k ms)" using assms(1) by (auto simp: list_all_iff dest: in_set_dropD)
    then show ?thesis using waiting_drained [of "drop k ms" b'] r(2) that by simp
  qed
  moreover have "content b' @ wire' = frames (drop k ms)" using r(2) by (simp add: waiting_def)
  ultimately show ?thesis using send_frames_ok [OF assms(1), of ho] r(1) by blast
qed

lemma frames_survive_fragmentation_witness:
  "\<exists>b wire. Buffer_new kInitialSize = Inr b \<and> send_frames LittleEndian [[1, 2], [3]] = Inr wire
    \<and> (\<exists>k wire' b'. receive BigEndian [Inr 3, Inl 11, Inr 5] wire b = Inr (take k [[1, 2], [3]], wire', b')
        \<and> content b' @ wire' = frames (drop k [[1, 2], [3]]))"
proof -
  obtain b where b: "Buffer_new kInitialSize = Inr b"
    using Buffer_new_ok [of kInitialSize] by (auto simp: kCheapPrepend_def kInitialSize_def vector_max_def)
  have "list_all (\<lambda>m. length m < 2 ^ 32) [[1, 2], [3 :: byte]]"
    "8 + sum_list (map (\<lambda>m. 4 + length m) [[1, 2], [3 :: byte]]) \<le> vector_max"
    by (simp_all add: vector_max_def)
  from frames_survive_fragmentation [OF this(1) b this(2), of LittleEndian BigEndian "[Inr 3, Inl 11, Inr 5]"] b
  show ?thesis by blast
qed

end
