(* ===== verification/Printf.thy ===== *)
theory Printf
  imports Prelude
begin

text \<open>
  The parts of the C library's formatted output that the components use: positional numerals,
  the decimal conversions %d, %Nd and %0Nd, the truncation of snprintf, the extent of a C
  string, and atoi. The locale of positional numerals is the contract of every digit loop; it is
  interpreted here on the library's decimal conversion and in LogStream on the loops of the code.
\<close>

section \<open>C strings and snprintf\<close>

definition c_string :: "string \<Rightarrow> string" where
  "c_string mem = takeWhile (\<lambda>c. c \<noteq> CHR 0x00) mem"

text \<open>snprintf stores at most one character less than the size it is given, and a terminator.\<close>

definition snprintf_chars :: "nat \<Rightarrow> string \<Rightarrow> string" where
  "snprintf_chars n str = (if n = 0 then [] else take (n - 1) str @ [CHR 0x00])"

text \<open>The C string that a call of snprintf on a buffer of \<open>n\<close> characters leaves behind.\<close>

definition snprintf_string :: "nat \<Rightarrow> string \<Rightarrow> string" where
  "snprintf_string n str = c_string (snprintf_chars n str)"

section \<open>Positional numerals\<close>

text \<open>
  A loop that stores the digit of the remainder and goes on with the quotient until it is zero
  writes the positional numeral, least significant digit first.
\<close>

locale positional =
  fixes base :: nat
    and digit_char :: "nat \<Rightarrow> char"
    and digit_value :: "char \<Rightarrow> nat"
    and loop :: "nat \<Rightarrow> string"
  assumes base: "1 < base"
    and digit_value_char: "d < base \<Longrightarrow> digit_value (digit_char d) = d"
    and loop_unfold: "loop n = digit_char (n mod base)
          # (if n div base \<noteq> 0 then loop (n div base) else [])"
begin

lemma loop_small: "n < base \<Longrightarrow> loop n = [digit_char n]"
  by (subst loop_unfold) simp

lemma loop_big: "base \<le> n \<Longrightarrow> loop n = digit_char (n mod base) # loop (n div base)"
  using base by (subst loop_unfold) (simp add: div_eq_0_iff)

lemma loop_value: "foldr (\<lambda>c acc. digit_value c + base * acc) (loop n) 0 = n"
proof (induction n rule: less_induct)
  case (less n)
  show ?case
  proof (cases "n < base")
    case True
    then show ?thesis by (simp add: loop_small digit_value_char)
  next
    case False
    then have "n div base < n" using base by simp
    then have "foldr (\<lambda>c acc. digit_value c + base * acc) (loop (n div base)) 0 = n div base"
      by (rule less.IH)
    then show ?thesis using False base by (simp add: loop_big digit_value_char)
  qed
qed

lemma loop_length: "0 < k \<Longrightarrow> n < base ^ k \<Longrightarrow> length (loop n) \<le> k"
proof (induction k arbitrary: n)
  case 0
  then show ?case by simp
next
  case (Suc k)
  show ?case
  proof (cases "n < base")
    case True
    then show ?thesis by (simp add: loop_small)
  next
    case False
    then have k: "0 < k" using Suc.prems(2) by (cases k) auto
    have "n div base < base ^ k"
      using Suc.prems(2) base by (simp add: less_mult_imp_div_less mult.commute)
    then show ?thesis using Suc.IH [OF k] False by (simp add: loop_big)
  qed
qed

lemma loop_digits: "c \<in> set (loop n) \<Longrightarrow> \<exists>d < base. c = digit_char d"
proof (induction n rule: less_induct)
  case (less n)
  show ?case
  proof (cases "n < base")
    case True
    then show ?thesis using less.prems by (auto simp: loop_small)
  next
    case False
    then have "n div base < n" and "n mod base < base" using base by simp_all
    then show ?thesis using less.IH [of "n div base"] less.prems False
      by (auto simp: loop_big)
  qed
qed

lemma loop_no_leading_zero: "0 < n \<Longrightarrow> digit_value (last (loop n)) \<noteq> 0"
proof (induction n rule: less_induct)
  case (less n)
  show ?case
  proof (cases "n < base")
    case True
    then show ?thesis using less.prems by (simp add: loop_small digit_value_char)
  next
    case False
    then have "n div base < n" and "0 < n div base" using base by (auto simp: div_greater_zero_iff)
    moreover have "loop (n div base) \<noteq> []" by (subst loop_unfold) simp
    ultimately show ?thesis using less.IH False by (simp add: loop_big)
  qed
qed

end

section \<open>The decimal conversions\<close>

definition dec_char :: "nat \<Rightarrow> char" where
  "dec_char d = ''0123456789'' ! d"

definition dec_value :: "char \<Rightarrow> nat" where
  "dec_value c = of_char c - 48"

lemma less_10_cases:
  "d < (10::nat) \<Longrightarrow> d \<in> {0, 1, 2, 3, 4, 5, 6, 7, 8, 9}"
  by auto

fun nat_loop :: "nat \<Rightarrow> string" where
  "nat_loop n = dec_char (n mod 10) # (if n div 10 \<noteq> 0 then nat_loop (n div 10) else [])"

declare nat_loop.simps [simp del]

lemma dec_value_char: "d < 10 \<Longrightarrow> dec_value (dec_char d) = d"
  by (drule less_10_cases) (auto simp: dec_value_def dec_char_def)

interpretation pf: positional 10 dec_char dec_value nat_loop
proof unfold_locales
  show "\<And>n. nat_loop n = dec_char (n mod 10) # (if n div 10 \<noteq> 0 then nat_loop (n div 10) else [])"
    by (rule nat_loop.simps)
qed (simp_all add: dec_value_char)

definition nat_chars :: "nat \<Rightarrow> string" where
  "nat_chars n = rev (nat_loop n)"

text \<open>
  The conversion %d with a minimum width, padded with blanks on the left or, under the flag 0,
  with zeros behind the sign.
\<close>

definition fmt_d :: "bool \<Rightarrow> nat \<Rightarrow> int \<Rightarrow> string" where
  "fmt_d zero width v =
     (let sign = (if v < 0 then ''-'' else []);
          ds = nat_chars (nat \<bar>v\<bar>);
          pad = width - length sign - length ds in
      if zero then sign @ replicate pad (CHR ''0'') @ ds
      else replicate pad (CHR '' '') @ sign @ ds)"

text \<open>Reading back a decimal numeral.\<close>

definition decimal_value :: "string \<Rightarrow> int" where
  "decimal_value cs =
     (case cs of
        c # ds \<Rightarrow> if c = CHR ''-'' then - int (foldl (\<lambda>acc c. dec_value c + 10 * acc) 0 ds)
                  else int (foldl (\<lambda>acc c. dec_value c + 10 * acc) 0 cs)
      | [] \<Rightarrow> 0)"

lemma dec_char_not_minus: "d < 10 \<Longrightarrow> dec_char d \<noteq> CHR ''-''"
  by (drule less_10_cases) (auto simp: dec_char_def)


definition digits_value :: "string \<Rightarrow> nat" where
  "digits_value cs = foldl (\<lambda>acc c. dec_value c + 10 * acc) 0 cs"

lemma digits_value_nat_chars: "digits_value (nat_chars n) = n"
  using pf.loop_value [of n] by (simp add: digits_value_def nat_chars_def foldl_conv_foldr)

lemma foldl_zeros: "foldl (\<lambda>acc c. dec_value c + 10 * acc) 0 (replicate k (CHR ''0'')) = 0"
  by (induction k) (simp_all add: dec_value_def)

lemma digits_value_bound:
  assumes "\<And>c. c \<in> set cs \<Longrightarrow> \<exists>d < 10. c = dec_char d" and "length cs \<le> k"
  shows "digits_value cs < 10 ^ k"
proof -
  have "\<forall>c \<in> set cs. dec_value c < 10" using assms(1) dec_value_char by force
  then have "digits_value cs < 10 ^ length cs"
    by (induction cs rule: rev_induct) (auto simp: digits_value_def)
  also have "\<dots> \<le> 10 ^ k" using assms(2) by (simp add: power_increasing)
  finally show ?thesis .
qed

lemma digits_value_zeros [simp]:
  "digits_value (replicate k (CHR ''0'') @ cs) = digits_value cs"
  by (simp add: digits_value_def foldl_zeros)

lemma nat_chars_length: "0 < k \<Longrightarrow> n < 10 ^ k \<Longrightarrow> length (nat_chars n) \<le> k"
  using pf.loop_length by (simp add: nat_chars_def)

lemma nat_chars_digits: "c \<in> set (nat_chars n) \<Longrightarrow> \<exists>d < 10. c = dec_char d"
  using pf.loop_digits by (simp add: nat_chars_def)

lemma fmt_zero_length: "0 < k \<Longrightarrow> n < 10 ^ k \<Longrightarrow> length (fmt_d True k (int n)) = k"
  using nat_chars_length [of k n] by (simp add: fmt_d_def Let_def)

lemma fmt_zero_value: "digits_value (fmt_d True k (int n)) = n"
  by (simp add: fmt_d_def Let_def digits_value_nat_chars)

lemma dec_char_not_special:
  "d < 10 \<Longrightarrow> dec_char d \<noteq> CHR 0x00 \<and> dec_char d \<noteq> CHR ''-'' \<and> dec_char d \<noteq> CHR ''.''"
  by (drule less_10_cases) (auto simp: dec_char_def)

lemma nat_chars_not_special:
  "CHR 0x00 \<notin> set (nat_chars n)" "CHR ''-'' \<notin> set (nat_chars n)" "CHR ''.'' \<notin> set (nat_chars n)"
  using nat_chars_digits dec_char_not_special by metis+

lemma fmt_d_no_nul: "CHR 0x00 \<notin> set (fmt_d z k v)"
  using nat_chars_not_special by (simp add: fmt_d_def Let_def)

lemma snprintf_string_fits:
  assumes "length str < n" and "CHR 0x00 \<notin> set str"
  shows "snprintf_string n str = str"
proof -
  have "takeWhile (\<lambda>c. c \<noteq> CHR 0x00) (str @ [CHR 0x00]) = str"
    using assms(2) by (subst takeWhile_append2) auto
  then show ?thesis
    using assms(1) by (simp add: snprintf_string_def snprintf_chars_def c_string_def)
qed

section \<open>Reading numbers\<close>

text \<open>atoi: blanks, a sign, digits; a number out of the range of int is not modelled.\<close>

definition is_digit :: "char \<Rightarrow> bool" where
  "is_digit c \<longleftrightarrow> c \<in> set ''0123456789''"

definition is_space :: "char \<Rightarrow> bool" where
  "is_space c \<longleftrightarrow> c \<in> {CHR '' '', CHR 0x09, CHR 0x0A, CHR 0x0B, CHR 0x0C, CHR 0x0D}"

definition atoi :: "string \<Rightarrow> int" where
  "atoi str =
     (let s = dropWhile is_space str in
      case s of
        c # cs \<Rightarrow>
          if c = CHR ''-'' then - int (digits_value (takeWhile is_digit cs))
          else if c = CHR ''+'' then int (digits_value (takeWhile is_digit cs))
          else int (digits_value (takeWhile is_digit s))
      | [] \<Rightarrow> 0)"

end
