(* ===== verification/FileUtil.thy ===== *)
theory FileUtil
  imports Printf
begin

text \<open>
  base/FileUtil.h and base/FileUtil.cc. The system calls are arguments: what the i-th call of
  fwrite, read or pread of a program does. The loops around them end only if the calls let them,
  so they are partial functions, and a loop that does not return is None.
\<close>

section \<open>WriteFile\<close>

text \<open>
  \<open>wf_text\<close> is what stdio has accepted since the file was opened, \<open>wf_error\<close> its error indicator,
  \<open>wf_calls\<close> counts the calls of fwrite and \<open>wf_flushed\<close> the characters that a flush has handed to
  the system. The result of a call is the number of characters
  taken and whether the error indicator is set by it.
\<close>

type_synonym fwrite = "nat \<Rightarrow> nat \<Rightarrow> nat \<times> bool"

record write_file =
  m_filename :: string
  wf_text :: string
  wf_error :: bool
  wf_calls :: nat
  wf_flushed :: nat
  m_nBytesWritten :: nat
  m_valid :: bool

definition WriteFile_kBUFF_SIZE :: nat where
  "WriteFile_kBUFF_SIZE = 64 * 1024"

definition WriteFile_new :: "(string \<Rightarrow> bool) \<Rightarrow> string \<Rightarrow> write_file" where
  "WriteFile_new opens filename =
     \<lparr>m_filename = filename, wf_text = [], wf_error = False, wf_calls = 0, wf_flushed = 0, m_nBytesWritten = 0,
      m_valid = opens filename\<rparr>"

definition WriteFile_write :: "fwrite \<Rightarrow> string \<Rightarrow> nat \<Rightarrow> write_file \<Rightarrow> nat \<times> write_file" where
  "WriteFile_write fw line n f =
     (let (ret, err) = fw (wf_calls f) n in
      (ret, f\<lparr>wf_text := wf_text f @ take ret line, wf_error := wf_error f \<or> err,
              wf_calls := wf_calls f + 1\<rparr>))"

text \<open>The do loop of writeLine.\<close>

partial_function (option) writeLine_loop ::
  "fwrite \<Rightarrow> string \<Rightarrow> nat \<Rightarrow> nat \<Rightarrow> write_file \<Rightarrow> write_file option" where
  "writeLine_loop fw line remain startPos f =
     (let (ret, f') = WriteFile_write fw (drop startPos line) remain f in
      if ret = 0 \<and> wf_error f' then Some f'
      else if 0 < size_sub remain ret
      then writeLine_loop fw line (size_sub remain ret) (size_add startPos ret) f'
      else Some f')"

definition WriteFile_writeLine :: "fwrite \<Rightarrow> string \<Rightarrow> write_file \<Rightarrow> (nat \<times> write_file) option" where
  "WriteFile_writeLine fw line f =
     (let n = length line in
      if m_valid f
      then Option.bind (writeLine_loop fw line n 0 f)
             (\<lambda>f'. Some (n, f'\<lparr>m_nBytesWritten := size_add (m_nBytesWritten f') n\<rparr>))
      else Some (0, f))"

definition WriteFile_writeLine_string :: "fwrite \<Rightarrow> string \<Rightarrow> write_file \<Rightarrow> (nat \<times> write_file) option" where
  "WriteFile_writeLine_string fw line f = WriteFile_writeLine fw line f"

definition WriteFile_valid :: "write_file \<Rightarrow> bool" where
  "WriteFile_valid f = m_valid f"

definition WriteFile_WritenBytes :: "write_file \<Rightarrow> nat" where
  "WriteFile_WritenBytes f = m_nBytesWritten f"

definition WriteFile_flush :: "write_file \<Rightarrow> write_file" where
  "WriteFile_flush f = (if m_valid f then f\<lparr>wf_flushed := length (wf_text f)\<rparr> else f)"

text \<open>The destructor closes a valid file, which flushes it.\<close>

definition WriteFile_destroy :: "write_file \<Rightarrow> write_file" where
  "WriteFile_destroy f = (if m_valid f then f\<lparr>wf_flushed := length (wf_text f)\<rparr> else f)"

section \<open>ReadSmallFile\<close>

datatype read_result = ReadOk string | ReadErr int

definition EINTR :: int where
  "EINTR = 4"

definition EISDIR :: int where
  "EISDIR = 21"

definition ReadSmallFile_kBUFF_SIZE :: nat where
  "ReadSmallFile_kBUFF_SIZE = 64 * 1024"

record read_small_file =
  m_fd :: int
  m_err :: int
  rf_buff :: string
  rf_calls :: nat

definition ReadSmallFile_new :: "int + int \<Rightarrow> string \<Rightarrow> read_small_file" where
  "ReadSmallFile_new opened garbage =
     (case opened of
        Inl errno \<Rightarrow> \<lparr>m_fd = - 1, m_err = errno, rf_buff = garbage[0 := CHR 0x00], rf_calls = 0\<rparr>
      | Inr fd \<Rightarrow> \<lparr>m_fd = fd, m_err = 0, rf_buff = garbage[0 := CHR 0x00], rf_calls = 0\<rparr>)"

text \<open>
  The destructor: close is called until it succeeds or fails with another error than EINTR. An
  argument says how the i-th call of close ends, None for success; the result is the number of calls.
\<close>

partial_function (option) ReadSmallFile_close_loop :: "(nat \<Rightarrow> int option) \<Rightarrow> nat \<Rightarrow> nat option" where
  "ReadSmallFile_close_loop close i =
     (if close i = Some EINTR then ReadSmallFile_close_loop close (i + 1) else Some (i + 1))"

definition ReadSmallFile_destroy :: "(nat \<Rightarrow> int option) \<Rightarrow> read_small_file \<Rightarrow> nat option" where
  "ReadSmallFile_destroy close f = (if m_fd f \<ge> 0 then ReadSmallFile_close_loop close 0 else Some 0)"

text \<open>
  The loop of readToBuffer. Its condition assigns EINTR to errno, which is not zero, so that it
  repeats the call after every error.
\<close>

partial_function (option) readToBuffer_loop :: "(nat \<Rightarrow> read_result) \<Rightarrow> nat \<Rightarrow> (string \<times> nat) option" where
  "readToBuffer_loop pread i =
     (case pread i of
        ReadOk bs \<Rightarrow> Some (bs, i + 1)
      | ReadErr errno \<Rightarrow> if EINTR \<noteq> 0 then readToBuffer_loop pread (i + 1) else Some ([], i + 1))"

text \<open>The result: the value returned, the size stored through the pointer, and the object.\<close>

definition ReadSmallFile_readToBuffer ::
  "(nat \<Rightarrow> read_result) \<Rightarrow> read_small_file \<Rightarrow> (int \<times> nat option \<times> read_small_file) option" where
  "ReadSmallFile_readToBuffer pread f =
     (if m_fd f \<ge> 0
      then Option.bind (readToBuffer_loop pread (rf_calls f)) (\<lambda>(bs, i).
             Some (m_err f, Some (length bs),
                   f\<lparr>rf_buff := overwrite 0 (bs @ [CHR 0x00]) (rf_buff f), rf_calls := i\<rparr>))
      else Some (m_err f, None, f))"

definition ReadSmallFile_buffer :: "read_small_file \<Rightarrow> string" where
  "ReadSmallFile_buffer f = rf_buff f"

record file_stat =
  st_isreg :: bool
  st_isdir :: bool
  st_size :: int
  st_mtime :: int
  st_ctime :: int

text \<open>
  The reading loop of readToString: the result is the error, the data and the state of the file.
  A call of read gets the size asked for and the state of the file (its offset, and whatever else
  decides what the system does).
\<close>

type_synonym 's read = "'s \<Rightarrow> nat \<Rightarrow> read_result \<times> 's"

partial_function (option) readToString_loop ::
  "'s read \<Rightarrow> int \<Rightarrow> int \<Rightarrow> int \<Rightarrow> int \<Rightarrow> string \<Rightarrow> 's \<Rightarrow> (int \<times> string \<times> 's) option" where
  "readToString_loop rd maxSize readSize err readed data s =
     (if readed < readSize
      then
        let need_read = min ReadSmallFile_kBUFF_SIZE (nat ((maxSize - int (length data)) mod 2 ^ 64)) in
        (case rd s need_read of
           (ReadOk bs, s') \<Rightarrow>
             if bs \<noteq> []
             then readToString_loop rd maxSize readSize err (readed + int (length bs)) (data @ bs) s'
             else Some (err, data, s')
         | (ReadErr errno, s') \<Rightarrow>
             if errno \<noteq> EINTR then Some (errno, data, s')
             else readToString_loop rd maxSize readSize err readed data s')
      else Some (err, data, s))"

text \<open>
  readToString: the flags tell which pointers are not null; the result holds the error, the
  data and the values stored through the pointers. reserve throws for a negative size.
\<close>

record read_string_result =
  rs_err :: int
  rs_data :: string
  rs_fileSize :: "int option"
  rs_modifyTime :: "int option"
  rs_createTime :: "int option"

definition ReadSmallFile_readToString ::
  "'s read \<Rightarrow> 's \<Rightarrow> int + file_stat \<Rightarrow> int \<Rightarrow> string \<Rightarrow> bool \<Rightarrow> bool \<Rightarrow> bool
     \<Rightarrow> read_small_file \<Rightarrow> read_string_result result" where
  "ReadSmallFile_readToString rd s fstat maxSize data0 fileSize modifyTime createTime f =
     (if m_fd f < 0
      then Inr \<lparr>rs_err = m_err f, rs_data = data0, rs_fileSize = None, rs_modifyTime = None,
                rs_createTime = None\<rparr>
      else
        case fstat of
          Inl errno \<Rightarrow> Inr \<lparr>rs_err = errno, rs_data = [], rs_fileSize = None, rs_modifyTime = None,
                            rs_createTime = None\<rparr>
        | Inr st \<Rightarrow>
            let wanted = st_isreg st \<and> fileSize;
                readSize = (if wanted then min maxSize (st_size st) else 0);
                err = (if \<not> wanted \<and> st_isdir st then EISDIR else m_err f) in
            if wanted \<and> readSize < 0 then Inl LengthError
            else
              bindE (of_loop (if readSize > 0
                              then readToString_loop rd maxSize readSize err 0 [] s
                              else Some (err, [], s)))
                (\<lambda>(err', data, s'). Inr \<lparr>rs_err = err', rs_data = data,
                   rs_fileSize = (if wanted then Some (st_size st) else None),
                   rs_modifyTime = (if modifyTime then Some (st_mtime st) else None),
                   rs_createTime = (if createTime then Some (st_ctime st) else None)\<rparr>))"

definition readFile ::
  "(string \<Rightarrow> int + int) \<Rightarrow> string \<Rightarrow> 's read \<Rightarrow> 's \<Rightarrow> int + file_stat \<Rightarrow> string \<Rightarrow> int \<Rightarrow> string
     \<Rightarrow> bool \<Rightarrow> bool \<Rightarrow> bool \<Rightarrow> read_string_result result" where
  "readFile opens garbage rd s fstat filename maxSize content fileSize modifyTime createTime =
     ReadSmallFile_readToString rd s fstat maxSize content fileSize modifyTime createTime
       (ReadSmallFile_new (opens filename) garbage)"

section \<open>Writing a line\<close>

text \<open>A call takes at most what it is given.\<close>

definition fwrite_ok :: "fwrite \<Rightarrow> bool" where
  "fwrite_ok fw \<longleftrightarrow> (\<forall>i n. fst (fw i n) \<le> n)"

text \<open>A call that takes nothing although it is given something reports an error.\<close>

definition fwrite_progress :: "fwrite \<Rightarrow> bool" where
  "fwrite_progress fw \<longleftrightarrow> (\<forall>i n. 0 < n \<longrightarrow> fst (fw i n) = 0 \<longrightarrow> snd (fw i n))"

lemma writeLine_loop_spec:
  assumes fw: "fwrite_ok fw" "fwrite_progress fw"
  shows "startPos + remain = length line \<Longrightarrow> length line < size_mod \<Longrightarrow>
    \<exists>f' k. writeLine_loop fw line remain startPos f = Some f' \<and> k \<le> remain
      \<and> wf_text f' = wf_text f @ take k (drop startPos line)
      \<and> (wf_error f' \<or> k = remain) \<and> m_nBytesWritten f' = m_nBytesWritten f
      \<and> m_filename f' = m_filename f \<and> m_valid f' = m_valid f
      \<and> ((\<forall>i n. \<not> snd (fw i n)) \<longrightarrow> wf_error f' = wf_error f)"
proof (induction remain arbitrary: startPos f rule: less_induct)
  case (less remain)
  obtain ret err where re: "fw (wf_calls f) remain = (ret, err)" by fastforce
  have ret: "ret \<le> remain" using fw(1) re unfolding fwrite_ok_def by (metis fst_conv)
  define f1 where "f1 = f\<lparr>wf_text := wf_text f @ take ret (drop startPos line),
    wf_error := wf_error f \<or> err, wf_calls := wf_calls f + 1\<rparr>"
  have w: "WriteFile_write fw (drop startPos line) remain f = (ret, f1)"
    by (simp add: WriteFile_write_def re f1_def)
  have sz: "size_sub remain ret = remain - ret" "size_add startPos ret = startPos + ret"
    using ret less.prems by (auto intro: size_sub_exact size_add_exact)
  have noerr: "(\<forall>i n. \<not> snd (fw i n)) \<Longrightarrow> \<not> err" using re by (metis snd_conv)
  note unfolded = writeLine_loop.simps [of fw line remain startPos f]
  consider "ret = 0" "wf_error f1" | "ret = remain" "\<not> (ret = 0 \<and> wf_error f1)"
    | "ret < remain" "\<not> (ret = 0 \<and> wf_error f1)" using ret by linarith
  then show ?case
  proof cases
    case 1
    have "writeLine_loop fw line remain startPos f = Some f1" using 1 w by (subst unfolded) simp
    then show ?thesis using 1 noerr by (intro exI [of _ f1] exI [of _ 0]) (auto simp: f1_def)
  next
    case 2
    have "writeLine_loop fw line remain startPos f = Some f1" using 2 w sz by (subst unfolded) auto
    then show ?thesis using 2 noerr
      by (intro exI [of _ f1] exI [of _ remain]) (auto simp: f1_def)
  next
    case 3
    have pos: "0 < ret"
    proof (rule ccontr)
      assume "\<not> 0 < ret"
      then have "err" using fw(2) re 3(1) unfolding fwrite_progress_def
        by (metis fst_conv gr0I less_nat_zero_code snd_conv)
      then show False using 3(2) \<open>\<not> 0 < ret\<close> by (simp add: f1_def)
    qed
    have loop: "writeLine_loop fw line remain startPos f
        = writeLine_loop fw line (remain - ret) (startPos + ret) f1"
      using 3 w sz by (subst unfolded) auto
    obtain f' k where ih: "writeLine_loop fw line (remain - ret) (startPos + ret) f1 = Some f'"
        "k \<le> remain - ret" "wf_text f' = wf_text f1 @ take k (drop (startPos + ret) line)"
        "wf_error f' \<or> k = remain - ret" "m_nBytesWritten f' = m_nBytesWritten f1"
        "m_filename f' = m_filename f1" "m_valid f' = m_valid f1"
        "(\<forall>i n. \<not> snd (fw i n)) \<longrightarrow> wf_error f' = wf_error f1"
      using less.IH [of "remain - ret" "startPos + ret" f1] pos 3 ret less.prems by auto
    have "take ret (drop startPos line) @ take k (drop (startPos + ret) line)
        = take (ret + k) (drop startPos line)"
      by (simp add: take_add) (simp only: add.commute)
    then show ?thesis using loop ih 3 ret noerr
      by (intro exI [of _ f'] exI [of _ "ret + k"]) (auto simp: f1_def)
  qed
qed

lemma writeLine_loop_hangs:
  assumes "writeLine_loop fw line remain startPos f = Some f'"
  shows "fw = (\<lambda>_ _. (0, False)) \<longrightarrow> \<not> wf_error f \<longrightarrow> 0 < remain \<longrightarrow> remain < size_mod \<longrightarrow> False"
  by (rule writeLine_loop.raw_induct [OF _ assms, where P = "\<lambda>fw line remain startPos f f'.
        fw = (\<lambda>_ _. (0, False)) \<longrightarrow> \<not> wf_error f \<longrightarrow> 0 < remain \<longrightarrow> remain < size_mod \<longrightarrow> False"])
    (auto simp: WriteFile_write_def size_sub_exact split: if_splits)

section \<open>Reading a file\<close>

text \<open>
  A regular file of the given content: a call delivers what comes next, limited by the request
  and by a chunk the system chooses for it, or is interrupted by a signal. The state is the offset
  with the number of the call.
\<close>

definition file_read :: "string \<Rightarrow> (nat \<Rightarrow> nat option) \<Rightarrow> (nat \<times> nat) read" where
  "file_read content sched = (\<lambda>(offset, i) need.
     (case sched i of
        None \<Rightarrow> (ReadErr EINTR, (offset, i + 1))
      | Some chunk \<Rightarrow>
          let bs = take (min need (Suc chunk)) (drop offset content) in
          (ReadOk bs, (offset + length bs, i + 1))))"

text \<open>Interruptions are finite: after every call there is one that is not interrupted.\<close>

definition uninterrupted :: "(nat \<Rightarrow> nat option) \<Rightarrow> bool" where
  "uninterrupted sched \<longleftrightarrow> (\<forall>i. \<exists>j \<ge> i. sched j \<noteq> None)"

lemma readToString_loop_spec:
  assumes un: "uninterrupted sched" and size: "readSize = min maxSize (int (length content))"
    and max: "maxSize < 2 ^ 63"
  shows "offset \<le> nat readSize \<Longrightarrow> 0 < readSize \<Longrightarrow>
    \<exists>s. readToString_loop (file_read content sched) maxSize readSize err (int offset)
          (take offset content) (offset, i) = Some (err, take (nat readSize) content, s)"
proof (induction "nat readSize - offset" arbitrary: offset i rule: less_induct)
  case less
  show ?case
  proof (cases "int offset < readSize")
    case False
    then have "offset = nat readSize" using less.prems by simp
    then show ?thesis using False by (subst readToString_loop.simps) simp
  next
    case True
    have off: "offset < length content" using True size by simp
    have data: "length (take offset content) = offset" using off by simp
    have need: "(maxSize - int offset) mod 2 ^ 64 = maxSize - int offset"
      using True size max by (intro mod_pos_pos_trivial) simp_all
    define need where "need = min ReadSmallFile_kBUFF_SIZE (nat (maxSize - int offset))"
    have pos: "0 < need" using True size by (simp add: need_def ReadSmallFile_kBUFF_SIZE_def)
    have step: "readToString_loop (file_read content sched) maxSize readSize err (int offset)
        (take offset content) (offset, k)
      = (case file_read content sched (offset, k) need of
           (ReadOk bs, s') \<Rightarrow>
             if bs \<noteq> []
             then readToString_loop (file_read content sched) maxSize readSize err
                    (int offset + int (length bs)) (take offset content @ bs) s'
             else Some (err, take offset content, s')
         | (ReadErr errno, s') \<Rightarrow>
             if errno \<noteq> EINTR then Some (errno, take offset content, s')
             else readToString_loop (file_read content sched) maxSize readSize err (int offset)
                    (take offset content) s')" for k
      by (subst readToString_loop.simps) (simp only: if_True Let_def data need need_def True)
    have interrupted: "readToString_loop (file_read content sched) maxSize readSize err (int offset)
        (take offset content) (offset, k)
      = readToString_loop (file_read content sched) maxSize readSize err (int offset)
        (take offset content) (offset, Suc k)" if "sched k = None" for k
      using that by (subst step) (simp add: file_read_def)
    obtain j where j: "i \<le> j" "sched j \<noteq> None" "\<And>k. i \<le> k \<Longrightarrow> k < j \<Longrightarrow> sched k = None"
    proof -
      define j where "j = (LEAST j. i \<le> j \<and> sched j \<noteq> None)"
      have "\<exists>j. i \<le> j \<and> sched j \<noteq> None" using un unfolding uninterrupted_def by blast
      then have "i \<le> j \<and> sched j \<noteq> None" unfolding j_def by (rule LeastI_ex)
      moreover have "sched k = None" if "i \<le> k" "k < j" for k
        using not_less_Least [of k] that unfolding j_def by blast
      ultimately show thesis using that by blast
    qed
    have skip: "readToString_loop (file_read content sched) maxSize readSize err (int offset)
        (take offset content) (offset, i)
      = readToString_loop (file_read content sched) maxSize readSize err (int offset)
        (take offset content) (offset, j)"
      using j(1,3)
    proof (induction j rule: dec_induct)
      case (step k)
      then show ?case using interrupted [of k] by simp
    qed simp
    obtain chunk where chunk: "sched j = Some chunk" using j(2) by blast
    define bs where "bs = take (min need (Suc chunk)) (drop offset content)"
    have bs: "0 < length bs" "length bs \<le> need" "length bs \<le> length content - offset"
      using pos off by (auto simp: bs_def)
    have new: "offset + length bs \<le> nat readSize"
      using bs size True by (simp add: need_def) linarith
    have "take offset content @ bs = take (offset + length bs) content"
      unfolding take_add by (simp add: bs_def min_def)
    then have "readToString_loop (file_read content sched) maxSize readSize err (int offset)
        (take offset content) (offset, j)
      = readToString_loop (file_read content sched) maxSize readSize err (int (offset + length bs))
        (take (offset + length bs) content) (offset + length bs, Suc j)"
      using bs(1) by (subst step) (simp add: file_read_def chunk Let_def bs_def)
    moreover have "offset < nat readSize" using True by simp
    then have "nat readSize - (offset + length bs) < nat readSize - offset" using bs(1) by linarith
    then have "\<exists>s. readToString_loop (file_read content sched) maxSize readSize err
        (int (offset + length bs)) (take (offset + length bs) content) (offset + length bs, Suc j)
      = Some (err, take (nat readSize) content, s)"
      using new less.prems(2) by (rule less.hyps)
    ultimately show ?thesis using skip by simp
  qed
qed

text \<open>A pread that is answered after some errors; the buffer then holds the text up to its zero.\<close>

lemma readToBuffer_loop_answer:
  "(\<forall>j < k. \<exists>e. pread (i + j) = ReadErr e) \<Longrightarrow> pread (i + k) = ReadOk bs \<Longrightarrow> readToBuffer_loop pread i = Some (bs, i + k + 1)"
proof (induction k arbitrary: i)
  case 0
  then show ?case by (subst readToBuffer_loop.simps) simp
next
  case (Suc k)
  obtain e where "pread i = ReadErr e" using Suc.prems(1) by fastforce
  moreover have "readToBuffer_loop pread (i + 1) = Some (bs, i + 1 + k + 1)"
    using Suc.prems by (intro Suc.IH) auto
  ultimately show ?case by (subst readToBuffer_loop.simps) (simp add: EINTR_def)
qed

lemma readToBuffer_text:
  assumes "0 \<le> m_fd f" and "\<forall>j < k. \<exists>e. pread (rf_calls f + j) = ReadErr e" and "pread (rf_calls f + k) = ReadOk bs"
    and "CHR 0x00 \<notin> set bs"
  shows "\<exists>f'. ReadSmallFile_readToBuffer pread f = Some (m_err f, Some (length bs), f')
    \<and> c_string (ReadSmallFile_buffer f') = bs \<and> m_fd f' = m_fd f"
proof -
  have "takeWhile (\<lambda>c. c \<noteq> CHR 0x00) (bs @ CHR 0x00 # rest) = bs" for rest
    using assms(4) by (subst takeWhile_append2) auto
  then show ?thesis using readToBuffer_loop_answer [OF assms(2,3)] assms(1)
    by (simp add: ReadSmallFile_readToBuffer_def ReadSmallFile_buffer_def overwrite_def c_string_def)
qed

lemma readToBuffer_loop_hangs:
  assumes "readToBuffer_loop pread i = Some r"
  shows "(\<forall>j \<ge> i. \<exists>e. pread j = ReadErr e) \<longrightarrow> False"
proof (rule readToBuffer_loop.raw_induct [OF _ assms, where P = "\<lambda>pread i r.
      (\<forall>j \<ge> i. \<exists>e. pread j = ReadErr e) \<longrightarrow> False"])
  fix rec and pread :: "nat \<Rightarrow> read_result" and i :: nat and r
  assume IH: "\<And>p j s. rec p j = Some s \<Longrightarrow> (\<forall>k \<ge> j. \<exists>e. p k = ReadErr e) \<longrightarrow> False"
    and body: "(case pread i of ReadOk bs \<Rightarrow> Some (bs, i + 1)
      | ReadErr errno \<Rightarrow> if EINTR \<noteq> 0 then rec pread (i + 1) else Some ([], i + 1)) = Some r"
  show "(\<forall>j \<ge> i. \<exists>e. pread j = ReadErr e) \<longrightarrow> False"
  proof
    assume bad: "\<forall>j \<ge> i. \<exists>e. pread j = ReadErr e"
    obtain e where "pread i = ReadErr e" using bad by (metis order_refl)
    then have "rec pread (i + 1) = Some r" using body by (simp add: EINTR_def)
    moreover have "\<forall>j \<ge> i + 1. \<exists>e. pread j = ReadErr e" using bad by simp
    ultimately show False using IH by blast
  qed
qed

section \<open>Properties\<close>

text \<open>
  C30. When every call of fwrite takes something or reports an error, writeLine returns, whatever
  the sizes of the pieces: the text that stdio has accepted grows by the line, or by a prefix of
  it when the error indicator is set. The return value and the count of bytes written claim the
  whole line in both cases. When the calls take nothing and report nothing, the loop never
  returns.
\<close>

theorem writeLine_complete:
  assumes "fwrite_ok fw" and "fwrite_progress fw" and "m_valid f" and "length line < size_mod"
  shows "(\<exists>f' k. WriteFile_writeLine fw line f = Some (length line, f') \<and> k \<le> length line
      \<and> wf_text f' = wf_text f @ take k line \<and> (wf_error f' \<or> k = length line)
      \<and> WriteFile_WritenBytes f' = size_add (WriteFile_WritenBytes f) (length line)
      \<and> take (wf_flushed (WriteFile_flush f')) (wf_text f') = wf_text f')
    \<and> (line \<noteq> [] \<longrightarrow> \<not> wf_error f \<longrightarrow> WriteFile_writeLine (\<lambda>_ _. (0, False)) line f = None)"
proof
  obtain f' k where "writeLine_loop fw line (length line) 0 f = Some f'" "k \<le> length line"
      "wf_text f' = wf_text f @ take k line" "wf_error f' \<or> k = length line"
      "m_nBytesWritten f' = m_nBytesWritten f" "m_valid f' = m_valid f"
    using writeLine_loop_spec [OF assms(1,2), of 0 "length line" line f] assms(4) by auto
  then show "\<exists>f' k. WriteFile_writeLine fw line f = Some (length line, f') \<and> k \<le> length line
      \<and> wf_text f' = wf_text f @ take k line \<and> (wf_error f' \<or> k = length line)
      \<and> WriteFile_WritenBytes f' = size_add (WriteFile_WritenBytes f) (length line)
      \<and> take (wf_flushed (WriteFile_flush f')) (wf_text f') = wf_text f'"
    using assms(3)
    by (intro exI [of _ "f'\<lparr>m_nBytesWritten := size_add (m_nBytesWritten f') (length line)\<rparr>"] exI [of _ k])
      (simp add: WriteFile_writeLine_def WriteFile_WritenBytes_def WriteFile_flush_def Let_def)
  show "line \<noteq> [] \<longrightarrow> \<not> wf_error f \<longrightarrow> WriteFile_writeLine (\<lambda>_ _. (0, False)) line f = None"
  proof (intro impI)
    assume "line \<noteq> []" "\<not> wf_error f"
    then have "writeLine_loop (\<lambda>_ _. (0, False)) line (length line) 0 f = None"
      using writeLine_loop_hangs [of "\<lambda>_ _. (0, False)" line "length line" 0 f] assms(4)
      by (cases "writeLine_loop (\<lambda>_ _. (0, False)) line (length line) 0 f") auto
    then show "WriteFile_writeLine (\<lambda>_ _. (0, False)) line f = None"
      using assms(3) by (simp add: WriteFile_writeLine_def Let_def)
  qed
qed

text \<open>A disk that takes three characters a call and is full after the second call.\<close>

definition small_disk :: fwrite where
  "small_disk i n = (if i < 2 then (min n 3, False) else (0, True))"

theorem writeLine_complete_witness:
  "(\<exists>f' k. WriteFile_writeLine small_disk ''0123456789'' (WriteFile_new (\<lambda>_. True) ''log'') = Some (10, f')
      \<and> WriteFile_WritenBytes f' = 10 \<and> wf_text f' = take k ''0123456789'')
   \<and> WriteFile_writeLine (\<lambda>_ _. (0, False)) ''x'' (WriteFile_new (\<lambda>_. True) ''log'') = None"
proof -
  have disk: "fwrite_ok small_disk" "fwrite_progress small_disk"
    by (auto simp: fwrite_ok_def fwrite_progress_def small_disk_def)
  show ?thesis
    using writeLine_complete [OF disk, of "WriteFile_new (\<lambda>_. True) ''log''" "''0123456789''"]
      writeLine_complete [OF disk, of "WriteFile_new (\<lambda>_. True) ''log''" "''x''"]
    by (auto simp: WriteFile_new_def size_mod_def size_add_def WriteFile_WritenBytes_def)
qed

lemma readToString_regular:
  assumes "m_fd f \<ge> 0" and "st_isreg st" and "\<not> st_isdir st" and "st_size st = int (length content)"
    and "0 \<le> maxSize" and "maxSize < 2 ^ 63" and "uninterrupted sched"
  shows "\<exists>r. ReadSmallFile_readToString (file_read content sched) (0, 0) (Inr st) maxSize old True mt ct f = Inr r
    \<and> rs_err r = m_err f \<and> rs_data r = take (nat maxSize) content \<and> rs_fileSize r = Some (int (length content))"
proof -
  let ?n = "min maxSize (int (length content))"
  have "take (nat ?n) content = take (nat maxSize) content" by (auto simp: min_def nat_le_iff)
  moreover have "\<exists>s. readToString_loop (file_read content sched) maxSize ?n (m_err f) 0 [] (0, 0)
      = Some (m_err f, take (nat ?n) content, s)" if "0 < ?n"
    using readToString_loop_spec [OF assms(7) refl assms(6), of 0 content "m_err f" 0] that by simp
  moreover have "take (nat ?n) content = []" if "\<not> 0 < ?n"
    using that by (simp only: not_less nat_le_0 take_0)
  ultimately show ?thesis using assms by (cases "0 < ?n") (auto simp: ReadSmallFile_readToString_def Let_def)
qed

text \<open>
  C31. readToString returns the first maxSize bytes of a regular file, whatever sizes the calls of
  read deliver and however often signals interrupt them, when the caller asks for the file size;
  when the caller passes a null pointer for it, the data is empty and no error is reported.
  readToBuffer retries after every error, because its loop assigns EINTR to errno instead of
  comparing: a persistent error makes it loop for ever.
\<close>

theorem readToString_content:
  assumes "m_fd f \<ge> 0" and "st_isreg st" and "\<not> st_isdir st" and "st_size st = int (length content)"
    and "0 \<le> maxSize" and "maxSize < 2 ^ 63" and "uninterrupted sched"
  shows "(\<exists>r. ReadSmallFile_readToString (file_read content sched) (0, 0) (Inr st) maxSize old True mt ct f = Inr r
        \<and> rs_err r = m_err f \<and> rs_data r = take (nat maxSize) content
        \<and> rs_fileSize r = Some (int (length content)))
    \<and> (\<exists>r. ReadSmallFile_readToString (file_read content sched) (0, 0) (Inr st) maxSize old False mt ct f = Inr r
        \<and> rs_err r = m_err f \<and> rs_data r = [])
    \<and> ((\<forall>j. \<exists>e. pread j = ReadErr e) \<longrightarrow> ReadSmallFile_readToBuffer pread f = None)"
proof (intro conjI impI readToString_regular assms)
  show "\<exists>r. ReadSmallFile_readToString (file_read content sched) (0, 0) (Inr st) maxSize old False mt ct f = Inr r
        \<and> rs_err r = m_err f \<and> rs_data r = []"
    using assms by (simp add: ReadSmallFile_readToString_def Let_def)
  show "ReadSmallFile_readToBuffer pread f = None" if "\<forall>j. \<exists>e. pread j = ReadErr e"
    using readToBuffer_loop_hangs [of pread "rf_calls f"] that assms(1)
    by (cases "readToBuffer_loop pread (rf_calls f)") (auto simp: ReadSmallFile_readToBuffer_def)
qed

theorem readToString_content_witness:
  "(\<exists>r. ReadSmallFile_readToString (file_read ''abcdef'' (\<lambda>i. if i = 1 then None else Some 1)) (0, 0)
      (Inr \<lparr>st_isreg = True, st_isdir = False, st_size = 6, st_mtime = 0, st_ctime = 0\<rparr>) 5 [] True False False
      (ReadSmallFile_new (Inr 3) ''x'') = Inr r \<and> rs_data r = ''abcde'')
   \<and> ReadSmallFile_readToBuffer (\<lambda>_. ReadErr 5) (ReadSmallFile_new (Inr 3) ''x'') = None"
proof -
  let ?sched = "\<lambda>i :: nat. if i = 1 then None else Some (1 :: nat)"
  have "uninterrupted ?sched" unfolding uninterrupted_def
  proof
    fix i :: nat
    show "\<exists>j \<ge> i. ?sched j \<noteq> None" by (rule exI [of _ "i + 2"]) simp
  qed
  then show ?thesis
    using readToString_content [of "ReadSmallFile_new (Inr 3) ''x''"
        "\<lparr>st_isreg = True, st_isdir = False, st_size = 6, st_mtime = 0, st_ctime = 0\<rparr>" "''abcdef''" 5
        ?sched "[]" False False "\<lambda>_. ReadErr 5"]
    by (auto simp: ReadSmallFile_new_def)
qed

end
