(* ===== verification/Exception.thy ===== *)
theory Exception
  imports Printf
begin

text \<open>
  base/Exception.h and base/Exception.cc: a message and the stack trace, which is the text of the frames that backtrace\_symbols returns, a null pointer if it
  has no memory; the array of 200 frames is the argument's bound.
\<close>

record exception =
  ex_message :: string
  ex_stack :: string

definition Exception_fillStackTrack :: "(nat \<Rightarrow> string list option) \<Rightarrow> exception \<Rightarrow> exception" where
  "Exception_fillStackTrack symbols ex =
     (case symbols 200 of
        Some strings \<Rightarrow> foldl (\<lambda>ex str. ex\<lparr>ex_stack := ex_stack ex @ c_string str @ [CHR 0x0A]\<rparr>) ex strings
      | None \<Rightarrow> ex)"

definition Exception_new :: "(nat \<Rightarrow> string list option) \<Rightarrow> string \<Rightarrow> exception" where
  "Exception_new symbols what_str = Exception_fillStackTrack symbols \<lparr>ex_message = what_str, ex_stack = []\<rparr>"

definition Exception_new_cstring :: "(nat \<Rightarrow> string list option) \<Rightarrow> string \<Rightarrow> exception" where
  "Exception_new_cstring symbols what_str =
     Exception_fillStackTrack symbols \<lparr>ex_message = c_string what_str, ex_stack = []\<rparr>"

definition Exception_what :: "exception \<Rightarrow> string" where
  "Exception_what ex = c_string (ex_message ex)"

definition Exception_stackTrace :: "exception \<Rightarrow> string" where
  "Exception_stackTrace ex = c_string (ex_stack ex)"

lemma fillStackTrack_text:
  "foldl (\<lambda>ex str. ex\<lparr>ex_stack := ex_stack ex @ c_string str @ [CHR 0x0A]\<rparr>) ex strings
    = ex\<lparr>ex_stack := ex_stack ex @ concat (map (\<lambda>str. c_string str @ [CHR 0x0A]) strings)\<rparr>"
  by (induction strings arbitrary: ex) simp_all

lemma c_string_printable: "CHR 0x00 \<notin> set (c_string str)"
  by (auto simp: c_string_def dest: set_takeWhileD)

lemma c_string_whole: "CHR 0x00 \<notin> set str \<Longrightarrow> c_string str = str"
  unfolding c_string_def by (subst takeWhile_eq_all_conv) auto

text \<open>The trace has one line for each frame, the message is what the caller gave up to a zero.\<close>

lemma Exception_texts:
  "symbols 200 = Some strings \<Longrightarrow>
     Exception_stackTrace (Exception_new symbols m) = concat (map (\<lambda>str. c_string str @ [CHR 0x0A]) strings)"
  "Exception_what (Exception_new symbols m) = c_string m"
  "Exception_what (Exception_new_cstring symbols m) = Exception_what (Exception_new symbols m)"
proof -
  have "CHR 0x00 \<notin> set (concat (map (\<lambda>str. c_string str @ [CHR 0x0A]) strings))" for strings :: "string list"
    by (auto simp: c_string_printable)
  then have whole: "c_string (concat (map (\<lambda>str. c_string str @ [CHR 0x0A]) strings))
      = concat (map (\<lambda>str. c_string str @ [CHR 0x0A]) strings)" for strings
    by (intro c_string_whole)
  then show "symbols 200 = Some strings \<Longrightarrow>
     Exception_stackTrace (Exception_new symbols m) = concat (map (\<lambda>str. c_string str @ [CHR 0x0A]) strings)"
    by (simp add: Exception_stackTrace_def Exception_new_def Exception_fillStackTrack_def fillStackTrack_text)
  show "Exception_what (Exception_new symbols m) = c_string m"
    by (simp add: Exception_what_def Exception_new_def Exception_fillStackTrack_def fillStackTrack_text
        split: option.split)
  moreover have "c_string (c_string m) = c_string m" by (simp add: c_string_def)
  ultimately show "Exception_what (Exception_new_cstring symbols m) = Exception_what (Exception_new symbols m)"
    by (simp add: Exception_what_def Exception_new_cstring_def Exception_fillStackTrack_def fillStackTrack_text
        split: option.split)
qed

end
