(* ===== verification/FileTests.thy ===== *)
theory FileTests
  imports FileUtil Exception
begin

text \<open>
  FileUtil\_test.cc and Exception\_test.cc of base/tests: programs that print what the library returns. Their
  results are the values they print.
\<close>

section \<open>FileUtil\_test\<close>

text \<open>
  The files of a system: what open, fstat, read and close do for a name; the state of a file that is being read is its
  offset and the number of calls. The object of readFile lies on the stack.
\<close>

record file_system =
  fs_open :: "string \<Rightarrow> int + int"
  fs_stat :: "string \<Rightarrow> int + file_stat"
  fs_read :: "string \<Rightarrow> (nat \<times> nat) read"
  fs_close :: "nat \<Rightarrow> int option"
  fs_stack :: string

text \<open>
  A call of readFile with the variables data and size of the program, and the line that is printed: the error, the
  length of data and size. The object of readFile is destroyed when it returns.
\<close>

definition test_read ::
  "file_system \<Rightarrow> string \<Rightarrow> int \<Rightarrow> bool \<Rightarrow> string \<times> int \<Rightarrow> ((int \<times> nat \<times> int) \<times> string \<times> int) result" where
  "test_read fs filename maxSize with_size st =
     bindE (readFile (fs_open fs) (fs_stack fs) (fs_read fs filename) (0, 0) (fs_stat fs filename) filename maxSize
              (fst st) with_size False False) (\<lambda>r.
     bindE (of_loop (ReadSmallFile_destroy (fs_close fs) (ReadSmallFile_new (fs_open fs filename) (fs_stack fs)))) (\<lambda>_.
     let sz = (case rs_fileSize r of Some v \<Rightarrow> v | None \<Rightarrow> snd st) in
     Inr ((rs_err r, length (rs_data r), sz), rs_data r, sz)))"

primrec test_reads ::
  "file_system \<Rightarrow> (string \<times> int \<times> bool) list \<Rightarrow> string \<times> int \<Rightarrow> (int \<times> nat \<times> int) list result" where
  "test_reads fs [] st = Inr []"
| "test_reads fs (c # cs) st =
     bindE (test_read fs (fst c) (fst (snd c)) (snd (snd c)) st) (\<lambda>(line, st).
     bindE (test_reads fs cs st) (\<lambda>lines. Inr (line # lines)))"

definition header_name :: string where
  "header_name = ''/home/sniper/github/MyNet/MyNet/base/Thread.h''"

definition FileUtil_test_calls :: "(string \<times> int \<times> bool) list" where
  "FileUtil_test_calls =
     [(''/proc/self'', 1024, True), (''/proc/self'', 1024, False), (''/proc/self/syscall'', 1024, True),
      (''/proc/self/cmdline'', 1024, True), (''/dev/zero'', 102400, False),
      (header_name, 1024, True), (header_name, 102400, True)]"

definition FileUtil_test_write :: "(string \<Rightarrow> bool) \<Rightarrow> fwrite \<Rightarrow> (nat \<times> write_file) result" where
  "FileUtil_test_write opens fw =
     (let tmp = ''abcdef'' @ [CHR 0x0A] in
      bindE (of_loop (WriteFile_writeLine fw tmp (WriteFile_new opens ''/tmp/aaa''))) (\<lambda>(_, f).
      Inr (WriteFile_WritenBytes f, WriteFile_destroy (WriteFile_flush f))))"

definition FileUtil_test ::
  "file_system \<Rightarrow> (string \<Rightarrow> bool) \<Rightarrow> fwrite \<Rightarrow> ((int \<times> nat \<times> int) list \<times> nat \<times> write_file) result" where
  "FileUtil_test fs opens fw =
     bindE (test_reads fs FileUtil_test_calls ([], 0)) (\<lambda>lines.
     bindE (FileUtil_test_write opens fw) (\<lambda>(written, f). Inr (lines, written, f)))"

text \<open>A system that opens every file, and closes it unless it is interrupted for ever.\<close>

definition fs_works :: "file_system \<Rightarrow> bool" where
  "fs_works fs \<longleftrightarrow> (\<forall>name. \<exists>fd \<ge> 0. fs_open fs name = Inr fd) \<and> (\<exists>i. fs_close fs i \<noteq> Some EINTR)"

lemma destroy_returns:
  assumes "fs_works fs"
  shows "\<exists>n. ReadSmallFile_destroy (fs_close fs) f = Some n"
proof -
  obtain i where i: "fs_close fs i \<noteq> Some EINTR" using assms by (auto simp: fs_works_def)
  have "\<exists>n. ReadSmallFile_close_loop (fs_close fs) j = Some n" if "j \<le> i" for j
    using that
  proof (induction "i - j" arbitrary: j)
    case 0
    then show ?case using i by (subst ReadSmallFile_close_loop.simps) auto
  next
    case (Suc d)
    then show ?case by (subst ReadSmallFile_close_loop.simps) auto
  qed
  then show ?thesis by (simp add: ReadSmallFile_destroy_def)
qed

lemma test_read_eq:
  assumes "fs_works fs" and "readFile (fs_open fs) (fs_stack fs) (fs_read fs name) (0, 0) (fs_stat fs name) name n data want False False
      = Inr r"
  shows "test_read fs name n want (data, sz)
    = Inr ((rs_err r, length (rs_data r), case rs_fileSize r of Some v \<Rightarrow> v | None \<Rightarrow> sz), rs_data r,
        case rs_fileSize r of Some v \<Rightarrow> v | None \<Rightarrow> sz)"
  using destroy_returns [OF assms(1), of "ReadSmallFile_new (fs_open fs name) (fs_stack fs)"] assms(2)
  by (auto simp: test_read_def Let_def split: option.split)

lemma new_works: "fs_works fs \<Longrightarrow> 0 \<le> m_fd (ReadSmallFile_new (fs_open fs name) g) \<and> m_err (ReadSmallFile_new (fs_open fs name) g) = 0"
  by (auto simp: fs_works_def ReadSmallFile_new_def dest: spec [of _ name])

text \<open>A regular file of a size that is true, and what is no regular file.\<close>

lemma test_read_regular:
  assumes "fs_works fs" and "fs_stat fs name = Inr st" "st_isreg st" "\<not> st_isdir st" "st_size st = int (length content)"
    and "fs_read fs name = file_read content sched" "uninterrupted sched" "0 \<le> n" "n < 2 ^ 63"
  shows "test_read fs name n True (data, sz)
    = Inr ((0, length (take (nat n) content), int (length content)), take (nat n) content, int (length content))"
proof -
  note opened = new_works [OF assms(1), of name "fs_stack fs"]
  obtain r where "readFile (fs_open fs) (fs_stack fs) (fs_read fs name) (0, 0) (fs_stat fs name) name n data True False False = Inr r"
      "rs_err r = 0" "rs_data r = take (nat n) content" "rs_fileSize r = Some (int (length content))"
    using readToString_regular [OF conjunct1 [OF opened] assms(3-5,8,9,7), of data False False] opened assms(2,6)
    by (auto simp: readFile_def)
  then show ?thesis using test_read_eq [OF assms(1)] by simp
qed

lemma test_read_nothing:
  assumes "fs_works fs" and "fs_stat fs name = Inr st" and "st_isreg st \<longrightarrow> \<not> want"
  shows "test_read fs name n want (data, sz) = Inr ((if st_isdir st then EISDIR else 0, 0, sz), [], sz)"
  using test_read_eq [OF assms(1), of name n data want] new_works [OF assms(1), of name "fs_stack fs"] assms(2,3)
  by (auto simp: readFile_def ReadSmallFile_readToString_def Let_def)

text \<open>
  What the program prints on Linux: a directory is reported as such, the files of /proc and /dev/zero come out
  empty (the former say that their size is 0, the latter is not regular), and a regular file up to the
  size that is asked for. The line is written and flushed.
\<close>

lemma test_read_empty:
  assumes "fs_works fs" and "fs_stat fs name = Inr st" "st_isreg st" "\<not> st_isdir st" "st_size st = 0" and "0 \<le> n"
  shows "test_read fs name n want (data, sz) = Inr ((0, 0, if want then 0 else sz), [], if want then 0 else sz)"
  using test_read_eq [OF assms(1), of name n data want] new_works [OF assms(1), of name "fs_stack fs"] assms(2-)
  by (auto simp: readFile_def ReadSmallFile_readToString_def Let_def)

lemma FileUtil_test_prints:
  assumes works: "fs_works fs"
    and self: "fs_stat fs ''/proc/self'' = Inr st1" "\<not> st_isreg st1" "st_isdir st1"
    and syscall: "fs_stat fs ''/proc/self/syscall'' = Inr st2" "st_isreg st2" "\<not> st_isdir st2" "st_size st2 = 0"
    and cmdline: "fs_stat fs ''/proc/self/cmdline'' = Inr st3" "st_isreg st3" "\<not> st_isdir st3" "st_size st3 = 0"
    and zero: "fs_stat fs ''/dev/zero'' = Inr st4" "\<not> st_isreg st4" "\<not> st_isdir st4"
    and header: "fs_stat fs header_name = Inr st5" "st_isreg st5" "\<not> st_isdir st5" "st_size st5 = int (length text)"
      "fs_read fs header_name = file_read text sched" "uninterrupted sched"
  shows "test_reads fs FileUtil_test_calls ([], 0)
    = Inr [(21, 0, 0), (21, 0, 0), (0, 0, 0), (0, 0, 0), (0, 0, 0),
        (0, min 1024 (length text), int (length text)), (0, min 102400 (length text), int (length text))]"
proof -
  have self_read: "test_read fs ''/proc/self'' n want (data, sz) = Inr ((21, 0, sz), [], sz)" for n want data sz
    using test_read_nothing [OF works self(1), of want n data sz] self by (simp add: EISDIR_def)
  have zero_read: "test_read fs ''/dev/zero'' n want (data, sz) = Inr ((0, 0, sz), [], sz)" for n want data sz
    using test_read_nothing [OF works zero(1), of want n data sz] zero by simp
  note proc_read = test_read_empty [OF works syscall] test_read_empty [OF works cmdline]
  have header_read: "test_read fs header_name (int n) True (data, sz)
      = Inr ((0, min n (length text), int (length text)), take n text, int (length text))" if "n < 2 ^ 63" for n data sz
    using test_read_regular [OF works header, of "int n" data sz] that by (simp add: min.commute)
  show ?thesis using header_read [of 1024] header_read [of 102400]
    by (simp add: FileUtil_test_calls_def self_read zero_read proc_read)
qed

lemma FileUtil_test_write_spec:
  assumes "fwrite_ok fw" and "fwrite_progress fw" and "\<forall>i n. \<not> snd (fw i n)"
  shows "\<exists>f. FileUtil_test_write opens fw = Inr (if opens ''/tmp/aaa'' then 7 else 0, f)
    \<and> wf_text f = (if opens ''/tmp/aaa'' then ''abcdef'' @ [CHR 0x0A] else [])
    \<and> wf_flushed f = length (wf_text f)"
proof (cases "opens ''/tmp/aaa''")
  case True
  let ?line = "''abcdef'' @ [CHR 0x0A]" and ?f = "WriteFile_new opens ''/tmp/aaa''"
  obtain f k where "writeLine_loop fw ?line (length ?line) 0 ?f = Some f" "wf_text f = wf_text ?f @ take k (drop 0 ?line)"
      "wf_error f \<or> k = 7" "m_nBytesWritten f = m_nBytesWritten ?f" "m_valid f = m_valid ?f" "wf_error f = wf_error ?f"
    using writeLine_loop_spec [OF assms(1,2), of 0 "length ?line" ?line ?f] assms(3) by (auto simp: size_mod_def)
  then show ?thesis using True
    by (auto simp: FileUtil_test_write_def WriteFile_writeLine_def WriteFile_new_def WriteFile_WritenBytes_def WriteFile_flush_def
        WriteFile_destroy_def size_add_exact size_mod_def)
next
  case False
  then show ?thesis
    by (simp add: FileUtil_test_write_def WriteFile_writeLine_def WriteFile_new_def WriteFile_WritenBytes_def
        WriteFile_flush_def WriteFile_destroy_def)
qed

section \<open>Exception\_test\<close>

text \<open>The exception passes through ATest::test and call to main, which prints the two lines.\<close>

definition ATest_test :: "(nat \<Rightarrow> string list option) \<Rightarrow> exception + unit" where
  "ATest_test symbols = Inl (Exception_new_cstring symbols (''oop'' @ ''s''))"

definition call :: "(nat \<Rightarrow> string list option) \<Rightarrow> exception + unit" where
  "call symbols = ATest_test symbols"

definition Exception_test :: "(nat \<Rightarrow> string list option) \<Rightarrow> string list" where
  "Exception_test symbols =
     (case call symbols of
        Inl e \<Rightarrow> [''exception message : '' @ Exception_what e @ [CHR 0x0A],
                 ''exception stack: '' @ Exception_stackTrace e @ [CHR 0x0A]]
      | Inr _ \<Rightarrow> [])"

lemma Exception_test_prints:
  assumes "symbols 200 = Some strings"
  shows "Exception_test symbols =
    [''exception message : oop'' @ [CHR ''s'', CHR 0x0A],
     ''exception stack: '' @ concat (map (\<lambda>str. c_string str @ [CHR 0x0A]) strings) @ [CHR 0x0A]]"
proof -
  have message: "Exception_new_cstring symbols (''oop'' @ ''s'') = Exception_new symbols (''oop'' @ ''s'')"
    by (simp add: Exception_new_cstring_def Exception_new_def c_string_def)
  have "c_string (''oop'' @ ''s'') = ''oop'' @ ''s''" by (simp add: c_string_def)
  then show ?thesis
    using Exception_texts(1) [of symbols strings "''oop'' @ ''s''", OF assms] Exception_texts(2) [of symbols "''oop'' @ ''s''"] message
    by (simp add: Exception_test_def call_def ATest_test_def)
qed

end
