(* ===== verification/LogStream.thy ===== *)
theory LogStream
  imports Printf
begin

text \<open>
  base/LogStream.h and base/LogStream.cc: the fixed-size buffer that log lines are built in, the
  stream with its output operators, the integer and pointer formatting, and Fmt. The storage of
  a buffer is a list of characters as long as the template argument; the current position is an
  index into it. A write past the storage is the fault OutOfRange, so that the absence of buffer
  overruns is a statement. The characters of a number are produced by the loops of the code; the
  locale of positional numerals says once, for both bases, what such a loop computes.
\<close>

section \<open>FixedBuffer\<close>

datatype cookie = cookieStart | cookieEnd

record fixed_buffer =
  m_buff :: string
  m_cur :: nat
  m_cookie :: cookie

definition kSmallBuffer :: nat where
  "kSmallBuffer = 4000"

definition kLargeBuffer :: nat where
  "kLargeBuffer = 4000 * 1000"

definition FixedBuffer_setCookie :: "cookie \<Rightarrow> fixed_buffer \<Rightarrow> fixed_buffer" where
  "FixedBuffer_setCookie c b = b\<lparr>m_cookie := c\<rparr>"

text \<open>The constructor leaves the storage as it finds it.\<close>

definition FixedBuffer_new :: "string \<Rightarrow> fixed_buffer" where
  "FixedBuffer_new mem =
     FixedBuffer_setCookie cookieStart \<lparr>m_buff = mem, m_cur = 0, m_cookie = cookieStart\<rparr>"

definition FixedBuffer_destroy :: "fixed_buffer \<Rightarrow> fixed_buffer" where
  "FixedBuffer_destroy b = FixedBuffer_setCookie cookieEnd b"

definition FixedBuffer_avail :: "fixed_buffer \<Rightarrow> nat" where
  "FixedBuffer_avail b = size_sub (length (m_buff b)) (m_cur b)"

definition FixedBuffer_length :: "fixed_buffer \<Rightarrow> nat" where
  "FixedBuffer_length b = m_cur b"

definition FixedBuffer_append :: "string \<Rightarrow> fixed_buffer \<Rightarrow> nat \<times> fixed_buffer" where
  "FixedBuffer_append line b =
     (let len = length line in
      if len \<le> FixedBuffer_avail b
      then (len, b\<lparr>m_buff := overwrite (m_cur b) line (m_buff b), m_cur := m_cur b + len\<rparr>)
      else (0, b))"

definition FixedBuffer_appendPartial :: "string \<Rightarrow> fixed_buffer \<Rightarrow> nat \<times> fixed_buffer" where
  "FixedBuffer_appendPartial line b =
     (let len = length line in
      if len \<le> FixedBuffer_avail b
      then (len, b\<lparr>m_buff := overwrite (m_cur b) line (m_buff b), m_cur := m_cur b + len\<rparr>)
      else let nappend = FixedBuffer_avail b in
           (nappend, b\<lparr>m_buff := overwrite (m_cur b) (take nappend line) (m_buff b),
                       m_cur := m_cur b + nappend\<rparr>))"

definition FixedBuffer_add :: "nat \<Rightarrow> fixed_buffer \<Rightarrow> fixed_buffer" where
  "FixedBuffer_add len b = b\<lparr>m_cur := m_cur b + len\<rparr>"

definition FixedBuffer_reset :: "fixed_buffer \<Rightarrow> fixed_buffer" where
  "FixedBuffer_reset b = b\<lparr>m_cur := 0\<rparr>"

definition FixedBuffer_bzero :: "fixed_buffer \<Rightarrow> fixed_buffer" where
  "FixedBuffer_bzero b = b\<lparr>m_buff := replicate (length (m_buff b)) (CHR 0x00)\<rparr>"

definition FixedBuffer_asString :: "fixed_buffer \<Rightarrow> string" where
  "FixedBuffer_asString b = take (m_cur b) (m_buff b)"

text \<open>Storing characters at the current position, as convert does through a bare pointer.\<close>

definition store_at :: "nat \<Rightarrow> string \<Rightarrow> fixed_buffer \<Rightarrow> fixed_buffer result" where
  "store_at p cs b =
     (if p + length cs \<le> length (m_buff b)
      then Inr (b\<lparr>m_buff := overwrite p cs (m_buff b)\<rparr>) else Inl OutOfRange)"

section \<open>Formatting numbers\<close>

definition digits :: string where
  "digits = ''9876543210123456789''"

text \<open>zero points into the middle of the table, so a remainder of either sign indexes it.\<close>

definition zero_at :: "int \<Rightarrow> char" where
  "zero_at lsd = digits ! nat (9 + lsd)"

definition digitsHex :: string where
  "digitsHex = ''0123456789ABCDEF''"

lemma sdiv_10_decreases: "i sdiv 10 \<noteq> 0 \<Longrightarrow> \<bar>i sdiv (10::int)\<bar> < \<bar>i\<bar>"
  by (auto simp: signed_divide_int_def abs_mult)

text \<open>The do loop of convert: the characters it stores, from the least significant one on.\<close>

function convert_loop :: "int \<Rightarrow> string" where
  "convert_loop i =
     (let lsd = i smod 10; i' = i sdiv 10 in
      zero_at lsd # (if i' \<noteq> 0 then convert_loop i' else []))"
  by pat_completeness auto
termination
  by (relation "measure (\<lambda>i. nat \<bar>i\<bar>)") (auto simp: sdiv_10_decreases)

declare convert_loop.simps [simp del]

definition convert_chars :: "int \<Rightarrow> string" where
  "convert_chars v = rev (convert_loop v @ (if v < 0 then ''-'' else []))"

definition convert :: "nat \<Rightarrow> int \<Rightarrow> fixed_buffer \<Rightarrow> (nat \<times> fixed_buffer) result" where
  "convert p v b =
     bindE (store_at p (convert_chars v @ [CHR 0x00]) b) (\<lambda>b'. Inr (length (convert_chars v), b'))"

fun convertHex_loop :: "nat \<Rightarrow> string" where
  "convertHex_loop i =
     digitsHex ! (i mod 16) # (if i div 16 \<noteq> 0 then convertHex_loop (i div 16) else [])"

declare convertHex_loop.simps [simp del]

definition convertHex_chars :: "64 word \<Rightarrow> string" where
  "convertHex_chars v = rev (convertHex_loop (unat v))"

definition convertHex :: "nat \<Rightarrow> 64 word \<Rightarrow> fixed_buffer \<Rightarrow> (nat \<times> fixed_buffer) result" where
  "convertHex p v b =
     bindE (store_at p (convertHex_chars v @ [CHR 0x00]) b)
       (\<lambda>b'. Inr (length (convertHex_chars v), b'))"

section \<open>LogStream\<close>

text \<open>The stream's only member is its buffer, a FixedBuffer of kSmallBuffer characters.\<close>

type_synonym log_stream = fixed_buffer

definition kMaxNumericSize :: nat where
  "kMaxNumericSize = 32"

definition LogStream_formatInteger :: "int \<Rightarrow> log_stream \<Rightarrow> log_stream result" where
  "LogStream_formatInteger v s =
     (if kMaxNumericSize \<le> FixedBuffer_avail s
      then bindE (convert (m_cur s) v s) (\<lambda>(len, s'). Inr (FixedBuffer_add len s'))
      else Inr s)"

definition LogStream_append :: "string \<Rightarrow> log_stream \<Rightarrow> nat \<times> log_stream" where
  "LogStream_append line s = FixedBuffer_append line s"

definition LogStream_string :: "string \<Rightarrow> log_stream \<Rightarrow> log_stream" where
  "LogStream_string line s = snd (FixedBuffer_append line s)"

definition LogStream_cstring :: "string \<Rightarrow> log_stream \<Rightarrow> log_stream" where
  "LogStream_cstring line s = snd (FixedBuffer_append (c_string line) s)"

definition LogStream_bool :: "bool \<Rightarrow> log_stream \<Rightarrow> log_stream" where
  "LogStream_bool b s = snd (FixedBuffer_append [if b then CHR ''1'' else CHR ''0''] s)"

definition LogStream_char :: "char \<Rightarrow> log_stream \<Rightarrow> log_stream" where
  "LogStream_char c s = snd (FixedBuffer_append [c] s)"

definition LogStream_uchar :: "8 word \<Rightarrow> log_stream \<Rightarrow> log_stream" where
  "LogStream_uchar uc s = LogStream_char (char_of (unat uc)) s"

definition LogStream_int :: "32 word \<Rightarrow> log_stream \<Rightarrow> log_stream result" where
  "LogStream_int i s = LogStream_formatInteger (sint i) s"

definition LogStream_uint :: "32 word \<Rightarrow> log_stream \<Rightarrow> log_stream result" where
  "LogStream_uint ui s = LogStream_formatInteger (uint ui) s"

definition LogStream_short :: "16 word \<Rightarrow> log_stream \<Rightarrow> log_stream result" where
  "LogStream_short v s = LogStream_int (scast v) s"

definition LogStream_ushort :: "16 word \<Rightarrow> log_stream \<Rightarrow> log_stream result" where
  "LogStream_ushort us s = LogStream_uint (ucast us) s"

definition LogStream_long :: "64 word \<Rightarrow> log_stream \<Rightarrow> log_stream result" where
  "LogStream_long l s = LogStream_formatInteger (sint l) s"

definition LogStream_llong :: "64 word \<Rightarrow> log_stream \<Rightarrow> log_stream result" where
  "LogStream_llong ll s = LogStream_formatInteger (sint ll) s"

definition LogStream_ulong :: "64 word \<Rightarrow> log_stream \<Rightarrow> log_stream result" where
  "LogStream_ulong ul s = LogStream_formatInteger (uint ul) s"

definition LogStream_ullong :: "64 word \<Rightarrow> log_stream \<Rightarrow> log_stream result" where
  "LogStream_ullong ull s = LogStream_formatInteger (uint ull) s"

definition LogStream_pointer :: "64 word \<Rightarrow> log_stream \<Rightarrow> log_stream result" where
  "LogStream_pointer p s =
     (if kMaxNumericSize \<le> FixedBuffer_avail s
      then let s1 = snd (FixedBuffer_append ''0x'' s) in
           bindE (convertHex (m_cur s1) p s1) (\<lambda>(len, s2). Inr (FixedBuffer_add len s2))
      else Inr s)"

text \<open>
  The text snprintf produces for a double under the format %.12g is a parameter. snprintf stores
  at most one character less than the size it is given and a terminator, and returns the length
  of the whole text.
\<close>

definition LogStream_double :: "('d \<Rightarrow> string) \<Rightarrow> 'd \<Rightarrow> log_stream \<Rightarrow> log_stream result" where
  "LogStream_double fmt12g d s =
     (if kMaxNumericSize \<le> FixedBuffer_avail s
      then bindE (store_at (m_cur s) (snprintf_chars kMaxNumericSize (fmt12g d)) s)
             (\<lambda>s'. Inr (FixedBuffer_add (length (fmt12g d)) s'))
      else Inr s)"

text \<open>The operator for float calls itself; a call that does not return is None.\<close>

partial_function (option) LogStream_float :: "'f \<Rightarrow> log_stream \<Rightarrow> log_stream option" where
  "LogStream_float f s = LogStream_float f s"

definition LogStream_resetBuffer :: "log_stream \<Rightarrow> log_stream" where
  "LogStream_resetBuffer s = FixedBuffer_reset s"

section \<open>Fmt\<close>

record fmt =
  fmt_buf :: string
  fmt_len :: nat

text \<open>A format is the function from the argument to the text that snprintf produces.\<close>

definition Fmt_new :: "(int \<Rightarrow> string) \<Rightarrow> int \<Rightarrow> fmt result" where
  "Fmt_new format v =
     (let f = \<lparr>fmt_buf = snprintf_chars 32 (format v), fmt_len = length (format v)\<rparr> in
      assert_then (fmt_len f < 32) (Inr f))"

definition LogStream_fmt :: "fmt \<Rightarrow> log_stream \<Rightarrow> log_stream" where
  "LogStream_fmt f s = snd (LogStream_append (take (fmt_len f) (fmt_buf f)) s)"

section \<open>Buffers\<close>

definition fb_inv :: "fixed_buffer \<Rightarrow> bool" where
  "fb_inv b \<longleftrightarrow> m_cur b \<le> length (m_buff b) \<and> length (m_buff b) < size_mod"

lemma fb_avail: "fb_inv b \<Longrightarrow> FixedBuffer_avail b = length (m_buff b) - m_cur b"
  by (simp add: fb_inv_def FixedBuffer_avail_def size_sub_exact)

lemma asString_overwrite:
  assumes "m_cur b + length cs \<le> length (m_buff b)"
  shows "FixedBuffer_asString (b\<lparr>m_buff := overwrite (m_cur b) cs (m_buff b),
                                m_cur := m_cur b + length cs\<rparr>) = FixedBuffer_asString b @ cs"
  using assms by (cases cs) (auto simp: FixedBuffer_asString_def overwrite_def min_def)

lemma asString_overwrite_prefix:
  assumes "m_cur b + length cs + length ds \<le> length (m_buff b)"
  shows "FixedBuffer_asString (b\<lparr>m_buff := overwrite (m_cur b) (cs @ ds) (m_buff b),
                                m_cur := m_cur b + length cs\<rparr>) = FixedBuffer_asString b @ cs"
  using assms by (cases cs) (auto simp: FixedBuffer_asString_def overwrite_def min_def)

lemma FixedBuffer_append_fits:
  assumes "fb_inv b" and "length line \<le> length (m_buff b) - m_cur b"
  shows "FixedBuffer_append line b = (length line,
      b\<lparr>m_buff := overwrite (m_cur b) line (m_buff b), m_cur := m_cur b + length line\<rparr>)"
  using assms by (simp add: FixedBuffer_append_def fb_avail Let_def)

lemma FixedBuffer_append_full:
  assumes "fb_inv b" and "length (m_buff b) - m_cur b < length line"
  shows "FixedBuffer_append line b = (0, b)"
  using assms by (simp add: FixedBuffer_append_def fb_avail Let_def)

lemma FixedBuffer_append_spec:
  assumes "fb_inv b" and "FixedBuffer_append line b = (n, b')"
  shows "fb_inv b' \<and> length (m_buff b') = length (m_buff b)
    \<and> FixedBuffer_asString b' = FixedBuffer_asString b @ take n line
    \<and> n = (if length line \<le> length (m_buff b) - m_cur b then length line else 0)
    \<and> m_cur b' = m_cur b + n"
proof (cases "length line \<le> length (m_buff b) - m_cur b")
  case True
  then show ?thesis
    using assms asString_overwrite [of b line] FixedBuffer_append_fits [OF assms(1) True]
    by (auto simp: fb_inv_def)
next
  case False
  then show ?thesis using assms FixedBuffer_append_full [OF assms(1)] by auto
qed

lemma FixedBuffer_appendPartial_spec:
  assumes "fb_inv b" and "FixedBuffer_appendPartial line b = (n, b')"
  shows "fb_inv b' \<and> length (m_buff b') = length (m_buff b)
    \<and> FixedBuffer_asString b' = FixedBuffer_asString b @ take n line
    \<and> n = min (length line) (length (m_buff b) - m_cur b)"
proof (cases "length line \<le> length (m_buff b) - m_cur b")
  case True
  then show ?thesis
    using assms asString_overwrite [of b line]
    by (auto simp: FixedBuffer_appendPartial_def fb_avail fb_inv_def Let_def)
next
  case False
  let ?k = "length (m_buff b) - m_cur b"
  have "length (take ?k line) = ?k" using False by simp
  then show ?thesis
    using False assms asString_overwrite [of b "take ?k line"]
    by (auto simp: FixedBuffer_appendPartial_def fb_avail fb_inv_def Let_def)
qed

section \<open>The loops of convert and convertHex\<close>

definition hex_value :: "char \<Rightarrow> nat" where
  "hex_value c = (let n = of_char c in if n < 65 then n - 48 else n - 55)"

lemma zero_at_nonneg: "d < 10 \<Longrightarrow> zero_at (int d) = dec_char d"
  by (drule less_10_cases) (auto simp: zero_at_def digits_def dec_char_def)

lemma zero_at_sym: "d < 10 \<Longrightarrow> zero_at (- int d) = zero_at (int d)"
  by (drule less_10_cases) (auto simp: zero_at_def digits_def)

lemma convert_loop_unfold_nat:
  "convert_loop (int n) = dec_char (n mod 10)
     # (if n div 10 \<noteq> 0 then convert_loop (int (n div 10)) else [])"
proof -
  have "int n smod 10 = int (n mod 10)" and "int n sdiv 10 = int (n div 10)"
    by (simp_all add: signed_divide_int_def signed_modulo_int_def zmod_int zdiv_int
        sgn_if minus_div_mult_eq_mod)
  then show ?thesis
    using zero_at_nonneg [of "n mod 10"] by (subst convert_loop.simps) (auto simp: Let_def)
qed

lemma convert_loop_neg: "convert_loop (- int n) = convert_loop (int n)"
proof (induction n rule: less_induct)
  case (less n)
  have q: "- int n sdiv 10 = - int (n div 10)" and m: "- int n smod 10 = - int (n mod 10)"
    by (simp_all add: signed_divide_int_def signed_modulo_int_def zmod_int zdiv_int sgn_if
        minus_div_mult_eq_mod [symmetric])
  have "convert_loop (- int n) = dec_char (n mod 10)
      # (if n div 10 \<noteq> 0 then convert_loop (- int (n div 10)) else [])"
    using q m zero_at_nonneg [of "n mod 10"] zero_at_sym [of "n mod 10"]
    by (subst convert_loop.simps) (simp add: Let_def)
  also have "\<dots> = convert_loop (int n)"
    using less.IH [of "n div 10"] unfolding convert_loop_unfold_nat [of n] by auto
  finally show ?case .
qed

lemma convert_loop_nonempty: "rev (convert_loop v) \<noteq> []"
  by (subst convert_loop.simps) (simp add: Let_def)

lemma convert_loop_abs: "convert_loop v = convert_loop (int (nat \<bar>v\<bar>))"
  using convert_loop_neg [of "nat \<bar>v\<bar>"] by (cases "0 \<le> v") simp_all

lemma hex_digit_value: "d < 16 \<Longrightarrow> hex_value (digitsHex ! d) = d"
proof -
  assume "d < 16"
  then have "d \<in> set [0..<16]" by simp
  moreover have "list_all (\<lambda>d. hex_value (digitsHex ! d) = d) [0..<16]" by code_simp
  ultimately show ?thesis unfolding list_all_iff by blast
qed

interpretation dec: positional 10 dec_char dec_value "\<lambda>n. convert_loop (int n)"
proof unfold_locales
  show "\<And>d. d < 10 \<Longrightarrow> dec_value (dec_char d) = d"
    by (drule less_10_cases) (auto simp: dec_value_def dec_char_def)
qed (simp_all add: convert_loop_unfold_nat)

interpretation hex: positional 16 "\<lambda>d. digitsHex ! d" hex_value convertHex_loop
proof unfold_locales
  show "\<And>n. convertHex_loop n = digitsHex ! (n mod 16)
      # (if n div 16 \<noteq> 0 then convertHex_loop (n div 16) else [])"
    by (rule convertHex_loop.simps)
qed (simp_all add: hex_digit_value)

section \<open>What the stream writes\<close>

text \<open>Reading back a hexadecimal numeral.\<close>

definition hexadecimal_value :: "string \<Rightarrow> nat" where
  "hexadecimal_value cs = foldl (\<lambda>acc c. hex_value c + 16 * acc) 0 cs"

lemma decimal_value_convert_chars: "decimal_value (convert_chars v) = v"
proof -
  let ?n = "nat \<bar>v\<bar>"
  let ?ds = "rev (convert_loop (int ?n))"
  have val: "foldl (\<lambda>acc c. dec_value c + 10 * acc) 0 ?ds = ?n"
    using dec.loop_value [of ?n] by (simp add: foldl_conv_foldr)
  have chars: "convert_chars v = (if v < 0 then CHR ''-'' # ?ds else ?ds)"
    unfolding convert_chars_def convert_loop_abs [of v] by simp
  have "CHR ''-'' \<notin> set ?ds"
    using dec.loop_digits [of "CHR ''-''" ?n] dec_char_not_minus by (metis set_rev)
  moreover have "?ds \<noteq> []" using convert_loop_nonempty by blast
  ultimately show ?thesis
    unfolding chars decimal_value_def using val
    by (auto split: list.splits)
qed

lemma hexadecimal_value_convertHex_chars: "hexadecimal_value (convertHex_chars v) = unat v"
  using hex.loop_value [of "unat v"]
  by (simp add: hexadecimal_value_def convertHex_chars_def foldl_conv_foldr)

lemma convert_chars_length:
  assumes "- (2 ^ 63) \<le> v" and "v < 2 ^ 64"
  shows "length (convert_chars v) \<le> 21"
proof -
  have "nat \<bar>v\<bar> < 10 ^ 20" using assms by (auto simp: nat_less_iff abs_less_iff)
  then have "length (convert_loop (int (nat \<bar>v\<bar>))) \<le> 20"
    by (intro dec.loop_length) simp_all
  then show ?thesis
    unfolding convert_chars_def convert_loop_abs [of v] by (cases "v < 0") simp_all
qed

lemma convertHex_chars_length: "length (convertHex_chars v) \<le> 16"
proof -
  have "unat v < 16 ^ 16" using unsigned_less [of v] by simp
  then show ?thesis using hex.loop_length [of 16 "unat v"] by (simp add: convertHex_chars_def)
qed

lemma store_number:
  assumes inv: "fb_inv s" and room: "k \<le> length (m_buff s) - m_cur s" and len: "length cs < k"
  shows "\<exists>s'. store_at (m_cur s) (cs @ [z]) s = Inr s' \<and> fb_inv (FixedBuffer_add (length cs) s')
    \<and> FixedBuffer_asString (FixedBuffer_add (length cs) s') = FixedBuffer_asString s @ cs
    \<and> length (m_buff s') = length (m_buff s)"
proof -
  have fit: "m_cur s + length cs + length [z] \<le> length (m_buff s)"
    using assms unfolding fb_inv_def by simp
  then show ?thesis
    using asString_overwrite_prefix [OF fit] inv
    by (auto simp: store_at_def FixedBuffer_add_def fb_inv_def)
qed

lemma formatInteger_spec:
  assumes inv: "fb_inv s" and range: "- (2 ^ 63) \<le> v" "v < 2 ^ 64"
  shows "\<exists>s'. LogStream_formatInteger v s = Inr s' \<and> fb_inv s'
    \<and> length (m_buff s') = length (m_buff s)
    \<and> FixedBuffer_asString s' = FixedBuffer_asString s
        @ (if kMaxNumericSize \<le> FixedBuffer_avail s then convert_chars v else [])"
proof (cases "kMaxNumericSize \<le> FixedBuffer_avail s")
  case True
  have "length (convert_chars v) < kMaxNumericSize"
    using convert_chars_length [OF range] by (simp add: kMaxNumericSize_def)
  then obtain s' where "store_at (m_cur s) (convert_chars v @ [CHR 0x00]) s = Inr s'"
      "fb_inv (FixedBuffer_add (length (convert_chars v)) s')"
      "FixedBuffer_asString (FixedBuffer_add (length (convert_chars v)) s')
        = FixedBuffer_asString s @ convert_chars v"
      "length (m_buff s') = length (m_buff s)"
    using store_number [OF inv, of kMaxNumericSize] True fb_avail [OF inv] by metis
  then show ?thesis
    using True by (simp add: LogStream_formatInteger_def convert_def FixedBuffer_add_def)
next
  case False
  then show ?thesis using inv by (simp add: LogStream_formatInteger_def)
qed

lemma pointer_spec:
  assumes inv: "fb_inv s"
  shows "\<exists>s'. LogStream_pointer p s = Inr s' \<and> fb_inv s' \<and> length (m_buff s') = length (m_buff s)
    \<and> FixedBuffer_asString s' = FixedBuffer_asString s
        @ (if kMaxNumericSize \<le> FixedBuffer_avail s then ''0x'' @ convertHex_chars p else [])"
proof (cases "kMaxNumericSize \<le> FixedBuffer_avail s")
  case True
  then have room: "32 \<le> length (m_buff s) - m_cur s"
    by (simp add: fb_avail [OF inv] kMaxNumericSize_def)
  obtain s1 where s1: "FixedBuffer_append ''0x'' s = (2, s1)" "fb_inv s1"
      "length (m_buff s1) = length (m_buff s)" "m_cur s1 = m_cur s + 2"
      "FixedBuffer_asString s1 = FixedBuffer_asString s @ ''0x''"
    using FixedBuffer_append_spec [OF inv, of "''0x''"] room
    by (cases "FixedBuffer_append ''0x'' s") auto
  have "length (convertHex_chars p) < 30"
    using convertHex_chars_length [of p] by simp
  then obtain s' where "store_at (m_cur s1) (convertHex_chars p @ [CHR 0x00]) s1 = Inr s'"
      "fb_inv (FixedBuffer_add (length (convertHex_chars p)) s')"
      "FixedBuffer_asString (FixedBuffer_add (length (convertHex_chars p)) s')
        = FixedBuffer_asString s1 @ convertHex_chars p"
      "length (m_buff s') = length (m_buff s1)"
    using store_number [OF s1(2), of 30] room s1(3,4) by force
  then show ?thesis
    using True s1 by (simp add: LogStream_pointer_def convertHex_def FixedBuffer_add_def)
next
  case False
  then show ?thesis using inv by (simp add: LogStream_pointer_def)
qed

section \<open>Properties of the stream\<close>

text \<open>
  C21. Formatting any integer of the types the stream accepts, from the most negative 64-bit
  value to the largest unsigned one, stays inside the buffer, and what it appends reads back as
  that integer; with less than kMaxNumericSize characters left it appends nothing.
\<close>

theorem formatInteger_roundtrip:
  assumes "fb_inv s" and "- (2 ^ 63) \<le> v" and "v < 2 ^ 64"
  shows "\<exists>s' cs. LogStream_formatInteger v s = Inr s' \<and> fb_inv s'
    \<and> FixedBuffer_asString s' = FixedBuffer_asString s @ cs
    \<and> (if kMaxNumericSize \<le> FixedBuffer_avail s then decimal_value cs = v \<and> cs \<noteq> []
       else cs = [])"
proof -
  have "convert_chars v \<noteq> []" using convert_loop_nonempty [of v] by (simp add: convert_chars_def)
  then show ?thesis
    using formatInteger_spec [OF assms] decimal_value_convert_chars [of v] by force
qed

definition sample_stream :: log_stream where
  "sample_stream = FixedBuffer_new (replicate 40 (CHR ''x''))"

lemma sample_stream_facts:
  "fb_inv sample_stream" "kMaxNumericSize \<le> FixedBuffer_avail sample_stream"
  "FixedBuffer_asString sample_stream = []"
proof -
  show inv: "fb_inv sample_stream"
    by (simp add: fb_inv_def sample_stream_def FixedBuffer_new_def FixedBuffer_setCookie_def
        size_mod_def)
  show "kMaxNumericSize \<le> FixedBuffer_avail sample_stream"
    unfolding fb_avail [OF inv]
    by (simp add: sample_stream_def FixedBuffer_new_def FixedBuffer_setCookie_def
        kMaxNumericSize_def)
  show "FixedBuffer_asString sample_stream = []"
    by (simp add: sample_stream_def FixedBuffer_asString_def FixedBuffer_new_def
        FixedBuffer_setCookie_def)
qed

theorem formatInteger_roundtrip_witness:
  "\<exists>s' cs. LogStream_formatInteger (- (2 ^ 63)) sample_stream = Inr s'
    \<and> FixedBuffer_asString s' = cs \<and> decimal_value cs = - (2 ^ 63)"
  using formatInteger_roundtrip [OF sample_stream_facts(1), of "- (2 ^ 63)"]
    sample_stream_facts(2,3) by auto

text \<open>
  Formatting a pointer stays inside the buffer and appends 0x and a hexadecimal numeral that
  reads back as the address, without leading zeros unless the address is null.
\<close>

theorem pointer_roundtrip:
  assumes "fb_inv s" and "kMaxNumericSize \<le> FixedBuffer_avail s"
  shows "\<exists>s' cs. LogStream_pointer p s = Inr s' \<and> fb_inv s'
    \<and> FixedBuffer_asString s' = FixedBuffer_asString s @ ''0x'' @ cs
    \<and> hexadecimal_value cs = unat p \<and> length cs \<le> 16 \<and> (p \<noteq> 0 \<longrightarrow> hex_value (hd cs) \<noteq> 0)"
proof -
  have "p \<noteq> 0 \<longrightarrow> hex_value (hd (convertHex_chars p)) \<noteq> 0"
    using hex.loop_no_leading_zero [of "unat p"]
    by (simp add: convertHex_chars_def hd_rev unat_gt_0)
  then show ?thesis
    using pointer_spec [OF assms(1), of p] assms(2) hexadecimal_value_convertHex_chars [of p]
      convertHex_chars_length [of p] by auto
qed

theorem pointer_roundtrip_witness:
  "\<exists>s' cs. LogStream_pointer 48879 sample_stream = Inr s'
    \<and> FixedBuffer_asString s' = ''0x'' @ cs \<and> hexadecimal_value cs = 48879"
  using pointer_roundtrip [OF sample_stream_facts(1,2), of 48879] sample_stream_facts(3) by auto

section \<open>Whole statements\<close>

text \<open>
  A logging statement is a chain of output operators. Each item goes through the operator of its
  type; a double carries the text that %.12g gives for it.
\<close>

datatype log_item =
    Str string | CStr string | Bool bool | Chr char | UChr "8 word"
  | Short "16 word" | UShort "16 word" | SInt "32 word" | UInt "32 word"
  | Long "64 word" | ULong "64 word" | LLong "64 word" | ULLong "64 word"
  | Ptr "64 word" | Dbl string

fun stream_put :: "log_item \<Rightarrow> log_stream \<Rightarrow> log_stream result" where
  "stream_put (Str x) s = Inr (LogStream_string x s)"
| "stream_put (CStr x) s = Inr (LogStream_cstring x s)"
| "stream_put (Bool x) s = Inr (LogStream_bool x s)"
| "stream_put (Chr x) s = Inr (LogStream_char x s)"
| "stream_put (UChr x) s = Inr (LogStream_uchar x s)"
| "stream_put (Short x) s = LogStream_short x s"
| "stream_put (UShort x) s = LogStream_ushort x s"
| "stream_put (SInt x) s = LogStream_int x s"
| "stream_put (UInt x) s = LogStream_uint x s"
| "stream_put (Long x) s = LogStream_long x s"
| "stream_put (ULong x) s = LogStream_ulong x s"
| "stream_put (LLong x) s = LogStream_llong x s"
| "stream_put (ULLong x) s = LogStream_ullong x s"
| "stream_put (Ptr x) s = LogStream_pointer x s"
| "stream_put (Dbl x) s = LogStream_double id x s"

fun stream_puts :: "log_item list \<Rightarrow> log_stream \<Rightarrow> log_stream result" where
  "stream_puts [] s = Inr s"
| "stream_puts (i # is) s = bindE (stream_put i s) (stream_puts is)"

text \<open>The text of an item, and whether the operator checks for numeric or for exact room.\<close>

fun item_text :: "log_item \<Rightarrow> string" where
  "item_text (Str x) = x"
| "item_text (CStr x) = c_string x"
| "item_text (Bool x) = [if x then CHR ''1'' else CHR ''0'']"
| "item_text (Chr x) = [x]"
| "item_text (UChr x) = [char_of (unat x)]"
| "item_text (Short x) = convert_chars (sint x)"
| "item_text (UShort x) = convert_chars (uint x)"
| "item_text (SInt x) = convert_chars (sint x)"
| "item_text (UInt x) = convert_chars (uint x)"
| "item_text (Long x) = convert_chars (sint x)"
| "item_text (ULong x) = convert_chars (uint x)"
| "item_text (LLong x) = convert_chars (sint x)"
| "item_text (ULLong x) = convert_chars (uint x)"
| "item_text (Ptr x) = ''0x'' @ convertHex_chars x"
| "item_text (Dbl x) = x"

fun is_text_item :: "log_item \<Rightarrow> bool" where
  "is_text_item (Str x) = True"
| "is_text_item (CStr x) = True"
| "is_text_item (Bool x) = True"
| "is_text_item (Chr x) = True"
| "is_text_item (UChr x) = True"
| "is_text_item i = False"

definition item_room :: "log_item \<Rightarrow> nat" where
  "item_room i = (if is_text_item i then length (item_text i) else kMaxNumericSize)"

fun item_ok :: "log_item \<Rightarrow> bool" where
  "item_ok (Dbl x) = (length x < kMaxNumericSize)"
| "item_ok i = True"

text \<open>What a chain of items leaves in a stream with \<open>room\<close> characters left.\<close>

fun stream_text :: "log_item list \<Rightarrow> nat \<Rightarrow> string" where
  "stream_text [] room = []"
| "stream_text (i # is) room =
     (if item_room i \<le> room then item_text i @ stream_text is (room - length (item_text i))
      else stream_text is room)"

definition put_spec :: "string \<Rightarrow> nat \<Rightarrow> log_stream \<Rightarrow> log_stream result \<Rightarrow> bool" where
  "put_spec str need s r \<longleftrightarrow> (\<exists>s'. r = Inr s' \<and> fb_inv s'
     \<and> length (m_buff s') = length (m_buff s)
     \<and> FixedBuffer_asString s' = FixedBuffer_asString s
         @ (if need \<le> length (m_buff s) - m_cur s then str else []))"

lemma put_append:
  "fb_inv s \<Longrightarrow> put_spec str (length str) s (Inr (snd (FixedBuffer_append str s)))"
  using FixedBuffer_append_spec [of s str]
  by (cases "FixedBuffer_append str s") (auto simp: put_spec_def)

lemma put_integer:
  "fb_inv s \<Longrightarrow> - (2 ^ 63) \<le> v \<Longrightarrow> v < 2 ^ 64 \<Longrightarrow>
     put_spec (convert_chars v) kMaxNumericSize s (LogStream_formatInteger v s)"
  using formatInteger_spec [of s v] by (auto simp: put_spec_def fb_avail)

lemma put_double:
  assumes "fb_inv s" and "length x < kMaxNumericSize"
  shows "put_spec x kMaxNumericSize s (LogStream_double id x s)"
proof (cases "kMaxNumericSize \<le> FixedBuffer_avail s")
  case True
  have "snprintf_chars kMaxNumericSize x = x @ [CHR 0x00]"
    using assms(2) by (simp add: snprintf_chars_def kMaxNumericSize_def)
  then show ?thesis
    using True store_number [OF assms(1) _ assms(2), of "CHR 0x00"] fb_avail [OF assms(1)]
    by (auto simp: put_spec_def LogStream_double_def FixedBuffer_add_def)
next
  case False
  then show ?thesis
    using assms by (simp add: put_spec_def LogStream_double_def fb_avail)
qed

lemma word_ranges:
  "- (2 ^ 63) \<le> sint (a :: 16 word)" "sint (a :: 16 word) < 2 ^ 64" "uint (a :: 16 word) < 2 ^ 64"
  "- (2 ^ 63) \<le> sint (b :: 32 word)" "sint (b :: 32 word) < 2 ^ 64" "uint (b :: 32 word) < 2 ^ 64"
  "- (2 ^ 63) \<le> sint (c :: 64 word)" "sint (c :: 64 word) < 2 ^ 64" "uint (c :: 64 word) < 2 ^ 64"
  using sint_greater_eq [of a] sint_less [of a] uint_bounded [of a]
    sint_greater_eq [of b] sint_less [of b] uint_bounded [of b]
    sint_greater_eq [of c] sint_less [of c] uint_bounded [of c]
  by simp_all

lemma uint_range_nonneg: "- (2 ^ 63) \<le> uint x"
  using unsigned_greater_eq [of x] by (rule order_trans [rotated]) simp

lemma short_promotes: "sint (scast (a :: 16 word) :: 32 word) = sint a"
  "uint (ucast (a :: 16 word) :: 32 word) = uint a"
  by (simp_all add: sint_up_scast is_up uint_up_ucast)

lemmas put_words =
  put_integer [OF _ word_ranges(1) word_ranges(2)]
  put_integer [OF _ uint_range_nonneg word_ranges(3)]
  put_integer [OF _ word_ranges(4) word_ranges(5)]
  put_integer [OF _ uint_range_nonneg word_ranges(6)]
  put_integer [OF _ word_ranges(7) word_ranges(8)]
  put_integer [OF _ uint_range_nonneg word_ranges(9)]

lemmas stream_text_defs =
  LogStream_string_def LogStream_cstring_def LogStream_bool_def LogStream_char_def
  LogStream_uchar_def

lemmas stream_number_defs =
  LogStream_short_def LogStream_ushort_def LogStream_int_def LogStream_uint_def
  LogStream_long_def LogStream_ulong_def LogStream_llong_def LogStream_ullong_def

lemma stream_put_text:
  "fb_inv s \<Longrightarrow> is_text_item i \<Longrightarrow> put_spec (item_text i) (item_room i) s (stream_put i s)"
  using put_append [of s "item_text i"]
  by (cases i) (simp_all add: item_room_def stream_text_defs)

lemma stream_put_number:
  "fb_inv s \<Longrightarrow> \<not> is_text_item i \<Longrightarrow> item_ok i \<Longrightarrow>
     put_spec (item_text i) (item_room i) s (stream_put i s)"
proof (cases i)
  case (Ptr p)
  then show "fb_inv s \<Longrightarrow> \<not> is_text_item i \<Longrightarrow> item_ok i \<Longrightarrow>
     put_spec (item_text i) (item_room i) s (stream_put i s)"
    using pointer_spec [of s p] by (auto simp: put_spec_def item_room_def fb_avail)
qed (simp_all add: item_room_def stream_number_defs short_promotes put_words put_double)

lemma stream_put_spec:
  assumes "fb_inv s" and "item_ok i"
  shows "put_spec (item_text i) (item_room i) s (stream_put i s)"
  using assms stream_put_text stream_put_number by blast

lemma asString_length: "fb_inv s \<Longrightarrow> length (FixedBuffer_asString s) = m_cur s"
  by (simp add: fb_inv_def FixedBuffer_asString_def)

lemma stream_puts_spec:
  assumes "fb_inv s" and "list_all item_ok is"
  shows "\<exists>s'. stream_puts is s = Inr s' \<and> fb_inv s' \<and> length (m_buff s') = length (m_buff s)
    \<and> FixedBuffer_asString s'
        = FixedBuffer_asString s @ stream_text is (length (m_buff s) - m_cur s)"
  using assms
proof (induction "is" arbitrary: s)
  case Nil
  then show ?case by simp
next
  case (Cons i "is")
  let ?room = "length (m_buff s) - m_cur s"
  let ?str = "if item_room i \<le> ?room then item_text i else []"
  obtain s1 where s1: "stream_put i s = Inr s1" "fb_inv s1" "length (m_buff s1) = length (m_buff s)"
      "FixedBuffer_asString s1 = FixedBuffer_asString s @ ?str"
    using stream_put_spec [OF Cons.prems(1), of i] Cons.prems(2) by (auto simp: put_spec_def)
  have "m_cur s1 = m_cur s + length ?str"
    using asString_length [OF s1(2)] asString_length [OF Cons.prems(1)] s1(4)
    by (metis length_append)
  then have "length (m_buff s1) - m_cur s1 = ?room - length ?str" using s1(3) by simp
  then show ?case using Cons.IH [OF s1(2)] Cons.prems(2) s1 by auto
qed

text \<open>
  C29. No chain of output operators on a stream overruns the buffer or faults. The stream ends up
  with its old text followed by the text of the items, where an item that does not find the room
  its operator asks for is left out as a whole. Doubles are covered as far as their text is
  shorter than the room reserved for a number.
\<close>

theorem stream_puts_text:
  assumes "fb_inv s" and "list_all item_ok is"
  shows "\<exists>s'. stream_puts is s = Inr s' \<and> fb_inv s' \<and> length (m_buff s') = length (m_buff s)
    \<and> FixedBuffer_asString s'
        = FixedBuffer_asString s @ stream_text is (length (m_buff s) - m_cur s)"
  using stream_puts_spec [OF assms] .

theorem stream_puts_text_witness:
  "\<exists>s'. stream_puts [SInt 10, CStr ''-'', SInt (- 20)] sample_stream = Inr s'
     \<and> FixedBuffer_asString s' = ''10--20''"
proof -
  have room: "length (m_buff sample_stream) - m_cur sample_stream = 40"
    by (simp add: sample_stream_def FixedBuffer_new_def FixedBuffer_setCookie_def)
  have "convert_chars 10 = ''10''" by code_simp
  moreover have "convert_chars (- 20) = ''-20''" by code_simp
  ultimately have "stream_text [SInt 10, CStr ''-'', SInt (- 20)] 40 = ''10--20''"
    by (simp add: item_room_def kMaxNumericSize_def c_string_def)
  then show ?thesis
    using stream_puts_text [OF sample_stream_facts(1), of "[SInt 10, CStr ''-'', SInt (- 20)]"]
      room sample_stream_facts(3) by fastforce
qed

text \<open>
  The output operator for float forwards to itself and not to the operator for double: a
  statement that logs a float never returns.
\<close>

theorem float_operator_diverges: "LogStream_float f s = None"
proof (rule ccontr)
  assume "LogStream_float f s \<noteq> None"
  then obtain r where "LogStream_float f s = Some r" by blast
  then show False
    by (rule LogStream_float.raw_induct [where P = "\<lambda>f s r. False", rotated]) blast
qed

end
