(* ===== verification/Date.thy ===== *)
theory Date
  imports Printf
begin

text \<open>
  base/Date.h and base/Date.cc: calendar dates as Julian day numbers. The conversions are the
  code's, with C's division, which rounds towards zero; a signed overflow of an intermediate
  value of type int is the fault Overflow. The calendar they are measured against is the one of
  the repository's own test: its leap year rule and its table of month lengths.
\<close>

section \<open>The code\<close>

record YearMonthDay =
  ymd_year :: int
  ymd_month :: int
  ymd_day :: int

text \<open>The conversion from the calendar, with every intermediate value of the expressions.\<close>

definition getJulianDayNum :: "int \<Rightarrow> int \<Rightarrow> int \<Rightarrow> int result" where
  "getJulianDayNum year month day =
     (let a = (14 - month) sdiv 12;
          y = year + 4800 - a;
          m = month + 12 * a - 3;
          s1 = day + (153 * m + 2) sdiv 5;
          s2 = s1 + y * 365;
          s3 = s2 + y sdiv 4;
          s4 = s3 - y sdiv 100;
          s5 = s4 + y sdiv 400 in
      checked32 [14 - month, year + 4800, y, 12 * a, month + 12 * a, m, 153 * m, 153 * m + 2,
                 s1, y * 365, s2, s3, s4, s5, s5 - 32045] (s5 - 32045))"

definition getYearMonthDay :: "int \<Rightarrow> YearMonthDay result" where
  "getYearMonthDay julianDayNumber =
     (let a = julianDayNumber + 32044;
          b = (4 * a + 3) sdiv 146097;
          c = a - (b * 146097) sdiv 4;
          d = (4 * c + 3) sdiv 1461;
          e = c - (1461 * d) sdiv 4;
          m = (5 * e + 2) sdiv 153 in
      checked32 [a, 4 * a, 4 * a + 3, b * 146097, c, 4 * c, 4 * c + 3, 1461 * d, e, 5 * e, 5 * e + 2,
                 153 * m, 153 * m + 2, b * 100, b * 100 + d]
        \<lparr>ymd_year = b * 100 + d - 4800 + m sdiv 10,
         ymd_month = m + 3 - 12 * (m sdiv 10),
         ymd_day = e - (153 * m + 2) sdiv 5 + 1\<rparr>)"

datatype date = Date (m_nJulianDayNum: int)

definition NumDaysPerWeek :: int where
  "NumDaysPerWeek = 7"

definition JulianDayOf1970_01_01 :: "int result" where
  "JulianDayOf1970_01_01 = getJulianDayNum 1970 1 1"

definition Date_default :: date where
  "Date_default = Date 0"

definition Date_ymd :: "int \<Rightarrow> int \<Rightarrow> int \<Rightarrow> date result" where
  "Date_ymd iyear imonth iday = bindE (getJulianDayNum iyear imonth iday) (\<lambda>j. Inr (Date j))"

text \<open>struct tm, as far as the library reads or writes it.\<close>

record tm =
  tm_sec :: int
  tm_min :: int
  tm_hour :: int
  tm_mday :: int
  tm_mon :: int
  tm_year :: int

definition Date_tm :: "tm \<Rightarrow> date result" where
  "Date_tm t =
     bindE (checked32 [tm_year t + 1900, tm_mon t + 1] ())
       (\<lambda>_. bindE (getJulianDayNum (tm_year t + 1900) (tm_mon t + 1) (tm_mday t))
         (\<lambda>j. Inr (Date j)))"

definition Date_julianDayNumber :: "date \<Rightarrow> int" where
  "Date_julianDayNumber x = m_nJulianDayNum x"

definition Date_toYearMonthDay :: "date \<Rightarrow> YearMonthDay result" where
  "Date_toYearMonthDay x = getYearMonthDay (m_nJulianDayNum x)"

definition Date_year :: "date \<Rightarrow> int result" where
  "Date_year x = bindE (Date_toYearMonthDay x) (\<lambda>ymd. Inr (ymd_year ymd))"

definition Date_month :: "date \<Rightarrow> int result" where
  "Date_month x = bindE (Date_toYearMonthDay x) (\<lambda>ymd. Inr (ymd_month ymd))"

definition Date_day :: "date \<Rightarrow> int result" where
  "Date_day x = bindE (Date_toYearMonthDay x) (\<lambda>ymd. Inr (ymd_day ymd))"

definition Date_valid :: "date \<Rightarrow> bool" where
  "Date_valid x = (m_nJulianDayNum x > 0)"

definition Date_weekDay :: "date \<Rightarrow> int result" where
  "Date_weekDay x =
     checked32 [Date_julianDayNumber x + 1] ((Date_julianDayNumber x + 1) smod NumDaysPerWeek)"

definition Date_toString :: "date \<Rightarrow> string result" where
  "Date_toString x =
     bindE (Date_toYearMonthDay x) (\<lambda>ymd.
       Inr (snprintf_string 32
         (fmt_d False 4 (ymd_year ymd) @ ''-'' @ fmt_d True 2 (ymd_month ymd) @ ''-''
          @ fmt_d True 2 (ymd_day ymd))))"

text \<open>The operators of the header make dates a linear order.\<close>

instantiation date :: linorder
begin

definition less_date :: "date \<Rightarrow> date \<Rightarrow> bool" where
  "less_date a b = (Date_julianDayNumber a < Date_julianDayNumber b)"

definition less_eq_date :: "date \<Rightarrow> date \<Rightarrow> bool" where
  "less_eq_date a b = (Date_julianDayNumber a \<le> Date_julianDayNumber b)"

instance
  by standard (auto simp: less_date_def less_eq_date_def Date_julianDayNumber_def date.expand)

end

definition Date_less :: "date \<Rightarrow> date \<Rightarrow> bool" where
  "Date_less a b = (Date_julianDayNumber a < Date_julianDayNumber b)"

definition Date_equal :: "date \<Rightarrow> date \<Rightarrow> bool" where
  "Date_equal a b = (Date_julianDayNumber a = Date_julianDayNumber b)"

section \<open>The calendar of the tests\<close>

definition isLeapYear :: "int \<Rightarrow> bool" where
  "isLeapYear year =
     (if year mod 400 = 0 then True else if year mod 100 = 0 then False else year mod 4 = 0)"

definition daysOfMonth :: "int \<Rightarrow> int \<Rightarrow> int" where
  "daysOfMonth year month =
     (if month = 2 then (if isLeapYear year then 29 else 28)
      else if month \<in> {4, 6, 9, 11} then 30 else 31)"

definition valid_ymd :: "YearMonthDay \<Rightarrow> bool" where
  "valid_ymd x \<longleftrightarrow> 1 \<le> ymd_month x \<and> ymd_month x \<le> 12
     \<and> 1 \<le> ymd_day x \<and> ymd_day x \<le> daysOfMonth (ymd_year x) (ymd_month x)"

text \<open>The day after a given one.\<close>

definition next_day :: "YearMonthDay \<Rightarrow> YearMonthDay" where
  "next_day x =
     (if ymd_day x < daysOfMonth (ymd_year x) (ymd_month x) then x\<lparr>ymd_day := ymd_day x + 1\<rparr>
      else if ymd_month x < 12 then x\<lparr>ymd_month := ymd_month x + 1, ymd_day := 1\<rparr>
      else \<lparr>ymd_year = ymd_year x + 1, ymd_month = 1, ymd_day = 1\<rparr>)"

section \<open>Days counted from the first of March\<close>

text \<open>
  The conversions count years from the first of March of the year -4800. \<open>march_days y\<close> is the
  number of days before year \<open>y\<close> of that count and \<open>month_days m\<close> that before its month \<open>m\<close>.
\<close>

definition march_days :: "int \<Rightarrow> int" where
  "march_days y = 365 * y + y div 4 - y div 100 + y div 400"

definition month_days :: "int \<Rightarrow> int" where
  "month_days m = (153 * m + 2) div 5"

lemma div_unique_int:
  fixes a :: int
  assumes "a = b * q + r" and "0 \<le> r" and "r < b"
  shows "a div b = q"
  using assms by (metis int_div_pos_eq)

lemma div_mod_bounds:
  fixes x k :: int
  assumes "0 < k"
  shows "x = k * (x div k) + x mod k" and "0 \<le> x mod k" and "x mod k < k"
  using assms by simp_all

lemma mod_4: "x mod 4 = x - 4 * (x div (4::int))"
  by (simp add: minus_mult_div_eq_mod)

lemma century_split:
  fixes b d :: int
  assumes d: "0 \<le> d" "d \<le> 99"
  shows "(100 * b + d) div 100 = b" and "(100 * b + d) div 4 = 25 * b + d div 4"
    and "(100 * b + d) div 400 = b div 4"
proof -
  show "(100 * b + d) div 100 = b" using d by simp
  show "(100 * b + d) div 4 = 25 * b + d div 4"
  proof (rule div_unique_int)
    show "100 * b + d = 4 * (25 * b + d div 4) + d mod 4" by simp
  qed simp_all
  show "(100 * b + d) div 400 = b div 4"
  proof (rule div_unique_int)
    show "100 * b + d = 400 * (b div 4) + (100 * (b mod 4) + d)"
      using div_mod_bounds(1) [of 4 b] by linarith
    show "0 \<le> 100 * (b mod 4) + d" using d div_mod_bounds(2) [of 4 b] by linarith
    show "100 * (b mod 4) + d < 400" using d div_mod_bounds(3) [of 4 b] by linarith
  qed
qed

lemma march_days_split:
  assumes "0 \<le> d" and "d \<le> 99"
  shows "march_days (100 * b + d) = 36524 * b + b div 4 + (365 * d + d div 4)"
  using century_split [OF assms] by (simp add: march_days_def)

lemma era_div: "(b * 146097) div 4 = 36524 * b + b div (4::int)"
  by (rule div_unique_int [where r = "b mod 4"]) simp_all

lemma quad_div: "(1461 * d) div 4 = 365 * d + d div (4::int)"
  by (rule div_unique_int [where r = "d mod 4"]) simp_all

lemma hundred_dvd_400: "(100::int) dvd 400"
  by simp

lemma leap_next_march:
  fixes b d :: int
  assumes "0 \<le> d" and "d \<le> 99"
  shows "isLeapYear (100 * b + d + 1) \<longleftrightarrow> d mod 4 = 3 \<and> (d = 99 \<longrightarrow> b mod 4 = 3)"
proof (cases "d = 99")
  case True
  have "(100 * b + 100) mod 400 = 100 * ((b + 1) mod 4)"
    using mult_mod_right [of 100 "b + 1" 4] by (simp add: algebra_simps)
  moreover have "(b + 1) mod 4 = 0 \<longleftrightarrow> b mod 4 = 3" by presburger
  ultimately show ?thesis using True by (simp add: isLeapYear_def add.commute)
next
  case False
  have "(100 * b + d + 1) mod 100 = d + 1"
    using assms False mod_mult_self4 [of 100 b "d + 1"] by (simp add: add.assoc)
  moreover have "(100 * b + d + 1) mod 400 = 0 \<Longrightarrow> (100 * b + d + 1) mod 100 = 0"
    by (metis (no_types) dvd_eq_mod_eq_0 dvd_trans hundred_dvd_400)
  moreover have "(100 * b + d + 1) mod 4 = 0 \<longleftrightarrow> d mod 4 = 3" by presburger
  ultimately show ?thesis using assms False by (auto simp: isLeapYear_def)
qed

text \<open>Splitting a day count into century, year and day of the year, as getYearMonthDay does.\<close>

lemma split_days:
  fixes b d e :: int
  assumes b: "0 \<le> b" and d: "0 \<le> d" "d \<le> 99" and e: "0 \<le> e" "e \<le> 365"
    and leap: "e = 365 \<Longrightarrow> isLeapYear (100 * b + d + 1)"
  defines "a \<equiv> march_days (100 * b + d) + e"
  shows "(4 * a + 3) div 146097 = b"
    and "(4 * (a - (36524 * b + b div 4)) + 3) div 1461 = d"
    and "a - (36524 * b + b div 4) - (365 * d + d div 4) = e"
proof -
  have a: "a = 36524 * b + b div 4 + (365 * d + d div 4) + e"
    by (simp add: a_def march_days_split [OF d])
  have l: "e = 365 \<Longrightarrow> d mod 4 = 3 \<and> (d = 99 \<longrightarrow> b mod 4 = 3)"
    using leap leap_next_march [OF d, of b] by simp
  note bq = div_mod_bounds [of 4 b, OF zero_less_numeral]
  note dq = div_mod_bounds [of 4 d, OF zero_less_numeral]
  let ?c = "365 * d + d div 4 + e"
  have "4 * e + 3 - d mod 4 < 1461" using e l dq by (cases "e = 365") auto
  moreover have "0 \<le> 4 * e + 3 - d mod 4" using e dq by linarith
  moreover have "4 * (a - (36524 * b + b div 4)) + 3 = 1461 * d + (4 * e + 3 - d mod 4)"
    unfolding a mod_4 by (simp add: algebra_simps)
  ultimately show "(4 * (a - (36524 * b + b div 4)) + 3) div 1461 = d"
    by (intro div_unique_int)
  have "d \<le> 98 \<Longrightarrow> d div 4 \<le> 24" and d24: "d div 4 \<le> 24" using d by simp_all
  then have "4 * ?c + 3 - b mod 4 < 146097" using e l d bq(2,3) by (cases "d = 99"; cases "e = 365") auto
  moreover have "0 \<le> ?c" using d e by (simp add: pos_imp_zdiv_nonneg_iff)
  then have "0 \<le> 4 * ?c + 3 - b mod 4" using bq(2,3) by (simp add: algebra_simps)
  moreover have "4 * a + 3 = 146097 * b + (4 * ?c + 3 - b mod 4)"
    unfolding a mod_4 by (simp add: algebra_simps)
  ultimately show "(4 * a + 3) div 146097 = b" by (intro div_unique_int)
  show "a - (36524 * b + b div 4) - (365 * d + d div 4) = e" using a by simp
qed

text \<open>The converse: every day count splits into parts within their ranges.\<close>

lemma split_days_bounds:
  fixes a :: int
  assumes a: "0 \<le> a"
  defines "b \<equiv> (4 * a + 3) div 146097"
  defines "c \<equiv> a - (36524 * b + b div 4)"
  defines "d \<equiv> (4 * c + 3) div 1461"
  defines "e \<equiv> c - (365 * d + d div 4)"
  shows "0 \<le> b" and "0 \<le> c" and "c \<le> 36524" and "0 \<le> d" and "d \<le> 99" and "0 \<le> e" and "e \<le> 365"
    and "e = 365 \<Longrightarrow> isLeapYear (100 * b + d + 1)" and "a = march_days (100 * b + d) + e"
proof -
  define r where "r = (4 * a + 3) mod 146097"
  define r2 where "r2 = (4 * c + 3) mod 1461"
  have ra: "4 * a + 3 = 146097 * b + r" and rb: "0 \<le> r" "r < 146097"
    unfolding b_def r_def by simp_all
  show b0: "0 \<le> b" using a unfolding b_def by simp
  have c4: "4 * c + 3 = r + b mod 4" using ra unfolding c_def mod_4 by (simp add: algebra_simps)
  have bm: "0 \<le> b mod 4" "b mod 4 < 4" by simp_all
  show c0: "0 \<le> c" using c4 rb bm by linarith
  show c1: "c \<le> 36524" using c4 rb bm by linarith
  have rc: "4 * c + 3 = 1461 * d + r2" and r2b: "0 \<le> r2" "r2 < 1461"
    unfolding d_def r2_def by simp_all
  show d0: "0 \<le> d" using c0 unfolding d_def by simp
  show d1: "d \<le> 99" using rc r2b c1 by linarith
  have e4: "4 * e + 3 = r2 + d mod 4" using rc unfolding e_def mod_4 by (simp add: algebra_simps)
  have dm: "0 \<le> d mod 4" "d mod 4 < 4" by simp_all
  show "0 \<le> e" using e4 r2b dm by linarith
  show "e \<le> 365" using e4 r2b dm by linarith
  show "isLeapYear (100 * b + d + 1)" if "e = 365"
  proof -
    have "d mod 4 = 3" using that e4 r2b dm by linarith
    moreover have "b mod 4 = 3" if "d = 99"
    proof -
      have "c = 36524" using \<open>e = 365\<close> that unfolding e_def by simp
      then show ?thesis using c4 rb bm by linarith
    qed
    ultimately show ?thesis using leap_next_march [OF d0 d1] by blast
  qed
  show "a = march_days (100 * b + d) + e"
    unfolding march_days_split [OF d0 d1] e_def c_def by simp
qed

lemma month_of_nat:
  "n \<in> {0, 1, 2, 3, 4, 5, 6, 7, 8, 9, 10, 11 :: nat}
     \<Longrightarrow> int n \<in> {0, 1, 2, 3, 4, 5, 6, 7, 8, 9, 10, 11}"
  by auto

lemma month_cases:
  fixes m :: int
  assumes "0 \<le> m" and "m \<le> 11"
  shows "m \<in> {0, 1, 2, 3, 4, 5, 6, 7, 8, 9, 10, 11}"
proof -
  have "m = int (nat m)" and "nat m < 12" using assms by simp_all
  moreover have "n \<in> {0, 1, 2, 3, 4, 5, 6, 7, 8, 9, 10, 11}" if "n < 12" for n :: nat
    using that by (simp add: less_Suc_eq eval_nat_numeral)
  ultimately show ?thesis by (metis (no_types) month_of_nat)
qed

text \<open>The calendar month and year of month \<open>m\<close> of the year \<open>y\<close> counted from March.\<close>

definition cal_month :: "int \<Rightarrow> int" where
  "cal_month m = m + 3 - 12 * (m div 10)"

definition cal_year :: "int \<Rightarrow> int \<Rightarrow> int" where
  "cal_year y m = y - 4800 + m div 10"

lemma isLeapYear_shift: "isLeapYear (y - 4800) = isLeapYear y"
proof -
  have "(y - 4800) mod 400 = y mod 400" "(y - 4800) mod 100 = y mod 100" "(y - 4800) mod 4 = y mod 4"
    using mod_diff_cong [of y 400 y 4800 0] mod_diff_cong [of y 100 y 4800 0]
      mod_diff_cong [of y 4 y 4800 0] by simp_all
  then show ?thesis by (simp add: isLeapYear_def)
qed

lemma daysOfMonth_march:
  assumes "0 \<le> m" and "m \<le> 11"
  shows "daysOfMonth (cal_year y m) (cal_month m)
    = (if m = 11 then (if isLeapYear (y + 1) then 29 else 28)
       else month_days (m + 1) - month_days m)"
proof -
  have "isLeapYear (y - 4799) = isLeapYear (y + 1)" using isLeapYear_shift [of "y + 1"] by simp
  then show ?thesis
    using month_cases [OF assms]
    by (auto simp: daysOfMonth_def cal_month_def cal_year_def month_days_def)
qed

lemma month_of_day:
  assumes "0 \<le> m" and "m \<le> 11" and "0 \<le> k" and "k < daysOfMonth (cal_year y m) (cal_month m)"
  shows "(5 * (month_days m + k) + 2) div 153 = m"
    and "month_days m + k \<le> 365"
    and "month_days m + k = 365 \<Longrightarrow> isLeapYear (y + 1)"
proof -
  let ?k = "5 * (month_days m + k) + 2 - 153 * m"
  have k: "k < (if m = 11 then (if isLeapYear (y + 1) then 29 else 28)
       else month_days (m + 1) - month_days m)"
    using assms(4) daysOfMonth_march [OF assms(1,2)] by simp
  have "0 \<le> ?k \<and> ?k < 153" using month_cases [OF assms(1,2)] k assms(3)
    by (auto simp: month_days_def split: if_splits)
  then show "(5 * (month_days m + k) + 2) div 153 = m"
    by (intro div_unique_int [where r = ?k]) simp_all
  show "month_days m + k \<le> 365" using month_cases [OF assms(1,2)] k
    by (auto simp: month_days_def split: if_splits)
  show "isLeapYear (y + 1)" if "month_days m + k = 365"
    using month_cases [OF assms(1,2)] k that
    by (auto simp: month_days_def split: if_splits)
qed

lemma month_of_day_bounds:
  fixes e :: int
  assumes "0 \<le> e" and "e \<le> 365" and leap: "e = 365 \<Longrightarrow> isLeapYear (y + 1)"
  defines "m \<equiv> (5 * e + 2) div 153"
  shows "0 \<le> m" and "m \<le> 11" and "0 \<le> e - month_days m"
    and "e - month_days m < daysOfMonth (cal_year y m) (cal_month m)"
proof -
  define r where "r = (5 * e + 2) mod 153"
  have r: "5 * e + 2 = 153 * m + r" "0 \<le> r" "r < 153" unfolding m_def r_def by simp_all
  show m0: "0 \<le> m" using assms(1) unfolding m_def by simp
  show m1: "m \<le> 11" using r assms(2) by linarith
  show "0 \<le> e - month_days m" using month_cases [OF m0 m1] r by (auto simp: month_days_def)
  have short: "\<not> isLeapYear (y + 1) \<Longrightarrow> e \<le> 364" using leap assms(2) by (cases "e = 365") auto
  show "e - month_days m < daysOfMonth (cal_year y m) (cal_month m)"
    unfolding daysOfMonth_march [OF m0 m1]
    using month_cases [OF m0 m1] r assms(2) short by (auto simp: month_days_def)
qed

section \<open>The conversions\<close>

text \<open>Year, month and day counted from March give the calendar date, and conversely.\<close>

definition from_march :: "int \<Rightarrow> int \<Rightarrow> int \<Rightarrow> YearMonthDay" where
  "from_march y m k = \<lparr>ymd_year = cal_year y m, ymd_month = cal_month m, ymd_day = k + 1\<rparr>"

definition march_valid :: "int \<Rightarrow> int \<Rightarrow> int \<Rightarrow> bool" where
  "march_valid y m k \<longleftrightarrow> 0 \<le> y \<and> 0 \<le> m \<and> m \<le> 11 \<and> 0 \<le> k
     \<and> k < daysOfMonth (cal_year y m) (cal_month m)"

lemma getJulianDayNum_from_march:
  assumes v: "march_valid y m k" and y: "y \<le> 1470880"
  shows "getJulianDayNum (cal_year y m) (cal_month m) (k + 1)
    = Inr (march_days y + month_days m + k - 32044)"
proof -
  let ?a = "(14 - cal_month m) sdiv 12"
  have m: "0 \<le> m" "m \<le> 11" and y0: "0 \<le> y" using v by (simp_all add: march_valid_def)
  have a: "?a = m div 10" using month_cases [OF m] by (auto simp: cal_month_def sdiv_nonneg)
  have y': "cal_year y m + 4800 - m div 10 = y" by (simp add: cal_year_def)
  have m': "cal_month m + 12 * (m div 10) - 3 = m" by (simp add: cal_month_def)
  have k: "0 \<le> k" "k \<le> 30"
    using v month_cases [OF m] by (auto simp: march_valid_def daysOfMonth_def cal_month_def split: if_splits)
  have sd: "y sdiv 4 = y div 4" "y sdiv 100 = y div 100" "y sdiv 400 = y div 400"
      "(153 * m + 2) sdiv 5 = month_days m"
    using y0 m by (simp_all add: sdiv_nonneg month_days_def)
  have md: "0 \<le> month_days m" "month_days m \<le> 337"
    using month_cases [OF m] by (auto simp: month_days_def)
  have cm: "1 \<le> cal_month m" "cal_month m \<le> 12" "0 \<le> m div 10" "m div 10 \<le> 1"
    using month_cases [OF m] by (auto simp: cal_month_def)
  define q1 q2 q3 where "q1 = y div 4" and "q2 = y div 100" and "q3 = y div 400"
  have q: "0 \<le> q1" "q1 \<le> 367720" "0 \<le> q2" "q2 \<le> 14708" "0 \<le> q3" "q3 \<le> 3677"
    using y0 y by (simp_all add: q1_def q2_def q3_def)
  have cy: "cal_year y m + 4800 = y + m div 10" by (simp add: cal_year_def)
  show ?thesis
    unfolding getJulianDayNum_def Let_def a y' m' sd march_days_def checked32_eq_Inr
      q1_def [symmetric] q2_def [symmetric] q3_def [symmetric]
    using md cm q k y y0 m cy by (auto simp: in_int32_def)
qed

text \<open>The last day count that getYearMonthDay takes without an overflow.\<close>

definition max_days :: int where
  "max_days = 2 ^ 29 - 1"

lemma getYearMonthDay_march:
  assumes v: "march_valid y m k" and a: "march_days y + month_days m + k \<le> max_days"
  shows "getYearMonthDay (march_days y + month_days m + k - 32044) = Inr (from_march y m k)"
proof -
  define b d e where "b = y div 100" and "d = y mod 100" and "e = month_days m + k"
  have y: "y = 100 * b + d" and d: "0 \<le> d" "d \<le> 99" and b0: "0 \<le> b"
    using v by (simp_all add: b_def d_def march_valid_def pos_imp_zdiv_nonneg_iff)
  have m: "0 \<le> m" "m \<le> 11" and k: "0 \<le> k" "k < daysOfMonth (cal_year y m) (cal_month m)"
    using v by (simp_all add: march_valid_def)
  have md: "0 \<le> month_days m" "month_days m \<le> 337"
    using month_cases [OF m] by (auto simp: month_days_def)
  have e: "0 \<le> e" "e \<le> 365" "e = 365 \<Longrightarrow> isLeapYear (100 * b + d + 1)"
    using month_of_day [OF m k] md k y by (simp_all add: e_def)
  have me: "(5 * e + 2) div 153 = m" using month_of_day(1) [OF m k] by (simp add: e_def)
  define a where "a = march_days (100 * b + d) + e"
  note parts = split_days [OF b0 d e, folded a_def]
  define c where "c = a - (36524 * b + b div 4)"
  have c: "c = 365 * d + d div 4 + e" using parts(3) by (simp add: c_def)
  have d4: "0 \<le> d div 4" "d div 4 \<le> 24" using d by simp_all
  have c0: "0 \<le> c" "c \<le> 36524" using c d d4 e by linarith+
  have eb: "b * 146097 \<le> 4 * a + 3"
    using parts(1) div_mod_bounds [of 146097 "4 * a + 3"] by simp
  have a1: "a \<le> max_days" using a y by (simp add: a_def e_def)
  have a0: "0 \<le> a"
  proof -
    have "0 \<le> 36524 * b + b div 4" using b0 by simp
    then show ?thesis using c0 by (simp add: c_def)
  qed
  have b1: "b \<le> 14699" using eb a1 by (simp add: max_days_def)
  have sd: "(4 * a + 3) sdiv 146097 = b" "(b * 146097) sdiv 4 = 36524 * b + b div 4"
      "(4 * c + 3) sdiv 1461 = d" "(1461 * d) sdiv 4 = 365 * d + d div 4"
      "(5 * e + 2) sdiv 153 = m" "(153 * m + 2) sdiv 5 = month_days m" "m sdiv 10 = m div 10"
    using sdiv_nonneg [of "4 * a + 3" 146097] sdiv_nonneg [of "b * 146097" 4]
      sdiv_nonneg [of "4 * c + 3" 1461] sdiv_nonneg [of "1461 * d" 4] sdiv_nonneg [of "5 * e + 2" 153]
      sdiv_nonneg [of "153 * m + 2" 5] sdiv_nonneg [of m 10] a0 b0 c0(1) d(1) e(1) m(1)
      parts(1) parts(2) [folded c_def] me era_div [of b] quad_div [of d]
    by (simp_all only: month_days_def)
  have ce: "c - (365 * d + d div 4) = e" using c by simp
  have j: "march_days y + month_days m + k - 32044 + 32044 = a" by (simp add: a_def e_def y)
  have "a \<le> 536870911" using a1 by (simp add: max_days_def)
  then have range: "0 \<le> a" "a \<le> 536870911" "0 \<le> b" "b \<le> 14699" "b * 146097 \<le> 2147483647"
      "0 \<le> c" "c \<le> 36524" "0 \<le> d" "d \<le> 99" "0 \<le> e" "e \<le> 365" "0 \<le> m" "m \<le> 11"
      "(2 ^ 31 :: int) = 2147483648"
    using a0 b0 b1 c0 d e(1,2) m eb by simp_all
  have "list_all in_int32 [a, 4 * a, 4 * a + 3, b * 146097, c, 4 * c, 4 * c + 3, 1461 * d, e, 5 * e,
      5 * e + 2, 153 * m, 153 * m + 2, b * 100, b * 100 + d]"
    unfolding list.pred_inject(2) in_int32_def using range by (intro conjI list.pred_inject(1)) linarith+
  then show ?thesis
    unfolding getYearMonthDay_def Let_def j sd c_def [symmetric] ce checked32_eq_Inr
    by (simp add: from_march_def cal_year_def cal_month_def y e_def)
qed

lemma march_of_days:
  assumes "0 \<le> a"
  obtains y m k where "march_valid y m k" and "a = march_days y + month_days m + k"
proof -
  define b where "b = (4 * a + 3) div 146097"
  define c where "c = a - (36524 * b + b div 4)"
  define d where "d = (4 * c + 3) div 1461"
  define e where "e = c - (365 * d + d div 4)"
  define m where "m = (5 * e + 2) div 153"
  note s = split_days_bounds [OF assms, folded b_def, folded c_def, folded d_def, folded e_def]
  note t = month_of_day_bounds [OF s(6,7,8), folded m_def]
  have "march_valid (100 * b + d) m (e - month_days m)"
    using s(1,4) t by (simp add: march_valid_def)
  moreover have "a = march_days (100 * b + d) + month_days m + (e - month_days m)"
    using s(9) by simp
  ultimately show thesis by (rule that)
qed

lemma march_days_lower: "0 \<le> y \<Longrightarrow> 365 * y \<le> march_days y"
  using zdiv_mono2 [of y 4 100] by (simp add: march_days_def pos_imp_zdiv_nonneg_iff)

lemma march_year_bound:
  assumes "march_valid y m k" and "march_days y + month_days m + k \<le> max_days"
  shows "y \<le> 1470880"
proof -
  have "0 \<le> y" "0 \<le> m" "0 \<le> k" using assms(1) by (simp_all add: march_valid_def)
  then have "365 * y \<le> march_days y" "0 \<le> month_days m"
    using march_days_lower by (simp_all add: month_days_def)
  then show ?thesis using assms(2) \<open>0 \<le> k\<close> by (simp add: max_days_def)
qed

text \<open>
  The dates from the first of March of the year -4800, where the count starts, to the end of the
  year 1465000, less than ten years short of the overflow.
\<close>

definition civil :: "YearMonthDay \<Rightarrow> bool" where
  "civil x \<longleftrightarrow> valid_ymd x \<and> ymd_year x \<le> 1465000
     \<and> (-4800 < ymd_year x \<or> ymd_year x = -4800 \<and> 3 \<le> ymd_month x)"

lemma civil_march:
  assumes "civil x"
  obtains y m k where "march_valid y m k" and "x = from_march y m k"
    and "march_days y + month_days m + k \<le> max_days"
proof -
  define early where "early = (if ymd_month x \<le> 2 then 1 else 0 :: int)"
  define m where "m = ymd_month x - 3 + 12 * early"
  define y where "y = ymd_year x + 4800 - early"
  define k where "k = ymd_day x - 1"
  have mo: "1 \<le> ymd_month x" "ymd_month x \<le> 12" and k0: "0 \<le> k"
    and dm: "k < daysOfMonth (ymd_year x) (ymd_month x)"
    and lo: "-4800 < ymd_year x \<or> ymd_year x = -4800 \<and> 3 \<le> ymd_month x"
    and hi: "ymd_year x \<le> 1465000"
    using assms by (auto simp: civil_def valid_ymd_def k_def)
  have m: "0 \<le> m" "m \<le> 11" and y: "0 \<le> y" "y \<le> 1469800" and m10: "m div 10 = early"
    using mo lo hi by (auto simp: m_def y_def early_def)
  have x: "cal_year y m = ymd_year x" "cal_month m = ymd_month x"
    using m10 by (simp_all add: cal_year_def cal_month_def y_def m_def)
  have v: "march_valid y m k" using m y k0 dm x by (simp add: march_valid_def)
  have "x = from_march y m k" using x by (simp add: from_march_def k_def)
  moreover have "march_days y + month_days m + k \<le> max_days"
  proof -
    have "march_days y \<le> 365 * y + 367450 + 3674"
    proof -
      have "y div 4 \<le> 367450" "0 \<le> y div 100" "y div 400 \<le> 3674"
        using y by (simp_all add: pos_imp_zdiv_nonneg_iff)
      then show ?thesis by (simp add: march_days_def)
    qed
    moreover have "month_days m + k \<le> 365" using month_of_day(2) [OF m k0, of y] dm x by simp
    ultimately show ?thesis using y unfolding max_days_def by simp
  qed
  ultimately show thesis using that v by blast
qed

lemma valid_from_march: "march_valid y m k \<Longrightarrow> valid_ymd (from_march y m k)"
  using month_cases [of m]
  by (auto simp: march_valid_def valid_ymd_def from_march_def cal_month_def)

text \<open>The successor of a date in the count from March.\<close>

lemma march_days_Suc:
  assumes "0 \<le> y"
  shows "march_days (y + 1) = march_days y + (if isLeapYear (y + 1) then 366 else 365)"
proof -
  define b d where "b = y div 100" and "d = y mod 100"
  have y: "y = 100 * b + d" and d: "0 \<le> d" "d \<le> 99" by (simp_all add: b_def d_def)
  have step: "(x + 1) div 4 = x div 4 + (if x mod 4 = 3 then 1 else 0)" for x :: int by presburger
  show ?thesis
  proof (cases "d = 99")
    case True
    have "march_days (100 * (b + 1) + 0) = 36524 * (b + 1) + (b + 1) div 4"
      by (subst march_days_split) simp_all
    moreover have "100 * (b + 1) + 0 = y + 1" using y True by simp
    ultimately have "march_days (y + 1) = 36524 * (b + 1) + (b + 1) div 4" by metis
    then show ?thesis
      using leap_next_march [OF d, of b] march_days_split [OF d, of b] True step [of b] y
      by (simp split: if_splits)
  next
    case False
    then have d': "0 \<le> d + 1" "d + 1 \<le> 99" using d by simp_all
    have "y + 1 = 100 * b + (d + 1)" using y by simp
    then show ?thesis
      using leap_next_march [OF d, of b] march_days_split [OF d, of b] False step [of d]
        march_days_split [OF d', of b] by (simp add: y add.assoc)
  qed
qed

lemma next_day_march:
  assumes v: "march_valid y m k"
  obtains y' m' k' where "march_valid y' m' k'" and "next_day (from_march y m k) = from_march y' m' k'"
    and "march_days y' + month_days m' + k' = march_days y + month_days m + k + 1"
proof (cases "k + 1 < daysOfMonth (cal_year y m) (cal_month m)")
  case True
  then have "march_valid y m (k + 1)" "next_day (from_march y m k) = from_march y m (k + 1)"
    using v by (simp_all add: march_valid_def next_day_def from_march_def)
  then show thesis using that [of y m "k + 1"] by simp
next
  case False
  have m: "0 \<le> m" "m \<le> 11" "0 \<le> y" using v by (simp_all add: march_valid_def)
  have k: "k + 1 = daysOfMonth (cal_year y m) (cal_month m)"
    using False v by (simp add: march_valid_def)
  have pos: "0 < daysOfMonth yy mm" for yy mm by (simp add: daysOfMonth_def)
  show thesis
  proof (cases "m = 11")
    case True
    have "march_valid (y + 1) 0 0" using m pos by (simp add: march_valid_def)
    moreover have "next_day (from_march y m k) = from_march (y + 1) 0 0"
      using False True by (simp add: next_day_def from_march_def cal_year_def cal_month_def)
    moreover have "march_days (y + 1) + month_days 0 + 0 = march_days y + month_days m + k + 1"
      using k True march_days_Suc [OF m(3)] daysOfMonth_march [OF m(1,2), of y]
      by (simp add: month_days_def split: if_splits)
    ultimately show thesis by (rule that)
  next
    case nm: False
    have "march_valid y (m + 1) 0" using m nm pos by (simp add: march_valid_def)
    moreover have "next_day (from_march y m k) = from_march y (m + 1) 0"
      using False nm month_cases [OF m(1,2)]
      by (auto simp: next_day_def from_march_def cal_year_def cal_month_def)
    moreover have "march_days y + month_days (m + 1) + 0 = march_days y + month_days m + k + 1"
      using k nm daysOfMonth_march [OF m(1,2), of y] by simp
    ultimately show thesis by (rule that)
  qed
qed

section \<open>Properties\<close>

lemma march_forward:
  assumes v: "march_valid y m k" and a: "a = march_days y + month_days m + k" "a \<le> max_days"
  shows "getJulianDayNum (ymd_year (from_march y m k)) (ymd_month (from_march y m k))
           (ymd_day (from_march y m k)) = Inr (a - 32044)"
    and "getYearMonthDay (a - 32044) = Inr (from_march y m k)"
  using getJulianDayNum_from_march [OF v march_year_bound [OF v]] getYearMonthDay_march [OF v] a
  by (simp_all add: from_march_def)

lemma march_of_jdn:
  assumes "-32044 \<le> j"
  obtains y m k where "march_valid y m k" and "j + 32044 = march_days y + month_days m + k"
  by (rule march_of_days [of "j + 32044"]) (use assms in auto)

text \<open>
  C14. The conversions are inverse to each other. Every date of the calendar, from the origin of
  the count up to the year 1465000, converts to a Julian day number that converts back to it; and
  every day number from -32044 to 536838867 converts to a date of the calendar that converts back
  to it, while beyond the upper bound the computation overflows.
\<close>

theorem date_roundtrip:
  "(civil x \<longrightarrow> (\<exists>i. getJulianDayNum (ymd_year x) (ymd_month x) (ymd_day x) = Inr i
       \<and> getYearMonthDay i = Inr x))
   \<and> (-32044 \<le> j \<and> j \<le> 536838867 \<longrightarrow> (\<exists>z. getYearMonthDay j = Inr z \<and> valid_ymd z
       \<and> getJulianDayNum (ymd_year z) (ymd_month z) (ymd_day z) = Inr j))
   \<and> (536838867 < j \<longrightarrow> getYearMonthDay j = Inl Overflow)"
proof (intro conjI impI)
  show "\<exists>i. getJulianDayNum (ymd_year x) (ymd_month x) (ymd_day x) = Inr i \<and> getYearMonthDay i = Inr x"
    if "civil x"
    using civil_march [OF that] march_forward by metis
  show "\<exists>z. getYearMonthDay j = Inr z \<and> valid_ymd z
      \<and> getJulianDayNum (ymd_year z) (ymd_month z) (ymd_day z) = Inr j"
    if range: "-32044 \<le> j \<and> j \<le> 536838867"
  proof -
    obtain y m k where v: "march_valid y m k" and a: "j + 32044 = march_days y + month_days m + k"
      by (rule march_of_jdn [OF conjunct1 [OF range]])
    moreover have "j + 32044 \<le> max_days" using range by (simp add: max_days_def)
    ultimately have "getYearMonthDay (j + 32044 - 32044) = Inr (from_march y m k)"
        "getJulianDayNum (ymd_year (from_march y m k)) (ymd_month (from_march y m k))
           (ymd_day (from_march y m k)) = Inr (j + 32044 - 32044)"
      using march_forward [OF v a] by blast+
    then show ?thesis using valid_from_march [OF v] by auto
  qed
  show "getYearMonthDay j = Inl Overflow" if "536838867 < j"
  proof -
    have "\<not> in_int32 (4 * (j + 32044))" using that by (simp add: in_int32_def)
    then show ?thesis by (simp add: getYearMonthDay_def checked32_def Let_def)
  qed
qed

theorem date_roundtrip_witness:
  "(\<exists>j. getJulianDayNum 2008 2 29 = Inr j
      \<and> getYearMonthDay j = Inr \<lparr>ymd_year = 2008, ymd_month = 2, ymd_day = 29\<rparr>)
   \<and> (\<exists>x. getYearMonthDay 2415021 = Inr x \<and> valid_ymd x
      \<and> getJulianDayNum (ymd_year x) (ymd_month x) (ymd_day x) = Inr 2415021)
   \<and> getYearMonthDay 536838868 = Inl Overflow"
proof -
  have "civil \<lparr>ymd_year = 2008, ymd_month = 2, ymd_day = 29\<rparr>" by code_simp
  then show ?thesis
    using date_roundtrip [of "\<lparr>ymd_year = 2008, ymd_month = 2, ymd_day = 29\<rparr>" 2415021]
      date_roundtrip [of _ 536838868] by simp
qed



lemma fmt_four:
  assumes "1000 \<le> n" and "n < 10000"
  shows "length (fmt_d False 4 (int n)) = 4" and "digits_value (fmt_d False 4 (int n)) = n"
proof -
  have "length (nat_chars n) \<le> 4" using nat_chars_length [of 4 n] assms by simp
  moreover have "3 < length (nat_chars n)"
  proof (rule ccontr)
    assume "\<not> 3 < length (nat_chars n)"
    then have "digits_value (nat_chars n) < 10 ^ 3"
      using nat_chars_digits by (intro digits_value_bound) simp_all
    then show False using assms by (simp add: digits_value_nat_chars)
  qed
  ultimately have "length (nat_chars n) = 4" by simp
  then show "length (fmt_d False 4 (int n)) = 4" and "digits_value (fmt_d False 4 (int n)) = n"
    by (simp_all add: fmt_d_def Let_def digits_value_nat_chars)
qed

text \<open>
  toString prints the ISO form of a date: for the years 1000 to 9999 the text has ten
  characters with dashes at the fifth and the eighth, and the three numbers in it are the year,
  month and day the date was made from, so that different dates print differently.
\<close>

theorem date_toString_iso:
  assumes "valid_ymd x" and "1000 \<le> ymd_year x" and "ymd_year x \<le> 9999"
  shows "\<exists>d s. Date_ymd (ymd_year x) (ymd_month x) (ymd_day x) = Inr d \<and> Date_toString d = Inr s
    \<and> length s = 10 \<and> s ! 4 = CHR ''-'' \<and> s ! 7 = CHR ''-''
    \<and> int (digits_value (take 4 s)) = ymd_year x
    \<and> int (digits_value (take 2 (drop 5 s))) = ymd_month x
    \<and> int (digits_value (drop 8 s)) = ymd_day x"
proof -
  have "civil x" using assms by (simp add: civil_def)
  then obtain y m k where v: "march_valid y m k" and x: "x = from_march y m k"
    and le: "march_days y + month_days m + k \<le> max_days" by (rule civil_march)
  note conv = march_forward [OF v refl le, folded x]
  define yy mm dd where "yy = nat (ymd_year x)" and "mm = nat (ymd_month x)" and "dd = nat (ymd_day x)"
  have pos: "ymd_year x = int yy" "ymd_month x = int mm" "ymd_day x = int dd"
    using assms by (simp_all add: valid_ymd_def yy_def mm_def dd_def)
  have "daysOfMonth (ymd_year x) (ymd_month x) < 100" by (simp add: daysOfMonth_def)
  then have small: "mm < 10 ^ 2" "dd < 10 ^ 2" "1000 \<le> yy" "yy < 10000"
    using assms unfolding valid_ymd_def pos by simp_all
  let ?s = "fmt_d False 4 (int yy) @ ''-'' @ fmt_d True 2 (int mm) @ ''-'' @ fmt_d True 2 (int dd)"
  have len: "length (fmt_d False 4 (int yy)) = 4" "length (fmt_d True 2 (int mm)) = 2"
      "length (fmt_d True 2 (int dd)) = 2"
    using fmt_four small fmt_zero_length [of 2] by simp_all
  have "snprintf_string 32 ?s = ?s"
    using len fmt_d_no_nul by (intro snprintf_string_fits) simp_all
  then have "Date_toString (Date (march_days y + month_days m + k - 32044)) = Inr ?s"
    using conv(2) pos by (simp add: Date_toString_def Date_toYearMonthDay_def)
  moreover have "Date_ymd (ymd_year x) (ymd_month x) (ymd_day x)
      = Inr (Date (march_days y + month_days m + k - 32044))"
    using conv(1) by (simp add: Date_ymd_def)
  moreover have "length ?s = 10 \<and> ?s ! 4 = CHR ''-'' \<and> ?s ! 7 = CHR ''-''
    \<and> int (digits_value (take 4 ?s)) = ymd_year x
    \<and> int (digits_value (take 2 (drop 5 ?s))) = ymd_month x
    \<and> int (digits_value (drop 8 ?s)) = ymd_day x"
    using len fmt_four(2) [of yy] fmt_zero_value small pos
    by (simp add: nth_append)
  ultimately show ?thesis by blast
qed

theorem date_toString_iso_witness:
  "\<exists>d s. Date_ymd 2008 9 10 = Inr d \<and> Date_toString d = Inr s \<and> length s = 10
     \<and> int (digits_value (take 4 s)) = 2008 \<and> int (digits_value (drop 8 s)) = 10"
proof -
  let ?x = "\<lparr>ymd_year = 2008, ymd_month = 9, ymd_day = 10\<rparr>"
  have "valid_ymd ?x" by code_simp
  then show ?thesis using date_toString_iso [of ?x] by auto
qed

end
