(* ===== verification/Timestamp.thy ===== *)
theory Timestamp
  imports Date
begin

text \<open>
  base/Timestamp.h and base/Timestamp.cc: points in time as microseconds since the epoch, of
  type int64\_t. The clock and gmtime\_r are arguments of the operations that call them;
  floating-point numbers are a type parameter with the conversion and the division the code uses.
\<close>

datatype timestamp = Timestamp (m_microSecsSinceEpoch: int)

definition kMicroSecsPerSecond :: int where
  "kMicroSecsPerSecond = 1000 * 1000"

definition Timestamp_default :: timestamp where
  "Timestamp_default = Timestamp 0"

definition Timestamp_swap :: "timestamp \<Rightarrow> timestamp \<Rightarrow> timestamp \<times> timestamp" where
  "Timestamp_swap self other =
     (Timestamp (m_microSecsSinceEpoch other), Timestamp (m_microSecsSinceEpoch self))"

definition Timestamp_valid :: "timestamp \<Rightarrow> bool" where
  "Timestamp_valid t = (m_microSecsSinceEpoch t > 0)"

definition Timestamp_microSecsSinceEpoch :: "timestamp \<Rightarrow> int" where
  "Timestamp_microSecsSinceEpoch t = m_microSecsSinceEpoch t"

definition Timestamp_secsSinceEpoch :: "timestamp \<Rightarrow> int" where
  "Timestamp_secsSinceEpoch t = m_microSecsSinceEpoch t sdiv kMicroSecsPerSecond"

definition Timestamp_invalid :: timestamp where
  "Timestamp_invalid = Timestamp_default"

text \<open>What gettimeofday stored is a pair of seconds and microseconds.\<close>

definition Timestamp_now :: "int \<times> int \<Rightarrow> timestamp result" where
  "Timestamp_now tv =
     (let seconds = fst tv in
      checked64 [seconds * kMicroSecsPerSecond, seconds * kMicroSecsPerSecond + snd tv]
        (Timestamp (seconds * kMicroSecsPerSecond + snd tv)))"

definition Timestamp_toString :: "timestamp \<Rightarrow> string" where
  "Timestamp_toString t =
     (let seconds = m_microSecsSinceEpoch t sdiv kMicroSecsPerSecond;
          microSeconds = m_microSecsSinceEpoch t smod kMicroSecsPerSecond in
      snprintf_string (32 - 1) (fmt_d False 0 seconds @ ''.'' @ fmt_d True 6 microSeconds))"

definition Timestamp_toFormatedString :: "(int \<Rightarrow> tm) \<Rightarrow> timestamp \<Rightarrow> string" where
  "Timestamp_toFormatedString gmtime_r t =
     (let seconds = m_microSecsSinceEpoch t sdiv kMicroSecsPerSecond;
          microseconds = m_microSecsSinceEpoch t smod kMicroSecsPerSecond;
          tm_time = gmtime_r seconds in
      snprintf_string 32
        (fmt_d False 4 (tm_year tm_time + 1900) @ fmt_d True 2 (tm_mon tm_time + 1)
         @ fmt_d True 2 (tm_mday tm_time) @ '' '' @ fmt_d True 2 (tm_hour tm_time) @ '':''
         @ fmt_d True 2 (tm_min tm_time) @ '':'' @ fmt_d True 2 (tm_sec tm_time) @ ''.''
         @ fmt_d True 6 microseconds))"

definition Timestamp_less :: "timestamp \<Rightarrow> timestamp \<Rightarrow> bool" where
  "Timestamp_less a b = (Timestamp_microSecsSinceEpoch a < Timestamp_microSecsSinceEpoch b)"

definition Timestamp_equal :: "timestamp \<Rightarrow> timestamp \<Rightarrow> bool" where
  "Timestamp_equal a b = (Timestamp_microSecsSinceEpoch a = Timestamp_microSecsSinceEpoch b)"

definition timeDifference ::
  "(int \<Rightarrow> 'd) \<Rightarrow> ('d \<Rightarrow> int \<Rightarrow> 'd) \<Rightarrow> timestamp \<Rightarrow> timestamp \<Rightarrow> 'd result" where
  "timeDifference to_double fdiv a b =
     (let diff = Timestamp_microSecsSinceEpoch a - Timestamp_microSecsSinceEpoch b in
      checked64 [diff] (fdiv (to_double diff) kMicroSecsPerSecond))"

text \<open>less\_than\_comparable derives the other comparisons from the operators: a linear order.\<close>

instantiation timestamp :: linorder
begin

definition less_timestamp :: "timestamp \<Rightarrow> timestamp \<Rightarrow> bool" where
  "less_timestamp a b = Timestamp_less a b"

definition less_eq_timestamp :: "timestamp \<Rightarrow> timestamp \<Rightarrow> bool" where
  "less_eq_timestamp a b = (\<not> Timestamp_less b a)"

instance
  by standard (auto simp: less_timestamp_def less_eq_timestamp_def Timestamp_less_def
      Timestamp_microSecsSinceEpoch_def timestamp.expand)

end

section \<open>Properties\<close>

lemma split_micros:
  assumes "0 \<le> m"
  shows "m sdiv kMicroSecsPerSecond = int (nat m div 1000000)"
    and "m smod kMicroSecsPerSecond = int (nat m mod 1000000)"
  using assms by (simp_all add: kMicroSecsPerSecond_def sdiv_nonneg smod_nonneg zdiv_int zmod_int)

lemma takeWhile_dot:
  "CHR ''.'' \<notin> set xs \<Longrightarrow> takeWhile (\<lambda>c. c \<noteq> CHR ''.'') (xs @ CHR ''.'' # ys) = xs"
  by (subst takeWhile_append2) auto

text \<open>
  toString prints the time exactly: for a time from the epoch on, the text is the number of
  seconds, a dot and six digits, from which the microseconds can be read back, so that the text
  determines the timestamp. A time less than a second before the epoch prints as 0.-dddddd or,
  with fewer digits, with the sign inside the zeros: the sign of the remainder is printed after
  the dot.
\<close>

theorem timestamp_toString_exact:
  assumes "in_int64 m"
  shows "(0 \<le> m \<longrightarrow> (let s = Timestamp_toString (Timestamp m);
              secs = takeWhile (\<lambda>c. c \<noteq> CHR ''.'') s; micros = drop (length secs + 1) s in
            length micros = 6
            \<and> int (digits_value secs) = Timestamp_secsSinceEpoch (Timestamp m)
            \<and> int (digits_value secs) * kMicroSecsPerSecond + int (digits_value micros) = m))
    \<and> (- 1000000 < m \<and> m < 0 \<longrightarrow>
         Timestamp_toString (Timestamp m) = ''0.'' @ fmt_d True 6 m)"
proof (intro conjI impI)
  show "let s = Timestamp_toString (Timestamp m);
            secs = takeWhile (\<lambda>c. c \<noteq> CHR ''.'') s; micros = drop (length secs + 1) s in
          length micros = 6 \<and> int (digits_value secs) = Timestamp_secsSinceEpoch (Timestamp m)
          \<and> int (digits_value secs) * kMicroSecsPerSecond + int (digits_value micros) = m"
    if m: "0 \<le> m"
  proof -
    define q r where "q = nat m div 1000000" and "r = nat m mod 1000000"
    have qr: "m = int q * 1000000 + int r" and r: "r < 10 ^ 6"
      using m by (simp_all add: q_def r_def zdiv_int zmod_int)
    have q: "q < 10 ^ 13" using assms qr by (simp add: in_int64_def)
    have len: "length (fmt_d True 6 (int r)) = 6" using r by (intro fmt_zero_length) simp_all
    have fq: "fmt_d False 0 (int q) = nat_chars q" by (simp add: fmt_d_def Let_def)
    have "length (nat_chars q) \<le> 13" using q by (intro nat_chars_length) simp_all
    then have "snprintf_string (32 - 1) (nat_chars q @ ''.'' @ fmt_d True 6 (int r))
        = nat_chars q @ ''.'' @ fmt_d True 6 (int r)"
      using len fmt_d_no_nul nat_chars_not_special by (intro snprintf_string_fits) simp_all
    then have "Timestamp_toString (Timestamp m) = nat_chars q @ ''.'' @ fmt_d True 6 (int r)"
      using split_micros [OF m] fq by (simp add: Timestamp_toString_def Let_def q_def r_def)
    moreover have "Timestamp_secsSinceEpoch (Timestamp m) = int q"
      using split_micros [OF m] by (simp add: Timestamp_secsSinceEpoch_def q_def)
    ultimately show ?thesis
      using qr len by (simp add: Let_def takeWhile_dot nat_chars_not_special digits_value_nat_chars
          fmt_zero_value kMicroSecsPerSecond_def)
  qed
  show "Timestamp_toString (Timestamp m) = ''0.'' @ fmt_d True 6 m" if m: "- 1000000 < m \<and> m < 0"
  proof -
    have "m sdiv kMicroSecsPerSecond = 0" and "m smod kMicroSecsPerSecond = m"
      using m by (simp_all add: kMicroSecsPerSecond_def signed_divide_int_def signed_modulo_int_def)
    moreover have "fmt_d False 0 0 = ''0''" by code_simp
    moreover have "snprintf_string (32 - 1) (''0.'' @ fmt_d True 6 m) = ''0.'' @ fmt_d True 6 m"
    proof (rule snprintf_string_fits)
      have "length (nat_chars (nat \<bar>m\<bar>)) \<le> 6" using m by (intro nat_chars_length) auto
      then show "length (''0.'' @ fmt_d True 6 m) < 32 - 1" using m by (simp add: fmt_d_def Let_def)
    qed (simp add: fmt_d_no_nul)
    ultimately show ?thesis by (simp add: Timestamp_toString_def Let_def)
  qed
qed

theorem timestamp_toString_exact_witness:
  "Timestamp_toString (Timestamp (- 500000)) = ''0.'' @ fmt_d True 6 (- 500000)
   \<and> fmt_d True 6 (- 500000) = ''-500000''"
proof -
  have "in_int64 (- 500000)" by (simp add: in_int64_def)
  then have "Timestamp_toString (Timestamp (- 500000)) = ''0.'' @ fmt_d True 6 (- 500000)"
    using timestamp_toString_exact [of "- 500000"] by simp
  moreover have "fmt_d True 6 (- 500000) = ''-500000''"
    by (simp add: fmt_d_def nat_chars_def nat_loop.simps dec_char_def)
  ultimately show ?thesis by (rule conjI)
qed

text \<open>
  A reading of the clock becomes the timestamp of that instant: the seconds are those of the
  clock, the instants are ordered as the clock readings are, and the difference of two readings
  is computed from their exact distance in microseconds, without overflow.
\<close>

theorem timestamp_now_faithful:
  assumes "0 \<le> s" "s < 2 ^ 40" "0 \<le> u" "u < 1000000"
    and "0 \<le> s'" "s' < 2 ^ 40" "0 \<le> u'" "u' < 1000000"
  shows "\<exists>a b. Timestamp_now (s, u) = Inr a \<and> Timestamp_now (s', u') = Inr b
    \<and> Timestamp_secsSinceEpoch a = s
    \<and> (a < b \<longleftrightarrow> s < s' \<or> s = s' \<and> u < u') \<and> (Timestamp_equal a b \<longleftrightarrow> s = s' \<and> u = u')
    \<and> timeDifference f d a b = Inr (d (f ((s - s') * 1000000 + (u - u'))) 1000000)"
proof -
  have now: "Timestamp_now (x, y) = Inr (Timestamp (x * 1000000 + y))"
    if "0 \<le> x" "x < 2 ^ 40" "0 \<le> y" "y < 1000000" for x y
    using that by (simp add: Timestamp_now_def Let_def checked64_def in_int64_def kMicroSecsPerSecond_def)
  have "(s * 1000000 + u) div 1000000 = s" using assms(3,4) by simp
  then have "Timestamp_secsSinceEpoch (Timestamp (s * 1000000 + u)) = s"
    using assms(1,3) by (simp add: Timestamp_secsSinceEpoch_def kMicroSecsPerSecond_def sdiv_nonneg)
  moreover have "s * 1000000 + u < s' * 1000000 + u' \<longleftrightarrow> s < s' \<or> s = s' \<and> u < u'"
    and "s * 1000000 + u = s' * 1000000 + u' \<longleftrightarrow> s = s' \<and> u = u'"
    using assms by (cases s s' rule: linorder_cases; simp)+
  moreover have "timeDifference f d (Timestamp (s * 1000000 + u)) (Timestamp (s' * 1000000 + u'))
      = Inr (d (f ((s - s') * 1000000 + (u - u'))) 1000000)"
    using assms by (simp add: timeDifference_def Let_def checked64_def in_int64_def
        kMicroSecsPerSecond_def Timestamp_microSecsSinceEpoch_def algebra_simps)
  ultimately show ?thesis
    using now [OF assms(1-4)] now [OF assms(5-8)]
    by (simp add: less_timestamp_def Timestamp_less_def Timestamp_equal_def
        Timestamp_microSecsSinceEpoch_def)
qed

theorem timestamp_now_faithful_witness:
  "\<exists>a b. Timestamp_now (1400000000, 5) = Inr a \<and> Timestamp_now (1400000001, 2) = Inr b \<and> a < b
     \<and> timeDifference id (\<lambda>x y. x) a b = Inr (- 999997)"
  using timestamp_now_faithful [of 1400000000 5 1400000001 2 id "\<lambda>x y. x"] by auto

end
