(* ===== verification/TimeZone.thy ===== *)
theory TimeZone
  imports Date Endian
begin

text \<open>
  base/TimeZone.h and base/TimeZone.cc: the reader of compiled time zone files and the search for
  the local time in force. A file is the list of bytes still to be read (fopen that fails is
  None); a short read leaves the missing bytes of the integer zero, as in the code. The two
  uses of sizes taken from the file that can fail are kept: vector::reserve with a negative count
  throws, and the array on the stack that readBytes reads into has to fit the stack, whose free
  space is a parameter. lower\_bound of the standard library is its binary search.
\<close>

record Transition =
  tr_gmtime :: int
  tr_localtime :: int
  tr_localtimeIdx :: nat

definition Comp_less :: "bool \<Rightarrow> Transition \<Rightarrow> Transition \<Rightarrow> bool" where
  "Comp_less compareGMT lhs rhs =
     (if compareGMT then tr_gmtime lhs < tr_gmtime rhs else tr_localtime lhs < tr_localtime rhs)"

definition Comp_equal :: "bool \<Rightarrow> Transition \<Rightarrow> Transition \<Rightarrow> bool" where
  "Comp_equal compareGMT lhs rhs =
     (if compareGMT then tr_gmtime lhs = tr_gmtime rhs else tr_localtime lhs = tr_localtime rhs)"

record LocalTime =
  lt_gmtOffset :: int
  lt_isDest :: bool
  lt_arrbInx :: nat

text \<open>fillHMS takes an unsigned int.\<close>

definition fillHMS :: "32 word \<Rightarrow> tm \<Rightarrow> tm" where
  "fillHMS seconds utc =
     (let minutes = seconds div 60 in
      utc\<lparr>tm_sec := sint (seconds mod 60), tm_min := sint (minutes mod 60),
          tm_hour := sint (minutes div 60)\<rparr>)"

record tz_data =
  transitions :: "Transition list"
  localtimes :: "LocalTime list"
  names :: "byte list list"
  tz_abbreviation :: "byte list"

definition tz_data_empty :: tz_data where
  "tz_data_empty = \<lparr>transitions = [], localtimes = [], names = [], tz_abbreviation = []\<rparr>"

definition kSecsPerDay :: int where
  "kSecsPerDay = 24 * 60 * 60"

section \<open>File\<close>

definition File_readBytes :: "nat \<Rightarrow> nat \<Rightarrow> byte list \<Rightarrow> (byte list \<times> byte list) result" where
  "File_readBytes stack n f = (if n \<le> stack then Inr (take n f, drop n f) else Inl OutOfRange)"

definition File_readInt32 :: "byte_order \<Rightarrow> byte list \<Rightarrow> int \<times> byte list" where
  "File_readInt32 ho f =
     (let got = take 4 f in
      (sint (betoh ho (memory_load ho (got @ replicate (4 - length got) 0) :: 32 word)), drop 4 f))"

definition File_readUint8 :: "byte list \<Rightarrow> byte \<times> byte list" where
  "File_readUint8 f = (case f of [] \<Rightarrow> (0, []) | b # f' \<Rightarrow> (b, f'))"

section \<open>readTimeZoneFile\<close>

text \<open>The loops of the reader; a count is an int, and a loop up to a negative one does nothing.\<close>

primrec read_trans :: "byte_order \<Rightarrow> nat \<Rightarrow> byte list \<Rightarrow> int list \<times> byte list" where
  "read_trans ho 0 f = ([], f)"
| "read_trans ho (Suc n) f =
     (let (x, f1) = File_readInt32 ho f; (xs, f2) = read_trans ho n f1 in (x # xs, f2))"

primrec read_locals :: "nat \<Rightarrow> byte list \<Rightarrow> nat list \<times> byte list" where
  "read_locals 0 f = ([], f)"
| "read_locals (Suc n) f =
     (let (x, f1) = File_readUint8 f; (xs, f2) = read_locals n f1 in (unat x # xs, f2))"

primrec read_types :: "byte_order \<Rightarrow> nat \<Rightarrow> byte list \<Rightarrow> LocalTime list \<times> byte list" where
  "read_types ho 0 f = ([], f)"
| "read_types ho (Suc n) f =
     (let (gmtoff, f1) = File_readInt32 ho f; (isdst, f2) = File_readUint8 f1;
          (abbrind, f3) = File_readUint8 f2; (xs, f4) = read_types ho n f3 in
      (\<lparr>lt_gmtOffset = gmtoff, lt_isDest = isdst \<noteq> 0, lt_arrbInx = unat abbrind\<rparr> # xs, f4))"

fun make_transitions :: "LocalTime list \<Rightarrow> int list \<Rightarrow> nat list \<Rightarrow> Transition list result" where
  "make_transitions lts (t # tms) (i # idxs) =
     (if i < length lts
      then bindE (make_transitions lts tms idxs)
             (\<lambda>ts. Inr (\<lparr>tr_gmtime = t, tr_localtime = t + lt_gmtOffset (lts ! i),
                         tr_localtimeIdx = i\<rparr> # ts))
      else Inl OutOfRange)"
| "make_transitions lts _ _ = Inr []"

definition TZif_magic :: "byte list" where
  "TZif_magic = [0x54, 0x5A, 0x69, 0x66]"

text \<open>
  The result is what readTimeZoneFile returns, with the data it has filled. A file that cannot
  be opened counts as read: the code returns true behind the if.
\<close>

definition readTimeZoneFile ::
  "byte_order \<Rightarrow> nat \<Rightarrow> byte list option \<Rightarrow> tz_data \<Rightarrow> (bool \<times> tz_data) result" where
  "readTimeZoneFile ho stack file data =
     (case file of
        None \<Rightarrow> Inr (True, data)
      | Some f0 \<Rightarrow>
          bindE (File_readBytes stack 4 f0) (\<lambda>(head, f1).
            if head \<noteq> TZif_magic then Inr (False, data)
            else
              bindE (File_readBytes stack 1 f1) (\<lambda>(version, f2).
              bindE (File_readBytes stack 15 f2) (\<lambda>(_, f3).
                let (isgmtcnt, f4) = File_readInt32 ho f3;
                    (isstdcnt, f5) = File_readInt32 ho f4;
                    (leapcnt, f6) = File_readInt32 ho f5;
                    (timecnt, f7) = File_readInt32 ho f6;
                    (typecnt, f8) = File_readInt32 ho f7;
                    (charcnt, f9) = File_readInt32 ho f8 in
                if timecnt < 0 then Inl LengthError
                else
                  let (tms, f10) = read_trans ho (nat timecnt) f9;
                      (lcls, f11) = read_locals (nat timecnt) f10;
                      (types, f12) = read_types ho (nat typecnt) f11;
                      lts = localtimes data @ types in
                  bindE (make_transitions lts tms lcls) (\<lambda>ts.
                  bindE (File_readBytes stack (nat (charcnt mod 2 ^ 64)) f12) (\<lambda>(abbrev, _).
                    Inr (True, data\<lparr>localtimes := lts, transitions := transitions data @ ts,
                                    tz_abbreviation := abbrev\<rparr>)))))))"

section \<open>findLocalTime\<close>

text \<open>lower\_bound: halving the range of \<open>len\<close> elements from \<open>first\<close> on.\<close>

function lower_bound_loop :: "('a \<Rightarrow> bool) \<Rightarrow> 'a list \<Rightarrow> nat \<Rightarrow> nat \<Rightarrow> nat" where
  "lower_bound_loop less_val xs first len =
     (if len = 0 then first
      else let half = len div 2; middle = first + half in
           if less_val (xs ! middle) then lower_bound_loop less_val xs (middle + 1) (len - half - 1)
           else lower_bound_loop less_val xs first half)"
  by pat_completeness auto
termination
  by (relation "measure (\<lambda>(_, _, _, len). len)") auto

declare lower_bound_loop.simps [simp del]

definition lower_bound :: "('a \<Rightarrow> 'a \<Rightarrow> bool) \<Rightarrow> 'a list \<Rightarrow> 'a \<Rightarrow> nat" where
  "lower_bound cmp xs val = lower_bound_loop (\<lambda>x. cmp x val) xs 0 (length xs)"

definition vector_at :: "'a list \<Rightarrow> nat \<Rightarrow> 'a result" where
  "vector_at xs i = (if i < length xs then Inr (xs ! i) else Inl OutOfRange)"

definition findLocalTime :: "tz_data \<Rightarrow> Transition \<Rightarrow> bool \<Rightarrow> LocalTime result" where
  "findLocalTime data sentry cmp =
     (if transitions data = [] \<or> Comp_less cmp sentry (transitions data ! 0)
      then vector_at (localtimes data) 0
      else
        let transI = lower_bound (Comp_less cmp) (transitions data) sentry in
        if transI \<noteq> length (transitions data)
        then if \<not> Comp_equal cmp sentry (transitions data ! transI)
             then assert_then (transI \<noteq> 0)
                    (vector_at (localtimes data) (tr_localtimeIdx (transitions data ! (transI - 1))))
             else vector_at (localtimes data) (tr_localtimeIdx (transitions data ! transI))
        else vector_at (localtimes data) (tr_localtimeIdx (last (transitions data))))"

section \<open>TimeZone\<close>

text \<open>The zone's member is the shared pointer to its data, null when there is none.\<close>

type_synonym time_zone = "tz_data option"

definition TimeZone_file :: "byte_order \<Rightarrow> nat \<Rightarrow> byte list option \<Rightarrow> time_zone result" where
  "TimeZone_file ho stack file =
     bindE (readTimeZoneFile ho stack file tz_data_empty)
       (\<lambda>(ok, data). Inr (if ok then Some data else None))"

definition TimeZone_offset :: "int \<Rightarrow> byte list \<Rightarrow> time_zone" where
  "TimeZone_offset eastofUtc tzname =
     Some (tz_data_empty\<lparr>localtimes := [\<lparr>lt_gmtOffset = eastofUtc, lt_isDest = False, lt_arrbInx = 0\<rparr>],
                         tz_abbreviation := tzname\<rparr>)"

definition TimeZone_default :: time_zone where
  "TimeZone_default = None"

definition TimeZone_valid :: "time_zone \<Rightarrow> bool" where
  "TimeZone_valid z = (z \<noteq> None)"

text \<open>toLocalTime returns a local variable it never assigns: whatever the stack holds there.\<close>

definition TimeZone_toLocalTime :: "tm \<Rightarrow> time_zone \<Rightarrow> int \<Rightarrow> tm" where
  "TimeZone_toLocalTime stack_content z secsSinceEpoch = (let tm_temp = stack_content in tm_temp)"

section \<open>The search\<close>

lemma lower_bound_loop_spec:
  assumes "first \<le> p" and "p \<le> first + len" and "first + len \<le> length xs"
    and below: "\<And>i. first \<le> i \<Longrightarrow> i < p \<Longrightarrow> less_val (xs ! i)"
    and above: "\<And>i. p \<le> i \<Longrightarrow> i < first + len \<Longrightarrow> \<not> less_val (xs ! i)"
  shows "lower_bound_loop less_val xs first len = p"
  using assms
proof (induction less_val xs first len rule: lower_bound_loop.induct)
  case (1 less_val xs first len)
  show ?case
  proof (cases "len = 0")
    case True
    then show ?thesis using "1.prems" by (simp add: lower_bound_loop.simps)
  next
    case False
    let ?mid = "first + len div 2"
    have mid: "?mid < first + len" "first \<le> ?mid" using False by simp_all
    show ?thesis
    proof (cases "less_val (xs ! ?mid)")
      case True
      have "\<not> p \<le> ?mid" using "1.prems"(5) mid True by blast
      then have "lower_bound_loop less_val xs (?mid + 1) (len - len div 2 - 1) = p"
        using "1.prems" mid by (intro "1.IH"(1) [OF False refl refl True]) auto
      then show ?thesis using False True by (subst lower_bound_loop.simps) (simp add: Let_def)
    next
      case less: False
      have "p \<le> ?mid" using "1.prems"(4) mid less by (meson leI)
      then have "lower_bound_loop less_val xs first (len div 2) = p"
        using "1.prems" mid by (intro "1.IH"(2) [OF False refl refl less]) auto
      then show ?thesis using False less by (subst lower_bound_loop.simps) (simp add: Let_def)
    qed
  qed
qed

lemma lower_bound_spec:
  assumes "p \<le> length xs" and "\<And>i. i < p \<Longrightarrow> cmp (xs ! i) val"
    and "\<And>i. p \<le> i \<Longrightarrow> i < length xs \<Longrightarrow> \<not> cmp (xs ! i) val"
  shows "lower_bound cmp xs val = p"
  unfolding lower_bound_def by (rule lower_bound_loop_spec) (use assms in auto)

text \<open>The time a transition takes effect on the side that is compared, and a strictly ordered table.\<close>

definition tr_key :: "bool \<Rightarrow> Transition \<Rightarrow> int" where
  "tr_key gmt t = (if gmt then tr_gmtime t else tr_localtime t)"

lemma Comp_key:
  "Comp_less gmt a b = (tr_key gmt a < tr_key gmt b)"
  "Comp_equal gmt a b = (tr_key gmt a = tr_key gmt b)"
  by (simp_all add: Comp_less_def Comp_equal_def tr_key_def)

lemma strict_keys_mono:
  assumes "sorted_wrt (<) (map (f :: 'a \<Rightarrow> int) xs)" and "i < j" and "j < length xs"
  shows "f (xs ! i) < f (xs ! j)"
  using sorted_wrt_nth_less [OF assms(1), of i j] assms by simp

lemma strict_keys_mono_le:
  assumes "sorted_wrt (<) (map (f :: 'a \<Rightarrow> int) xs)" and "i \<le> j" and "j < length xs"
  shows "f (xs ! i) \<le> f (xs ! j)"
  using strict_keys_mono [OF assms(1), of i j] assms by (cases "i = j") auto

text \<open>Where lower\_bound stops: the keys before are smaller, those after are larger.\<close>

lemma lower_bound_keys:
  assumes ordered: "sorted_wrt (<) (map (tr_key gmt) ts)"
  obtains n where "lower_bound (Comp_less gmt) ts sentry = n" and "n \<le> length ts"
    and "\<And>i. i < n \<Longrightarrow> tr_key gmt (ts ! i) < tr_key gmt sentry"
    and "\<And>i. n \<le> i \<Longrightarrow> i < length ts \<Longrightarrow> tr_key gmt sentry \<le> tr_key gmt (ts ! i)"
    and "\<And>i. n < i \<Longrightarrow> i < length ts \<Longrightarrow> tr_key gmt sentry < tr_key gmt (ts ! i)"
proof -
  let ?k = "tr_key gmt sentry"
  define n where "n = length (takeWhile (\<lambda>t. tr_key gmt t < ?k) ts)"
  have n: "n \<le> length ts" by (simp add: n_def length_takeWhile_le)
  have below: "tr_key gmt (ts ! i) < ?k" if "i < n" for i
    using that nth_mem [of i "takeWhile (\<lambda>t. tr_key gmt t < ?k) ts"] takeWhile_nth [of i]
    by (metis n_def set_takeWhileD)
  have above: "?k \<le> tr_key gmt (ts ! i)" if "n \<le> i" "i < length ts" for i
  proof -
    have "\<not> tr_key gmt (ts ! n) < ?k"
      using nth_length_takeWhile [of "\<lambda>t. tr_key gmt t < ?k" ts] that by (simp add: n_def)
    then show ?thesis using strict_keys_mono_le [OF ordered that] by simp
  qed
  have "?k < tr_key gmt (ts ! i)" if "n < i" "i < length ts" for i
    using above [of n] strict_keys_mono [OF ordered that] that by simp
  moreover have "lower_bound (Comp_less gmt) ts sentry = n"
    using n below above by (intro lower_bound_spec) (auto simp: Comp_key not_less)
  ultimately show thesis using n below above by (intro that)
qed

section \<open>Properties\<close>

text \<open>
  C22. For a table of transitions in strictly ascending order, with indices of existing local
  times, the search returns the local time in force: the first local time of the file for a time
  before the first transition, and otherwise the local time of the last transition that is not
  later than the time asked for. The binary search never leaves the table.
\<close>

theorem findLocalTime_in_force:
  assumes ordered: "sorted_wrt (<) (map (tr_key gmt) (transitions data))"
    and idx: "\<forall>t \<in> set (transitions data). tr_localtimeIdx t < length (localtimes data)"
    and ne: "localtimes data \<noteq> []"
  shows "\<exists>lt. findLocalTime data sentry gmt = Inr lt
    \<and> ((\<forall>t \<in> set (transitions data). tr_key gmt sentry < tr_key gmt t) \<longrightarrow> lt = localtimes data ! 0)
    \<and> (\<forall>i < length (transitions data). tr_key gmt (transitions data ! i) \<le> tr_key gmt sentry
          \<and> (\<forall>j < length (transitions data). i < j \<longrightarrow> tr_key gmt sentry < tr_key gmt (transitions data ! j))
        \<longrightarrow> lt = localtimes data ! tr_localtimeIdx (transitions data ! i))"
proof (cases "transitions data = [] \<or> Comp_less gmt sentry (transitions data ! 0)")
  case True
  have "tr_key gmt sentry < tr_key gmt (transitions data ! i)" if "i < length (transitions data)" for i
    using True strict_keys_mono_le [OF ordered, of 0 i] that by (auto simp: Comp_key)
  then show ?thesis
    using True ne by (force simp: findLocalTime_def vector_at_def)
next
  case False
  let ?ts = "transitions data" and ?k = "tr_key gmt sentry"
  obtain n where lb: "lower_bound (Comp_less gmt) ?ts sentry = n" and n: "n \<le> length ?ts"
      and below: "\<And>i. i < n \<Longrightarrow> tr_key gmt (?ts ! i) < ?k"
      and above: "\<And>i. n \<le> i \<Longrightarrow> i < length ?ts \<Longrightarrow> ?k \<le> tr_key gmt (?ts ! i)"
      and beyond: "\<And>i. n < i \<Longrightarrow> i < length ?ts \<Longrightarrow> ?k < tr_key gmt (?ts ! i)"
    using lower_bound_keys [OF ordered] by metis
  define r where "r = (if n < length ?ts \<and> tr_key gmt (?ts ! n) = ?k then n else n - 1)"
  have zero: "?ts \<noteq> []" "tr_key gmt (?ts ! 0) \<le> ?k" using False by (auto simp: Comp_key)
  have r: "r < length ?ts" using n zero by (cases ?ts) (auto simp: r_def)
  have at_r: "findLocalTime data sentry gmt = Inr (localtimes data ! tr_localtimeIdx (?ts ! r))"
  proof -
    have idx_r: "tr_localtimeIdx (?ts ! r) < length (localtimes data)" using idx r by simp
    have "n \<noteq> 0 \<or> tr_key gmt (?ts ! n) = ?k" using above [of 0] zero by (cases "n = 0") auto
    then show ?thesis
      using idx_r n zero False lb
      by (auto simp: findLocalTime_def Let_def Comp_key r_def vector_at_def last_conv_nth
          split: if_splits)
  qed
  have r_le: "tr_key gmt (?ts ! r) \<le> ?k"
    using below [of "n - 1"] zero by (cases "n = 0") (auto simp: r_def)
  have r_last: "?k < tr_key gmt (?ts ! j)" if "r < j" "j < length ?ts" for j
    using that above [of j] beyond [of j] by (cases "j = n") (auto simp: r_def split: if_splits)
  have "i = r" if "i < length ?ts" "tr_key gmt (?ts ! i) \<le> ?k"
      "\<forall>j < length ?ts. i < j \<longrightarrow> ?k < tr_key gmt (?ts ! j)" for i
    using that r_le r_last [of i] r by (metis linorder_neqE_nat not_less)
  moreover have "\<not> (\<forall>t \<in> set ?ts. ?k < tr_key gmt t)" using r r_le by (meson not_less nth_mem)
  ultimately show ?thesis using at_r by auto
qed

definition sample_zone :: tz_data where
  "sample_zone = \<lparr>transitions = [\<lparr>tr_gmtime = 100, tr_localtime = 3700, tr_localtimeIdx = 1\<rparr>,
       \<lparr>tr_gmtime = 200, tr_localtime = 200, tr_localtimeIdx = 0\<rparr>],
     localtimes = [\<lparr>lt_gmtOffset = 0, lt_isDest = False, lt_arrbInx = 0\<rparr>,
       \<lparr>lt_gmtOffset = 3600, lt_isDest = True, lt_arrbInx = 4\<rparr>], names = [], tz_abbreviation = []\<rparr>"

theorem findLocalTime_in_force_witness:
  "findLocalTime sample_zone \<lparr>tr_gmtime = 150, tr_localtime = 0, tr_localtimeIdx = 0\<rparr> True
     = Inr \<lparr>lt_gmtOffset = 3600, lt_isDest = True, lt_arrbInx = 4\<rparr>"
  using findLocalTime_in_force [of True sample_zone
      "\<lparr>tr_gmtime = 150, tr_localtime = 0, tr_localtimeIdx = 0\<rparr>"]
  by (auto simp: sample_zone_def tr_key_def less_Suc_eq)

section \<open>Writing a zone file\<close>

text \<open>
  The file format the reader is for: a header with six big-endian counts, the transition times,
  one index byte for each, the local time types and the abbreviations; anything may follow.
\<close>

definition be32 :: "int \<Rightarrow> byte list" where
  "be32 v = be_bytes 4 (nat (v mod 2 ^ 32))"

definition encode_type :: "LocalTime \<Rightarrow> byte list" where
  "encode_type lt = be32 (lt_gmtOffset lt) @ [if lt_isDest lt then 1 else 0, of_nat (lt_arrbInx lt)]"

definition encode_zone ::
  "byte \<Rightarrow> byte list \<Rightarrow> int list \<Rightarrow> nat list \<Rightarrow> LocalTime list \<Rightarrow> byte list \<Rightarrow> byte list \<Rightarrow> byte list" where
  "encode_zone version reserved tms idxs types abbrev rest =
     TZif_magic @ [version] @ reserved
     @ be32 0 @ be32 0 @ be32 0 @ be32 (int (length tms)) @ be32 (int (length types))
     @ be32 (int (length abbrev))
     @ concat (map be32 tms) @ map of_nat idxs @ concat (map encode_type types) @ abbrev @ rest"

lemma length_be32 [simp]: "length (be32 v) = 4"
  by (simp add: be32_def)

lemma readInt32_be32:
  assumes "in_int32 v"
  shows "File_readInt32 ho (be32 v @ f) = (v, f)"
proof -
  have "betoh ho (memory_load ho (be32 v)) = (of_nat (nat (v mod 2 ^ 32)) :: 32 word)"
    by (subst betoh_memory_load) (simp_all add: be32_def be_value_be_bytes)
  moreover have "sint (of_nat (nat (v mod 2 ^ 32)) :: 32 word) = v"
  proof -
    have "(of_nat (nat (v mod 2 ^ 32)) :: 32 word) = word_of_int v"
      by (simp only: of_nat_nat pos_mod_sign zero_less_power zero_less_numeral)
        (simp add: word_of_int_eq_iff take_bit_eq_mod)
    then show ?thesis
      using assms by (simp add: sint_sbintrunc' in_int32_def signed_take_bit_int_eq_self)
  qed
  ultimately show ?thesis by (simp add: File_readInt32_def Let_def)
qed

lemma read_trans_encode:
  "\<forall>v \<in> set tms. in_int32 v \<Longrightarrow> read_trans ho (length tms) (concat (map be32 tms) @ f) = (tms, f)"
  by (induction tms) (simp_all add: readInt32_be32)

lemma readUint8_Cons [simp]: "File_readUint8 (b # f) = (b, f)"
  by (simp add: File_readUint8_def)

lemma unat_of_byte: "n < 256 \<Longrightarrow> unat (of_nat n :: byte) = n"
  by (simp add: unat_of_nat)

lemma read_locals_encode:
  "\<forall>i \<in> set idxs. i < 256 \<Longrightarrow> read_locals (length idxs) (map of_nat idxs @ f) = (idxs, f)"
  by (induction idxs) (simp_all add: unat_of_byte)

lemma read_types_encode:
  "\<forall>lt \<in> set types. in_int32 (lt_gmtOffset lt) \<and> lt_arrbInx lt < 256
    \<Longrightarrow> read_types ho (length types) (concat (map encode_type types) @ f) = (types, f)"
  by (induction types) (auto simp: encode_type_def readInt32_be32 unat_of_byte)

definition transitions_of :: "LocalTime list \<Rightarrow> int list \<Rightarrow> nat list \<Rightarrow> Transition list" where
  "transitions_of types tms idxs =
     map (\<lambda>(t, i). \<lparr>tr_gmtime = t, tr_localtime = t + lt_gmtOffset (types ! i), tr_localtimeIdx = i\<rparr>)
       (zip tms idxs)"

lemma make_transitions_eq:
  "length tms = length idxs \<Longrightarrow>
   make_transitions types tms idxs =
     (if \<forall>i \<in> set idxs. i < length types then Inr (transitions_of types tms idxs) else Inl OutOfRange)"
  by (induction tms idxs rule: list_induct2) (auto simp: transitions_of_def)

lemma readBytes_append:
  "length a = n \<Longrightarrow> n \<le> stack \<Longrightarrow> File_readBytes stack n (a @ f) = Inr (a, f)"
  by (simp add: File_readBytes_def)

text \<open>
  C23. The reader recovers the zone from the file, on hosts of either byte order and whatever
  follows the first block of the file: the local times and the abbreviations as written, and one
  transition for each time with its local time computed from the offset it refers to. When an
  index refers to no local time the reader accesses the vector out of its range.
\<close>

theorem readTimeZoneFile_roundtrip:
  assumes "length reserved = 15" and "length tms = length idxs"
    and "\<forall>t \<in> set tms. in_int32 t" and "\<forall>i \<in> set idxs. i < 256"
    and "\<forall>lt \<in> set types. in_int32 (lt_gmtOffset lt) \<and> lt_arrbInx lt < 256"
    and "length tms < 2 ^ 31" and "length types < 2 ^ 31" and "length abbrev < 2 ^ 31"
    and "15 \<le> stack" and "length abbrev \<le> stack"
  shows "TimeZone_file ho stack (Some (encode_zone version reserved tms idxs types abbrev rest)) =
    (if \<forall>i \<in> set idxs. i < length types
     then Inr (Some \<lparr>transitions = transitions_of types tms idxs, localtimes = types, names = [],
                     tz_abbreviation = abbrev\<rparr>)
     else Inl OutOfRange)"
proof -
  have counts: "in_int32 0" "in_int32 (int (length tms))" "in_int32 (int (length types))"
      "in_int32 (int (length abbrev))"
    using assms by (simp_all add: in_int32_def)
  have abbrev: "nat (int (length abbrev) mod 18446744073709551616) = length abbrev"
    using assms by simp
  have b1: "File_readBytes stack 4 (TZif_magic @ f) = Inr (TZif_magic, f)"
      "File_readBytes stack (Suc 0) (version # f) = Inr ([version], f)"
      "File_readBytes stack 15 (reserved @ f) = Inr (reserved, f)"
      "File_readBytes stack (length abbrev) (abbrev @ f) = Inr (abbrev, f)" for f
    using readBytes_append [of "[version]" 1 stack f] assms
    by (simp_all add: readBytes_append TZif_magic_def [THEN arg_cong, of length])
  show ?thesis
    unfolding TimeZone_file_def readTimeZoneFile_def encode_zone_def
    using read_trans_encode [OF assms(3)] read_locals_encode [OF assms(4)]
      read_types_encode [OF assms(5)] assms(2)
    by (simp add: b1 readInt32_be32 counts [unfolded assms(2)] abbrev make_transitions_eq tz_data_empty_def)
qed

theorem readTimeZoneFile_roundtrip_witness:
  "TimeZone_file LittleEndian 4096 (Some (encode_zone 0 (replicate 15 0) [100, 200] [1, 0]
      [\<lparr>lt_gmtOffset = 0, lt_isDest = False, lt_arrbInx = 0\<rparr>,
       \<lparr>lt_gmtOffset = 3600, lt_isDest = True, lt_arrbInx = 4\<rparr>] [71, 77, 84, 0, 66, 83, 84, 0] []))
   = Inr (Some (sample_zone\<lparr>transitions := [\<lparr>tr_gmtime = 100, tr_localtime = 3700, tr_localtimeIdx = 1\<rparr>,
       \<lparr>tr_gmtime = 200, tr_localtime = 200, tr_localtimeIdx = 0\<rparr>],
       tz_abbreviation := [71, 77, 84, 0, 66, 83, 84, 0]\<rparr>))"
  by (subst readTimeZoneFile_roundtrip)
    (simp_all add: in_int32_def sample_zone_def transitions_of_def)

text \<open>
  A file of another kind gives a zone that is not valid. A file that cannot be opened does
  not: readTimeZoneFile returns true for it, the zone counts as valid, and the first search in it
  takes the front of an empty vector. A zone made from an offset always finds that offset.
\<close>

theorem unopened_file_is_valid:
  "(4 \<le> stack \<longrightarrow> take 4 f \<noteq> TZif_magic \<longrightarrow> TimeZone_file ho stack (Some f) = Inr None)
   \<and> (\<exists>data. TimeZone_file ho stack None = Inr (Some data) \<and> TimeZone_valid (Some data)
        \<and> findLocalTime data sentry gmt = Inl OutOfRange)
   \<and> (\<exists>data. TimeZone_offset off name = Some data
        \<and> findLocalTime data sentry gmt
            = Inr \<lparr>lt_gmtOffset = off, lt_isDest = False, lt_arrbInx = 0\<rparr>)"
  by (simp add: TimeZone_file_def readTimeZoneFile_def File_readBytes_def tz_data_empty_def
      TimeZone_valid_def findLocalTime_def vector_at_def TimeZone_offset_def)

theorem unopened_file_is_valid_witness:
  "TimeZone_file LittleEndian 4096 (Some [0x7F, 0x45, 0x4C, 0x46]) = Inr None"
  using unopened_file_is_valid [of 4096 "[0x7F, 0x45, 0x4C, 0x46]" LittleEndian
      "\<lparr>tr_gmtime = 0, tr_localtime = 0, tr_localtimeIdx = 0\<rparr>" True 0 "[]"]
  by (simp add: TZif_magic_def)

end
