(* ===== verification/Monitor.thy ===== *)
theory Monitor
  imports Prelude "HOL-Library.Extended_Nat"
begin

text \<open>
  base/Mutex.h, base/Condition.h and base/Condition.cc, and the form in which the classes of the
  library use them. A MutexLock is the state of its pthread mutex and the recorded holder. The
  operations of CountDownLatch, the two blocking queues and ThreadPool all have the same shape:
  take the lock, wait on a condition while a guard is false, do the body, notify, release; an
  operation is the record of these parts, and the step relation interleaves the calls of any
  number of threads, with every point where another thread can run as a step of its own. Waking
  up without a notification, which pthread\_cond\_wait permits, is a step too.
\<close>

section \<open>MutexLock\<close>

text \<open>Thread ids are positive; 0 in the holder field is nobody.\<close>

type_synonym tid = nat

record mutex =
  m_lock :: "tid option"
  m_holder :: tid

definition MutexLock_new :: mutex where
  "MutexLock_new = \<lparr>m_lock = None, m_holder = 0\<rparr>"

definition MutexLock_destroy :: "mutex \<Rightarrow> unit result" where
  "MutexLock_destroy m = assert_then (m_holder m = 0) (Inr ())"

definition MutexLock_unassgin :: "mutex \<Rightarrow> mutex" where
  "MutexLock_unassgin m = m\<lparr>m_holder := 0\<rparr>"

definition MutexLock_assign :: "tid \<Rightarrow> mutex \<Rightarrow> mutex" where
  "MutexLock_assign tid m = m\<lparr>m_holder := tid\<rparr>"

text \<open>A call that blocks is None. A thread that holds the lock blocks on it like any other.\<close>

definition MutexLock_lock :: "tid \<Rightarrow> mutex \<Rightarrow> mutex option" where
  "MutexLock_lock tid m =
     (if m_lock m = None then Some (MutexLock_assign tid (m\<lparr>m_lock := Some tid\<rparr>)) else None)"

definition MutexLock_unlock :: "mutex \<Rightarrow> mutex" where
  "MutexLock_unlock m = (MutexLock_unassgin m)\<lparr>m_lock := None\<rparr>"

section \<open>Condition\<close>

text \<open>
  wait in two parts: the guard object clears the holder and pthread\_cond\_wait releases the lock;
  when the thread has been woken it takes the lock again and the guard's destructor sets the
  holder.
\<close>

definition Condition_wait_release :: "mutex \<Rightarrow> mutex" where
  "Condition_wait_release m = (MutexLock_unassgin m)\<lparr>m_lock := None\<rparr>"

definition Condition_wait_return :: "tid \<Rightarrow> mutex \<Rightarrow> mutex option" where
  "Condition_wait_return tid m =
     (if m_lock m = None then Some (MutexLock_assign tid (m\<lparr>m_lock := Some tid\<rparr>)) else None)"

definition ETIMEDOUT :: int where
  "ETIMEDOUT = 110"

text \<open>
  waitForSeconds: the clock's time is moved on by the seconds; the call of pthread\_cond\_timedwait,
  which gets the absolute time, is an argument that gives its return value.
\<close>

definition Condition_waitForSeconds ::
  "int \<times> int \<Rightarrow> (int \<times> int \<Rightarrow> int) \<Rightarrow> int \<Rightarrow> bool" where
  "Condition_waitForSeconds clock timedwait seconds =
     (let abs_time = (fst clock + seconds, snd clock) in ETIMEDOUT = timedwait abs_time)"

section \<open>Operations and threads\<close>

datatype 'c notification = NoNotify | Notify 'c | NotifyAll 'c

record ('c, 'd, 'r) operation =
  guard :: "'d \<Rightarrow> bool"
  waits_on :: "'c option"
  body :: "'d \<Rightarrow> 'r \<times> 'd"
  notifies :: "'d \<Rightarrow> 'c notification"

text \<open>
  Where a thread is: outside, about to lock, holding the lock before the test of the loop, blocked
  on the condition, woken and about to lock again, holding the lock with the guard true, and
  holding it with the body done.
\<close>

datatype ('o, 'r) pc =
    Idle
  | Entering 'o
  | Testing 'o
  | Waiting 'o
  | Woken 'o
  | Running 'o
  | Leaving 'o 'r

record ('o, 'd, 'r) mon_state =
  mon_mutex :: mutex
  mon_data :: 'd
  mon_pc :: "tid \<Rightarrow> ('o, 'r) pc"

datatype ('o, 'r) label =
    Call tid 'o
  | Lock tid
  | Test tid
  | Spurious tid
  | Exec tid 'o 'r
  | Return tid 'o 'r

text \<open>The effect of a notification: signal wakes one of the waiting threads when there is one.\<close>

inductive notified ::
  "('o \<Rightarrow> 'c option) \<Rightarrow> 'c notification \<Rightarrow> (tid \<Rightarrow> ('o, 'r) pc) \<Rightarrow> (tid \<Rightarrow> ('o, 'r) pc) \<Rightarrow> bool"
  for waits :: "'o \<Rightarrow> 'c option" where
  notified_none: "notified waits NoNotify th th"
| notified_nobody: "(\<And>t opn. th t = Waiting opn \<Longrightarrow> waits opn \<noteq> Some c) \<Longrightarrow> notified waits (Notify c) th th"
| notified_one: "th t = Waiting opn \<Longrightarrow> waits opn = Some c
    \<Longrightarrow> notified waits (Notify c) th (th(t := Woken opn))"
| notified_all: "notified waits (NotifyAll c) th
    (\<lambda>t. case th t of Waiting opn \<Rightarrow> if waits opn = Some c then Woken opn else Waiting opn | p \<Rightarrow> p)"

inductive mon_step ::
  "('o \<Rightarrow> ('c, 'd, 'r) operation) \<Rightarrow> ('o, 'd, 'r) mon_state \<Rightarrow> ('o, 'r) label
     \<Rightarrow> ('o, 'd, 'r) mon_state \<Rightarrow> bool"
  for ops :: "'o \<Rightarrow> ('c, 'd, 'r) operation" where
  step_call: "mon_pc s t = Idle \<Longrightarrow> t \<noteq> 0
    \<Longrightarrow> mon_step ops s (Call t opn) (s\<lparr>mon_pc := (mon_pc s)(t := Entering opn)\<rparr>)"
| step_lock: "mon_pc s t = Entering opn \<Longrightarrow> MutexLock_lock t (mon_mutex s) = Some m
    \<Longrightarrow> mon_step ops s (Lock t) (s\<lparr>mon_mutex := m, mon_pc := (mon_pc s)(t := Testing opn)\<rparr>)"
| step_wait: "mon_pc s t = Testing opn \<Longrightarrow> \<not> guard (ops opn) (mon_data s)
    \<Longrightarrow> mon_step ops s (Test t) (s\<lparr>mon_mutex := Condition_wait_release (mon_mutex s),
                                mon_pc := (mon_pc s)(t := Waiting opn)\<rparr>)"
| step_pass: "mon_pc s t = Testing opn \<Longrightarrow> guard (ops opn) (mon_data s)
    \<Longrightarrow> mon_step ops s (Test t) (s\<lparr>mon_pc := (mon_pc s)(t := Running opn)\<rparr>)"
| step_spurious: "mon_pc s t = Waiting opn
    \<Longrightarrow> mon_step ops s (Spurious t) (s\<lparr>mon_pc := (mon_pc s)(t := Woken opn)\<rparr>)"
| step_relock: "mon_pc s t = Woken opn \<Longrightarrow> Condition_wait_return t (mon_mutex s) = Some m
    \<Longrightarrow> mon_step ops s (Lock t) (s\<lparr>mon_mutex := m, mon_pc := (mon_pc s)(t := Testing opn)\<rparr>)"
| step_exec: "mon_pc s t = Running opn \<Longrightarrow> body (ops opn) (mon_data s) = (r, d)
    \<Longrightarrow> notified (\<lambda>p. waits_on (ops p)) (notifies (ops opn) (mon_data s))
          ((mon_pc s)(t := Leaving opn r)) th
    \<Longrightarrow> mon_step ops s (Exec t opn r) (s\<lparr>mon_data := d, mon_pc := th\<rparr>)"
| step_return: "mon_pc s t = Leaving opn r
    \<Longrightarrow> mon_step ops s (Return t opn r) (s\<lparr>mon_mutex := MutexLock_unlock (mon_mutex s),
                                         mon_pc := (mon_pc s)(t := Idle)\<rparr>)"

inductive mon_run ::
  "('o \<Rightarrow> ('c, 'd, 'r) operation) \<Rightarrow> ('o, 'd, 'r) mon_state \<Rightarrow> ('o, 'r) label list
     \<Rightarrow> ('o, 'd, 'r) mon_state \<Rightarrow> bool"
  for ops :: "'o \<Rightarrow> ('c, 'd, 'r) operation" where
  run_nil: "mon_run ops s [] s"
| run_snoc: "mon_run ops s ls s' \<Longrightarrow> mon_step ops s' l s'' \<Longrightarrow> mon_run ops s (ls @ [l]) s''"

definition mon_init :: "'d \<Rightarrow> ('o, 'd, 'r) mon_state" where
  "mon_init d = \<lparr>mon_mutex = MutexLock_new, mon_data = d, mon_pc = (\<lambda>_. Idle)\<rparr>"

inductive_cases mon_stepE: "mon_step ops s l s'"
inductive_cases notifiedE: "notified waits n th th'"

section \<open>Mutual exclusion\<close>

definition in_section :: "('o, 'r) pc \<Rightarrow> bool" where
  "in_section p = (case p of Testing _ \<Rightarrow> True | Running _ \<Rightarrow> True | Leaving _ _ \<Rightarrow> True | _ \<Rightarrow> False)"

lemma in_section_simps [simp]:
  "in_section (Testing opn)" "in_section (Running opn)" "in_section (Leaving opn r)"
  "\<not> in_section Idle" "\<not> in_section (Entering opn)" "\<not> in_section (Waiting opn)" "\<not> in_section (Woken opn)"
  by (simp_all add: in_section_def)

text \<open>
  The lock is held exactly by the thread inside the critical section, the holder field names it,
  and only threads with a positive id and finitely many of them are not idle.
\<close>

definition mon_inv :: "('o, 'd, 'r) mon_state \<Rightarrow> bool" where
  "mon_inv s \<longleftrightarrow> (\<forall>t. in_section (mon_pc s t) \<longleftrightarrow> m_lock (mon_mutex s) = Some t)
     \<and> m_holder (mon_mutex s) = (case m_lock (mon_mutex s) of None \<Rightarrow> 0 | Some t \<Rightarrow> t)
     \<and> mon_pc s 0 = Idle \<and> finite {t. mon_pc s t \<noteq> Idle}"

lemmas mutex_defs = MutexLock_lock_def MutexLock_unlock_def MutexLock_assign_def
  MutexLock_unassgin_def Condition_wait_release_def Condition_wait_return_def

lemma notified_pc:
  assumes "notified waits n th th'"
  shows "th' u = th u \<or> (\<exists>opn. th u = Waiting opn \<and> th' u = Woken opn)"
  using assms by (cases rule: notified.cases) (auto split: pc.splits)

lemma notified_section:
  assumes "notified waits n th th'"
  shows "in_section (th' u) = in_section (th u)" and "th' u = Idle \<longleftrightarrow> th u = Idle"
  using notified_pc [OF assms, of u] by auto

lemma mon_inv_step:
  assumes inv: "mon_inv s" and step: "mon_step ops s l s'"
  shows "mon_inv s'"
  using step
proof cases
  case (step_call t opn)
  have "{u. ((mon_pc s)(t := Entering opn)) u \<noteq> Idle} \<subseteq> insert t {u. mon_pc s u \<noteq> Idle}" by auto
  then have "finite {u. ((mon_pc s)(t := Entering opn)) u \<noteq> Idle}"
    using inv finite_subset unfolding mon_inv_def by blast
  moreover have "m_lock (mon_mutex s) \<noteq> Some t"
    using inv step_call(3) by (metis in_section_simps(4) mon_inv_def)
  ultimately show ?thesis using inv step_call by (auto simp: mon_inv_def)
next
  case (step_lock t opn m)
  have "{u. ((mon_pc s)(t := Testing opn)) u \<noteq> Idle} = {u. mon_pc s u \<noteq> Idle}"
    using step_lock by auto
  then show ?thesis using inv step_lock
    by (auto simp: mon_inv_def mutex_defs split: if_splits)
next
  case (step_wait t opn)
  have "{u. ((mon_pc s)(t := Waiting opn)) u \<noteq> Idle} = {u. mon_pc s u \<noteq> Idle}"
    using step_wait by auto
  then show ?thesis using inv step_wait
    by (auto simp: mon_inv_def mutex_defs)
next
  case (step_pass t opn)
  have "{u. ((mon_pc s)(t := Running opn)) u \<noteq> Idle} = {u. mon_pc s u \<noteq> Idle}"
    using step_pass by auto
  then show ?thesis using inv step_pass by (auto simp: mon_inv_def)
next
  case (step_spurious t opn)
  have "{u. ((mon_pc s)(t := Woken opn)) u \<noteq> Idle} = {u. mon_pc s u \<noteq> Idle}"
    using step_spurious by auto
  moreover have "m_lock (mon_mutex s) \<noteq> Some t"
    using inv step_spurious(3) by (metis in_section_simps(6) mon_inv_def)
  ultimately show ?thesis using inv step_spurious by (auto simp: mon_inv_def)
next
  case (step_relock t opn m)
  have "{u. ((mon_pc s)(t := Testing opn)) u \<noteq> Idle} = {u. mon_pc s u \<noteq> Idle}"
    using step_relock by auto
  then show ?thesis using inv step_relock
    by (auto simp: mon_inv_def mutex_defs split: if_splits)
next
  case (step_exec t opn r d th)
  note n = notified_section [OF step_exec(5)]
  have "{u. th u \<noteq> Idle} = {u. mon_pc s u \<noteq> Idle}" using n(2) step_exec(3) by auto
  moreover have "in_section (th u) = in_section (mon_pc s u)" for u
    using n(1) step_exec(3) by simp
  moreover have "t \<noteq> 0" using inv step_exec(3) by (metis mon_inv_def pc.distinct(9))
  then have "th 0 = Idle" using n(2) [of 0] inv by (simp add: mon_inv_def)
  ultimately show ?thesis using inv step_exec by (simp add: mon_inv_def)
next
  case (step_return t opn r)
  have "{u. ((mon_pc s)(t := Idle)) u \<noteq> Idle} \<subseteq> {u. mon_pc s u \<noteq> Idle}" by auto
  then have "finite {u. ((mon_pc s)(t := Idle)) u \<noteq> Idle}"
    using inv finite_subset unfolding mon_inv_def by blast
  then show ?thesis using inv step_return
    by (auto simp: mon_inv_def mutex_defs)
qed

lemma mon_inv_init: "mon_inv (mon_init d)"
  by (simp add: mon_inv_def mon_init_def MutexLock_new_def)

lemma mon_inv_run: "mon_run ops s ls s' \<Longrightarrow> mon_inv s \<Longrightarrow> mon_inv s'"
  by (induction rule: mon_run.induct) (auto dest: mon_inv_step)

text \<open>At most one thread is inside, so a running operation sees the data alone.\<close>

lemma mon_mutual_exclusion:
  assumes "mon_inv s" and "in_section (mon_pc s t)" and "in_section (mon_pc s u)"
  shows "t = u"
  using assms by (metis mon_inv_def option.inject)

section \<open>Histories\<close>

text \<open>
  The operations that took place, in the order in which their bodies ran, and what a sequential
  execution of them may be: every guard true when the operation runs, results and data as the
  bodies give them.
\<close>

fun executed :: "('o, 'r) label list \<Rightarrow> ('o \<times> 'r) list" where
  "executed [] = []"
| "executed (Exec t opn r # ls) = (opn, r) # executed ls"
| "executed (_ # ls) = executed ls"

lemma executed_append [simp]: "executed (ls @ ls') = executed ls @ executed ls'"
  by (induction ls rule: executed.induct) simp_all

primrec legal :: "('o \<Rightarrow> ('c, 'd, 'r) operation) \<Rightarrow> 'd \<Rightarrow> ('o \<times> 'r) list \<Rightarrow> 'd \<Rightarrow> bool" where
  "legal ops d [] d' \<longleftrightarrow> d' = d"
| "legal ops d (e # es) d' \<longleftrightarrow> guard (ops (fst e)) d
     \<and> fst (body (ops (fst e)) d) = snd e \<and> legal ops (snd (body (ops (fst e)) d)) es d'"

lemma legal_append:
  "legal ops d (es @ es') d' \<longleftrightarrow> (\<exists>d''. legal ops d es d'' \<and> legal ops d'' es' d')"
  by (induction es arbitrary: d) auto

text \<open>A running thread's guard is still true: nobody else can have changed the data.\<close>

definition guarded :: "('o \<Rightarrow> ('c, 'd, 'r) operation) \<Rightarrow> ('o, 'd, 'r) mon_state \<Rightarrow> bool" where
  "guarded ops s \<longleftrightarrow> (\<forall>t opn. mon_pc s t = Running opn \<longrightarrow> guard (ops opn) (mon_data s))"

lemma guarded_step:
  assumes inv: "mon_inv s" and g: "guarded ops s" and step: "mon_step ops s l s'"
  shows "guarded ops s'"
  using step
proof cases
  case (step_exec t opn r d th)
  have "th u \<noteq> Running p" for u p
  proof
    assume "th u = Running p"
    then have "((mon_pc s)(t := Leaving opn r)) u = Running p"
      using notified_pc [OF step_exec(5), of u] by auto
    then have "u \<noteq> t" and "in_section (mon_pc s u)" by (auto split: if_splits)
    then show False using mon_mutual_exclusion [OF inv, of t u] step_exec(3) by simp
  qed
  then show ?thesis using step_exec by (simp add: guarded_def)
qed (use g in \<open>auto simp: guarded_def\<close>)

lemma mon_run_legal:
  assumes "mon_run ops (mon_init d) ls s"
  shows "mon_inv s \<and> guarded ops s \<and> legal ops d (executed ls) (mon_data s)"
  using assms
proof (induction "mon_init d :: ('a, 'c, 'd) mon_state" ls s rule: mon_run.induct)
  case run_nil
  then show ?case by (simp add: mon_inv_init) (simp add: mon_init_def guarded_def)
next
  case (run_snoc ls s' l s'')
  then have inv: "mon_inv s'" and g: "guarded ops s'" and leg: "legal ops d (executed ls) (mon_data s')"
    by simp_all
  have "legal ops d (executed (ls @ [l])) (mon_data s'')"
    using run_snoc(3)
  proof cases
    case (step_exec t opn r d' th)
    then show ?thesis using leg g by (auto simp: legal_append guarded_def)
  qed (use leg in simp_all)
  then show ?case
    using mon_inv_step [OF inv run_snoc(3)] guarded_step [OF inv g run_snoc(3)] by simp
qed

text \<open>
  An operation takes effect once between its call and its return, which carries the result of
  that moment: the phases of a thread, from its labels alone.
\<close>

datatype ('o, 'r) phase = Out | Called 'o | Done 'o 'r | Broken

fun track :: "tid \<Rightarrow> ('o, 'r) phase \<Rightarrow> ('o, 'r) label \<Rightarrow> ('o, 'r) phase" where
  "track t ph (Call u opn) = (if u \<noteq> t then ph else if ph = Out then Called opn else Broken)"
| "track t ph (Exec u opn r) =
     (if u \<noteq> t then ph else if ph = Called opn then Done opn r else Broken)"
| "track t ph (Return u opn r) = (if u \<noteq> t then ph else if ph = Done opn r then Out else Broken)"
| "track t ph _ = ph"

definition phase_of :: "('o, 'r) pc \<Rightarrow> ('o, 'r) phase" where
  "phase_of p = (case p of Idle \<Rightarrow> Out | Entering opn \<Rightarrow> Called opn | Testing opn \<Rightarrow> Called opn
     | Waiting opn \<Rightarrow> Called opn | Woken opn \<Rightarrow> Called opn | Running opn \<Rightarrow> Called opn
     | Leaving opn r \<Rightarrow> Done opn r)"

lemma phase_of_simps [simp]:
  "phase_of Idle = Out" "phase_of (Entering opn) = Called opn" "phase_of (Testing opn) = Called opn"
  "phase_of (Waiting opn) = Called opn" "phase_of (Woken opn) = Called opn"
  "phase_of (Running opn) = Called opn" "phase_of (Leaving opn r) = Done opn r"
  by (simp_all add: phase_of_def)

lemma track_step: "mon_step ops s l s' \<Longrightarrow> track u (phase_of (mon_pc s u)) l = phase_of (mon_pc s' u)"
proof (induction rule: mon_step.induct)
  case (step_exec s t opn r d th)
  then show ?case using notified_pc [OF step_exec(3), of u] by auto
qed auto

lemma mon_run_phases:
  "mon_run ops (mon_init d) ls s \<Longrightarrow> foldl (track t) Out ls = phase_of (mon_pc s t)"
proof (induction "mon_init d :: ('a, 'c, 'd) mon_state" ls s rule: mon_run.induct)
  case run_nil
  then show ?case by (simp add: mon_init_def)
qed (simp add: track_step)

text \<open>
  Only an operation whose guard can be false waits, so one that names no condition and has the
  guard True never does.
\<close>

definition waits_well :: "('o \<Rightarrow> ('c, 'd, 'r) operation) \<Rightarrow> bool" where
  "waits_well ops \<longleftrightarrow> (\<forall>opn. waits_on (ops opn) = None \<longrightarrow> guard (ops opn) = (\<lambda>_. True))"

lemma waiting_step:
  "mon_step ops s l s' \<Longrightarrow> waits_well ops
    \<Longrightarrow> \<forall>t p. mon_pc s t = Waiting p \<longrightarrow> waits_on (ops p) \<noteq> None
    \<Longrightarrow> mon_pc s' t = Waiting p \<Longrightarrow> waits_on (ops p) \<noteq> None"
proof (induction rule: mon_step.induct)
  case (step_exec s u opn r d th)
  have "mon_pc s t = Waiting p"
    using notified_pc [OF step_exec(3), of t] step_exec(6) by (auto split: if_splits)
  then show ?case using step_exec(5) by blast
qed (auto simp: waits_well_def split: if_splits)

lemma waiting_has_condition:
  assumes "mon_run ops (mon_init d) ls s" and "waits_well ops" and "mon_pc s t = Waiting p"
  shows "waits_on (ops p) \<noteq> None"
  using assms(1,3)
proof (induction "mon_init d :: ('a, 'c, 'd) mon_state" ls s arbitrary: t p rule: mon_run.induct)
  case run_nil
  then show ?case by (simp add: mon_init_def)
next
  case (run_snoc ls s' l s'')
  then show ?case using waiting_step [OF run_snoc(3) assms(2)] by blast
qed

section \<open>No lost wakeups\<close>

text \<open>
  A state in which no thread can go on by itself: new calls and wakeups without a notification
  are the only steps left.
\<close>

definition stuck :: "('o \<Rightarrow> ('c, 'd, 'r) operation) \<Rightarrow> ('o, 'd, 'r) mon_state \<Rightarrow> bool" where
  "stuck ops s \<longleftrightarrow> (\<forall>l s'. mon_step ops s l s' \<longrightarrow> (\<exists>t opn. l = Call t opn) \<or> (\<exists>t. l = Spurious t))"

definition waiters :: "('o \<Rightarrow> ('c, 'd, 'r) operation) \<Rightarrow> 'c \<Rightarrow> (tid \<Rightarrow> ('o, 'r) pc) \<Rightarrow> tid set" where
  "waiters ops c th = {t. \<exists>opn. th t = Waiting opn \<and> waits_on (ops opn) = Some c}"

lemma notified_exists: "\<exists>th'. notified waits n th th'"
proof (cases n)
  case (Notify c)
  then show ?thesis
    by (cases "\<exists>t opn. th t = Waiting opn \<and> waits opn = Some c") (blast intro: notified.intros)+
qed (blast intro: notified.intros)+

lemma stuck_quiet:
  assumes inv: "mon_inv s" and stuck: "stuck ops s"
  shows "mon_pc s t = Idle \<or> (\<exists>opn. mon_pc s t = Waiting opn)"
proof -
  have no_section: "\<not> in_section (mon_pc s u)" for u
  proof
    assume "in_section (mon_pc s u)"
    then consider opn where "mon_pc s u = Testing opn" | opn where "mon_pc s u = Running opn"
      | opn r where "mon_pc s u = Leaving opn r" by (cases "mon_pc s u") auto
    then show False
    proof cases
      case (1 opn)
      then show False using stuck step_wait [OF 1, of ops] step_pass [OF 1, of ops]
        unfolding stuck_def by blast
    next
      case (2 opn)
      obtain r d where rd: "body (ops opn) (mon_data s) = (r, d)" by fastforce
      obtain th where "notified (\<lambda>p. waits_on (ops p)) (notifies (ops opn) (mon_data s))
          ((mon_pc s)(u := Leaving opn r)) th"
        using notified_exists by blast
      then have "mon_step ops s (Exec u opn r) (s\<lparr>mon_data := d, mon_pc := th\<rparr>)"
        using 2 rd by (intro mon_step.step_exec)
      then show False using stuck unfolding stuck_def by blast
    next
      case (3 opn r)
      then show False using stuck step_return [OF 3, of ops] unfolding stuck_def by blast
    qed
  qed
  then have free: "m_lock (mon_mutex s) = None" using inv unfolding mon_inv_def by (metis not_None_eq)
  show ?thesis
  proof (cases "mon_pc s t")
    case (Entering opn)
    then show ?thesis using stuck step_lock [OF Entering, of _ ops] free
      unfolding stuck_def MutexLock_lock_def by fastforce
  next
    case (Woken opn)
    then show ?thesis using stuck step_relock [OF Woken, of _ ops] free
      unfolding stuck_def Condition_wait_return_def by fastforce
  qed (use no_section [of t] in auto)
qed

text \<open>Threads that will look at the guard again before they block on \<open>c\<close>.\<close>

definition alert :: "('o \<Rightarrow> ('c, 'd, 'r) operation) \<Rightarrow> 'c \<Rightarrow> (tid \<Rightarrow> ('o, 'r) pc) \<Rightarrow> tid set" where
  "alert ops c th =
     {t. \<exists>opn. (th t = Woken opn \<or> th t = Testing opn \<or> th t = Running opn) \<and> waits_on (ops opn) = Some c}"

text \<open>
  The contract of a condition: \<open>stock\<close> counts the operations waiting on it that could pass.
  An operation that uses the condition takes one of them; any other that adds to the stock adds
  at most one and notifies, or notifies all.
\<close>

locale signalling =
  fixes ops :: "'o \<Rightarrow> ('c, 'd, 'r) operation"
    and c :: 'c
    and stock :: "'d \<Rightarrow> enat"
  assumes stock_guard: "waits_on (ops opn) = Some c \<Longrightarrow> guard (ops opn) d \<longleftrightarrow> stock d \<noteq> 0"
    and stock_taken: "waits_on (ops opn) = Some c \<Longrightarrow> guard (ops opn) d
      \<Longrightarrow> stock (snd (body (ops opn) d)) + 1 \<le> stock d"
    and stock_given: "waits_on (ops opn) \<noteq> Some c \<Longrightarrow> guard (ops opn) d
      \<Longrightarrow> stock (snd (body (ops opn) d)) \<le> stock d
        \<or> stock (snd (body (ops opn) d)) \<le> stock d + 1 \<and> notifies (ops opn) d = Notify c
        \<or> notifies (ops opn) d = NotifyAll c"
begin

definition enough :: "('o, 'd, 'r) mon_state \<Rightarrow> bool" where
  "enough s \<longleftrightarrow> waiters ops c (mon_pc s) \<noteq> {} \<longrightarrow> stock (mon_data s) \<le> enat (card (alert ops c (mon_pc s)))"

lemma finite_alert: "mon_inv s \<Longrightarrow> finite (alert ops c (mon_pc s))"
  by (rule finite_subset [of _ "{t. mon_pc s t \<noteq> Idle}"]) (auto simp: alert_def mon_inv_def)

lemma enough_mono:
  assumes "enough s" and "waiters ops c (mon_pc s') \<subseteq> waiters ops c (mon_pc s)"
    and "alert ops c (mon_pc s) \<subseteq> alert ops c (mon_pc s')" and "mon_inv s'"
    and "stock (mon_data s') \<le> stock (mon_data s)"
  shows "enough s'"
proof -
  have "card (alert ops c (mon_pc s)) \<le> card (alert ops c (mon_pc s'))"
    using assms(3) finite_alert [OF assms(4)] by (rule card_mono [rotated])
  then have "enat (card (alert ops c (mon_pc s))) \<le> enat (card (alert ops c (mon_pc s')))" by simp
  moreover have "waiters ops c (mon_pc s') \<noteq> {} \<Longrightarrow> waiters ops c (mon_pc s) \<noteq> {}"
    using assms(2) by blast
  ultimately show ?thesis using assms(1,5) unfolding enough_def by (blast intro: order_trans)
qed

lemma notified_waiters:
  assumes "notified (\<lambda>p. waits_on (ops p)) n th th'"
  shows "waiters ops c th' \<subseteq> waiters ops c th" and "alert ops c th \<subseteq> alert ops c th'"
proof -
  have same: "th' u = th u \<or> (\<exists>opn. th u = Waiting opn \<and> th' u = Woken opn)" for u
    using notified_pc [OF assms] .
  show "waiters ops c th' \<subseteq> waiters ops c th"
  proof
    fix u assume "u \<in> waiters ops c th'"
    then show "u \<in> waiters ops c th" using same [of u] by (auto simp: waiters_def)
  qed
  show "alert ops c th \<subseteq> alert ops c th'"
  proof
    fix u assume "u \<in> alert ops c th"
    then show "u \<in> alert ops c th'" using same [of u] by (auto simp: alert_def)
  qed
qed

lemma enough_exec:
  assumes e: "enough s" and inv: "mon_inv s" and inv': "mon_inv s'" and g: "guarded ops s"
    and run: "mon_pc s t = Running opn" and b: "body (ops opn) (mon_data s) = (r, d)"
    and n: "notified (\<lambda>p. waits_on (ops p)) (notifies (ops opn) (mon_data s))
              ((mon_pc s)(t := Leaving opn r)) th"
    and s': "s' = s\<lparr>mon_data := d, mon_pc := th\<rparr>"
  shows "enough s'"
proof -
  let ?pc = "(mon_pc s)(t := Leaving opn r)"
  note nw = notified_waiters [OF n]
  have guard: "guard (ops opn) (mon_data s)" using g run by (simp add: guarded_def)
  have w: "waiters ops c ?pc = waiters ops c (mon_pc s)" using run by (auto simp: waiters_def)
  have fin: "finite (alert ops c th)" using finite_alert [OF inv'] s' by simp
  show ?thesis
  proof (cases "waits_on (ops opn) = Some c")
    case True
    have a: "alert ops c (mon_pc s) = insert t (alert ops c ?pc)" "t \<notin> alert ops c ?pc"
      using run True by (auto simp: alert_def)
    have fin_pc: "finite (alert ops c ?pc)" using nw(2) fin by (rule finite_subset)
    have "stock d + 1 \<le> stock (mon_data s)" using stock_taken [OF True guard] b by simp
    moreover have "waiters ops c th \<noteq> {} \<Longrightarrow> stock (mon_data s) \<le> enat (Suc (card (alert ops c ?pc)))"
      using e nw(1) w a fin_pc by (auto simp: enough_def)
    moreover have "card (alert ops c ?pc) \<le> card (alert ops c th)" using nw(2) fin by (rule card_mono [rotated])
    ultimately have "waiters ops c th \<noteq> {} \<Longrightarrow> stock d \<le> enat (card (alert ops c th))"
      by (cases "stock d"; cases "stock (mon_data s)") (auto simp: one_enat_def)
    then show ?thesis by (simp add: enough_def s')
  next
    case False
    have a: "alert ops c (mon_pc s) \<subseteq> alert ops c ?pc" using run False by (auto simp: alert_def)
    consider "stock d \<le> stock (mon_data s)"
      | "stock d \<le> stock (mon_data s) + 1" "notifies (ops opn) (mon_data s) = Notify c"
      | "notifies (ops opn) (mon_data s) = NotifyAll c"
      using stock_given [OF False guard] b by auto
    then show ?thesis
    proof cases
      case 1
      show ?thesis by (rule enough_mono [OF e _ _ inv']) (use 1 nw w a s' in auto)
    next
      case 2
      show ?thesis using n unfolding 2(2)
      proof (cases rule: notified.cases)
        case notified_nobody
        then have "waiters ops c th = {}" by (auto simp: waiters_def)
        then show ?thesis by (simp add: enough_def s')
      next
        case (notified_one u p)
        then have u: "u \<in> waiters ops c ?pc" "u \<notin> alert ops c ?pc"
          by (auto simp: waiters_def alert_def)
        have "insert u (alert ops c ?pc) \<subseteq> alert ops c th" using notified_one by (auto simp: alert_def)
        then have "Suc (card (alert ops c (mon_pc s))) \<le> card (alert ops c th)"
        proof -
          have f: "finite (alert ops c ?pc)" using nw(2) fin by (rule finite_subset)
          have "card (alert ops c (mon_pc s)) \<le> card (alert ops c ?pc)" using a f by (rule card_mono [rotated])
          moreover have "card (insert u (alert ops c ?pc)) = Suc (card (alert ops c ?pc))"
            using f u(2) by simp
          moreover have "card (insert u (alert ops c ?pc)) \<le> card (alert ops c th)"
            using \<open>insert u (alert ops c ?pc) \<subseteq> alert ops c th\<close> fin by (rule card_mono [rotated])
          ultimately show ?thesis by linarith
        qed
        moreover have "stock (mon_data s) \<le> enat (card (alert ops c (mon_pc s)))"
          using e u(1) w by (auto simp: enough_def)
        ultimately have "stock d \<le> enat (card (alert ops c th))"
          using 2(1) by (cases "stock d"; cases "stock (mon_data s)") (auto simp: one_enat_def)
        then show ?thesis by (simp add: enough_def s')
      qed
    next
      case 3
      have "waiters ops c th = {}" using n unfolding 3
        by (cases rule: notified.cases) (auto simp: waiters_def split: pc.splits)
      then show ?thesis by (simp add: enough_def s')
    qed
  qed
qed

lemma enough_step:
  assumes e: "enough s" and inv: "mon_inv s" and g: "guarded ops s" and step: "mon_step ops s l s'"
  shows "enough s'"
  using step
proof cases
  case (step_exec t opn r d th)
  then show ?thesis
    using enough_exec [OF e inv mon_inv_step [OF inv step] g step_exec(3,4,5,2)] by simp
next
  case (step_wait t opn)
  show ?thesis
  proof (cases "waits_on (ops opn) = Some c")
    case True
    then have "stock (mon_data s) = 0" using step_wait(4) stock_guard by blast
    then show ?thesis using step_wait(2) by (simp add: enough_def)
  next
    case False
    show ?thesis
      by (rule enough_mono [OF e _ _ mon_inv_step [OF inv step]])
        (use step_wait False in \<open>auto simp: waiters_def alert_def\<close>)
  qed
qed (rule enough_mono [OF e _ _ mon_inv_step [OF inv step]];
     force simp: waiters_def alert_def split: if_splits)+

lemma enough_run:
  assumes "mon_run ops (mon_init d) ls s"
  shows "enough s"
  using assms
proof (induction "mon_init d :: ('o, 'd, 'r) mon_state" ls s rule: mon_run.induct)
  case run_nil
  then show ?case by (simp add: enough_def waiters_def mon_init_def)
next
  case (run_snoc ls s' l s'')
  then show ?case using enough_step mon_run_legal [OF run_snoc(1)] by blast
qed

lemma no_lost_wakeup:
  assumes run: "mon_run ops (mon_init d) ls s" and stuck: "stuck ops s"
    and wait: "mon_pc s t = Waiting opn" and on: "waits_on (ops opn) = Some c"
  shows "\<not> guard (ops opn) (mon_data s)"
proof -
  have "alert ops c (mon_pc s) = {}"
    using stuck_quiet [OF _ stuck] mon_run_legal [OF run]
    by (auto simp: alert_def) (metis pc.distinct)+
  moreover have "waiters ops c (mon_pc s) \<noteq> {}" using wait on by (auto simp: waiters_def)
  ultimately have "stock (mon_data s) = 0"
    using enough_run [OF run] by (simp add: enough_def zero_enat_def [symmetric])
  then show ?thesis using stock_guard [OF on] by simp
qed

end

section \<open>A scheduler\<close>

text \<open>
  The steps as a function, for concrete runs of a fixed list of threads: a label that cannot be
  taken gives None, and a notification wakes the first waiting thread of the list.
\<close>

definition notify_first ::
  "('o \<Rightarrow> 'c option) \<Rightarrow> tid list \<Rightarrow> 'c notification \<Rightarrow> (tid \<Rightarrow> ('o, 'r) pc) \<Rightarrow> (tid \<Rightarrow> ('o, 'r) pc)" where
  "notify_first waits ts n th =
     (case n of NoNotify \<Rightarrow> th
      | Notify c \<Rightarrow>
          (case List.find (\<lambda>t. case th t of Waiting p \<Rightarrow> waits p = Some c | _ \<Rightarrow> False) ts of
             None \<Rightarrow> th
           | Some t \<Rightarrow> (case th t of Waiting p \<Rightarrow> th(t := Woken p) | _ \<Rightarrow> th))
      | NotifyAll c \<Rightarrow>
          (\<lambda>t. case th t of Waiting p \<Rightarrow> if waits p = Some c then Woken p else Waiting p | q \<Rightarrow> q))"

lemma notify_first_notified:
  assumes idle: "\<And>t. t \<notin> set ts \<Longrightarrow> th t = Idle"
  shows "notified waits n th (notify_first waits ts n th)"
proof (cases n)
  case (Notify c)
  let ?P = "\<lambda>t. case th t of Waiting p \<Rightarrow> waits p = Some c | _ \<Rightarrow> False"
  show ?thesis
  proof (cases "List.find ?P ts")
    case None
    have "waits p \<noteq> Some c" if "th t = Waiting p" for t p
      using None idle [of t] that by (cases "t \<in> set ts") (auto simp: find_None_iff)
    then show ?thesis using Notify None by (simp add: notify_first_def notified.notified_nobody)
  next
    case (Some t)
    then have "?P t" by (auto simp: find_Some_iff)
    then obtain p where "th t = Waiting p" "waits p = Some c" by (cases "th t") auto
    then show ?thesis using Notify Some by (simp add: notify_first_def notified.notified_one)
  qed
qed (simp_all add: notify_first_def notified.notified_none notified.notified_all)

definition mon_next ::
  "('o \<Rightarrow> ('c, 'd, 'r) operation) \<Rightarrow> tid list \<Rightarrow> ('o, 'd, 'r) mon_state \<Rightarrow> ('o, 'r) label
     \<Rightarrow> ('o, 'd, 'r) mon_state option" where
  "mon_next ops ts s l =
     (case l of
        Call t p \<Rightarrow>
          if mon_pc s t = Idle \<and> t \<noteq> 0 \<and> t \<in> set ts
          then Some (s\<lparr>mon_pc := (mon_pc s)(t := Entering p)\<rparr>) else None
      | Lock t \<Rightarrow>
          (case mon_pc s t of
             Entering p \<Rightarrow> (case MutexLock_lock t (mon_mutex s) of None \<Rightarrow> None
               | Some m \<Rightarrow> Some (s\<lparr>mon_mutex := m, mon_pc := (mon_pc s)(t := Testing p)\<rparr>))
           | Woken p \<Rightarrow> (case Condition_wait_return t (mon_mutex s) of None \<Rightarrow> None
               | Some m \<Rightarrow> Some (s\<lparr>mon_mutex := m, mon_pc := (mon_pc s)(t := Testing p)\<rparr>))
           | _ \<Rightarrow> None)
      | Test t \<Rightarrow>
          (case mon_pc s t of
             Testing p \<Rightarrow>
               if guard (ops p) (mon_data s) then Some (s\<lparr>mon_pc := (mon_pc s)(t := Running p)\<rparr>)
               else Some (s\<lparr>mon_mutex := Condition_wait_release (mon_mutex s),
                            mon_pc := (mon_pc s)(t := Waiting p)\<rparr>)
           | _ \<Rightarrow> None)
      | Spurious t \<Rightarrow>
          (case mon_pc s t of Waiting p \<Rightarrow> Some (s\<lparr>mon_pc := (mon_pc s)(t := Woken p)\<rparr>) | _ \<Rightarrow> None)
      | Exec t p r \<Rightarrow>
          if mon_pc s t = Running p \<and> fst (body (ops p) (mon_data s)) = r
          then Some (s\<lparr>mon_data := snd (body (ops p) (mon_data s)),
                       mon_pc := notify_first (\<lambda>p. waits_on (ops p)) ts (notifies (ops p) (mon_data s))
                                   ((mon_pc s)(t := Leaving p r))\<rparr>)
          else None
      | Return t p r \<Rightarrow>
          if mon_pc s t = Leaving p r
          then Some (s\<lparr>mon_mutex := MutexLock_unlock (mon_mutex s), mon_pc := (mon_pc s)(t := Idle)\<rparr>)
          else None)"

definition mon_exec ::
  "('o \<Rightarrow> ('c, 'd, 'r) operation) \<Rightarrow> tid list \<Rightarrow> 'd \<Rightarrow> ('o, 'r) label list
     \<Rightarrow> ('o, 'd, 'r) mon_state option" where
  "mon_exec ops ts d ls = foldl (\<lambda>s l. Option.bind s (\<lambda>s. mon_next ops ts s l)) (Some (mon_init d)) ls"

lemma mon_next_step:
  assumes idle: "\<And>t. t \<notin> set ts \<Longrightarrow> mon_pc s t = Idle" and nx: "mon_next ops ts s l = Some s'"
  shows "mon_step ops s l s'"
proof (cases l)
  case (Exec t p r)
  then have pc: "mon_pc s t = Running p" and b: "body (ops p) (mon_data s) = (r, snd (body (ops p) (mon_data s)))"
    and s': "s' = s\<lparr>mon_data := snd (body (ops p) (mon_data s)),
                   mon_pc := notify_first (\<lambda>p. waits_on (ops p)) ts (notifies (ops p) (mon_data s))
                               ((mon_pc s)(t := Leaving p r))\<rparr>"
    using nx by (auto simp: mon_next_def split: if_splits)
  have "t \<in> set ts" using idle [of t] pc by (cases "t \<in> set ts") auto
  then show ?thesis unfolding Exec s'
    using pc b by (intro mon_step.step_exec notify_first_notified) (use idle in auto)
qed (use nx in \<open>auto simp: mon_next_def intro: mon_step.intros split: pc.splits if_splits option.splits\<close>)

lemma mon_step_idle:
  assumes "mon_step ops s l s'" and "mon_pc s t = Idle" and "\<And>p. l \<noteq> Call t p"
  shows "mon_pc s' t = Idle"
  using assms
proof (induction rule: mon_step.induct)
  case (step_exec s u p r d th)
  then show ?case using notified_pc [OF step_exec(3), of t] by (auto split: if_splits)
qed auto

lemma mon_exec_run:
  "mon_exec ops ts d ls = Some s \<Longrightarrow> mon_run ops (mon_init d) ls s \<and> (\<forall>t. t \<notin> set ts \<longrightarrow> mon_pc s t = Idle)"
proof (induction ls arbitrary: s rule: rev_induct)
  case Nil
  then show ?case by (simp add: mon_exec_def mon_run.run_nil) (auto simp: mon_init_def)
next
  case (snoc l ls)
  then obtain s1 where s1: "mon_exec ops ts d ls = Some s1" and nx: "mon_next ops ts s1 l = Some s"
    by (auto simp: mon_exec_def bind_eq_Some_conv)
  have run: "mon_run ops (mon_init d) ls s1" and idle: "\<And>t. t \<notin> set ts \<Longrightarrow> mon_pc s1 t = Idle"
    using snoc.IH [OF s1] by auto
  have step: "mon_step ops s1 l s" by (rule mon_next_step [OF idle nx])
  have "mon_pc s t = Idle" if "t \<notin> set ts" for t
    using mon_step_idle [OF step idle [OF that]] nx that by (fastforce simp: mon_next_def split: if_splits)
  then show ?case using mon_run.run_snoc [OF run step] by blast
qed

section \<open>Properties\<close>

text \<open>
  C4. What MutexLock and Condition give their users. In every interleaving of the calls of any
  number of threads, at most one thread is inside the lock and the holder field names it (0 when
  nobody is); the operations take place one after another, each with its guard true and on the
  data the previous one left; and each takes effect exactly once between its call and its return,
  with the result it returns.
\<close>

theorem monitor_linearizable:
  assumes "mon_run ops (mon_init d) ls s"
  shows "(\<forall>t u. in_section (mon_pc s t) \<and> in_section (mon_pc s u) \<longrightarrow> t = u)
    \<and> (\<forall>t. in_section (mon_pc s t) \<longrightarrow> m_holder (mon_mutex s) = t \<and> t \<noteq> 0)
    \<and> ((\<forall>t. \<not> in_section (mon_pc s t)) \<longrightarrow> MutexLock_destroy (mon_mutex s) = Inr ())
    \<and> legal ops d (executed ls) (mon_data s)
    \<and> (\<forall>t. foldl (track t) Out ls = phase_of (mon_pc s t) \<and> foldl (track t) Out ls \<noteq> Broken)"
proof -
  have inv: "mon_inv s" and leg: "legal ops d (executed ls) (mon_data s)"
    using mon_run_legal [OF assms] by simp_all
  have "t \<noteq> 0" if "in_section (mon_pc s t)" for t
    using that inv by (metis in_section_simps(4) mon_inv_def)
  moreover have "m_holder (mon_mutex s) = t" if "in_section (mon_pc s t)" for t
    using that inv unfolding mon_inv_def by (metis option.simps(5))
  moreover have "m_holder (mon_mutex s) = 0" if "\<forall>t. \<not> in_section (mon_pc s t)"
    using that inv unfolding mon_inv_def by (metis not_None_eq option.simps(4))
  moreover have "phase_of p \<noteq> Broken" for p :: "('a, 'd) pc" by (cases p) simp_all
  ultimately show ?thesis
    using mon_mutual_exclusion [OF inv] leg mon_run_phases [OF assms]
    by (simp add: MutexLock_destroy_def)
qed

text \<open>A register with one operation, run by two threads, the second of which finds the lock taken.\<close>

definition tick_op :: "unit \<Rightarrow> (unit, nat, nat) operation" where
  "tick_op _ = \<lparr>guard = (\<lambda>_. True), waits_on = None, body = (\<lambda>n. (n, n + 1)), notifies = (\<lambda>_. NoNotify)\<rparr>"

theorem monitor_linearizable_witness:
  "\<exists>s. mon_run tick_op (mon_init 0) [Call 1 (), Lock 1, Call 2 (), Test 1, Exec 1 () 0] s
     \<and> m_holder (mon_mutex s) = 1 \<and> mon_data s = 1"
proof -
  have "\<exists>s. mon_exec tick_op [1, 2] 0 [Call 1 (), Lock 1, Call 2 (), Test 1, Exec 1 () 0] = Some s
      \<and> in_section (mon_pc s 1)"
    by (simp add: mon_exec_def mon_next_def tick_op_def mutex_defs mon_init_def MutexLock_new_def
        notify_first_def)
  then obtain s where s: "mon_run tick_op (mon_init 0) [Call 1 (), Lock 1, Call 2 (), Test 1, Exec 1 () 0] s"
      "in_section (mon_pc s 1)"
    by (elim exE conjE) (drule mon_exec_run, blast)
  then show ?thesis using monitor_linearizable [OF s(1)] by (auto simp: tick_op_def)
qed

end
