(* ===== verification/BlockingQueue.thy ===== *)
theory BlockingQueue
  imports Monitor
begin

text \<open>
  base/BlockingQueue.h: the unbounded queue. Its data is the deque; its three operations are
  monitor operations on the one condition of the class.
\<close>

datatype 'a queue_op = QGet | QPut 'a | QSize

datatype 'a queue_result = Got 'a | Stored | Size nat | Failed fault

datatype bq_cond = m_cond

text \<open>The body of get from the assertion on.\<close>

definition BlockingQueue_get_body :: "'a list \<Rightarrow> 'a queue_result \<times> 'a list" where
  "BlockingQueue_get_body m_deque =
     (case m_deque of [] \<Rightarrow> (Failed AssertFail, m_deque) | value # rest \<Rightarrow> (Got value, rest))"

definition BlockingQueue_get :: "(bq_cond, 'a list, 'a queue_result) operation" where
  "BlockingQueue_get = \<lparr>guard = (\<lambda>m_deque. m_deque \<noteq> []), waits_on = Some m_cond,
     body = BlockingQueue_get_body, notifies = (\<lambda>_. NoNotify)\<rparr>"

definition BlockingQueue_put :: "'a \<Rightarrow> (bq_cond, 'a list, 'a queue_result) operation" where
  "BlockingQueue_put value = \<lparr>guard = (\<lambda>_. True), waits_on = None,
     body = (\<lambda>m_deque. (Stored, m_deque @ [value])), notifies = (\<lambda>_. Notify m_cond)\<rparr>"

definition BlockingQueue_size :: "(bq_cond, 'a list, 'a queue_result) operation" where
  "BlockingQueue_size = \<lparr>guard = (\<lambda>_. True), waits_on = None,
     body = (\<lambda>m_deque. (Size (length m_deque), m_deque)), notifies = (\<lambda>_. NoNotify)\<rparr>"

definition BlockingQueue :: "'a queue_op \<Rightarrow> (bq_cond, 'a list, 'a queue_result) operation" where
  "BlockingQueue p = (case p of QGet \<Rightarrow> BlockingQueue_get | QPut x \<Rightarrow> BlockingQueue_put x
     | QSize \<Rightarrow> BlockingQueue_size)"

definition BlockingQueue_new :: "('a queue_op, 'a list, 'a queue_result) mon_state" where
  "BlockingQueue_new = mon_init []"

lemma BlockingQueue_simps [simp]:
  "BlockingQueue QGet = BlockingQueue_get" "BlockingQueue (QPut x) = BlockingQueue_put x"
  "BlockingQueue QSize = BlockingQueue_size"
  by (simp_all add: BlockingQueue_def)

lemmas bq_defs = BlockingQueue_get_def BlockingQueue_put_def
  BlockingQueue_size_def BlockingQueue_get_body_def

section \<open>Histories of a queue\<close>

fun puts :: "('a queue_op \<times> 'a queue_result) list \<Rightarrow> 'a list" where
  "puts [] = []"
| "puts ((QPut x, r) # es) = x # puts es"
| "puts (_ # es) = puts es"

fun gets :: "('a queue_op \<times> 'a queue_result) list \<Rightarrow> 'a list" where
  "gets [] = []"
| "gets ((p, Got x) # es) = x # gets es"
| "gets (_ # es) = gets es"

definition failures :: "('a queue_op \<times> 'a queue_result) list \<Rightarrow> fault list" where
  "failures es = List.map_filter (\<lambda>(p, r). case r of Failed e \<Rightarrow> Some e | _ \<Rightarrow> None) es"

lemma BlockingQueue_fifo:
  "legal BlockingQueue q es q' \<Longrightarrow> q @ puts es = gets es @ q' \<and> failures es = []"
proof (induction es arbitrary: q)
  case (Cons e es)
  obtain p r where e: "e = (p, r)" by fastforce
  show ?case
  proof (cases p)
    case QGet
    then show ?thesis using Cons e
      by (cases q) (auto simp: bq_defs failures_def List.map_filter_def)
  next
    case (QPut x)
    then show ?thesis using Cons.prems Cons.IH [of "q @ [x]"] e by (auto simp: bq_defs failures_def List.map_filter_def)
  next
    case QSize
    then show ?thesis using Cons e by (auto simp: bq_defs failures_def List.map_filter_def)
  qed
qed (simp add: failures_def)

interpretation bq: signalling BlockingQueue m_cond "\<lambda>q. enat (length q)"
proof unfold_locales
  fix p :: "'a queue_op" and q :: "'a list"
  show "guard (BlockingQueue p) q = (enat (length q) \<noteq> 0)"
    if "waits_on (BlockingQueue p) = Some m_cond"
    using that by (cases p) (auto simp: bq_defs zero_enat_def)
  show "enat (length (snd (body (BlockingQueue p) q))) + 1 \<le> enat (length q)"
    if "waits_on (BlockingQueue p) = Some m_cond" "guard (BlockingQueue p) q"
    using that by (cases p; cases q) (auto simp: bq_defs one_enat_def)
  show "enat (length (snd (body (BlockingQueue p) q))) \<le> enat (length q)
      \<or> enat (length (snd (body (BlockingQueue p) q))) \<le> enat (length q) + 1
        \<and> notifies (BlockingQueue p) q = Notify m_cond
      \<or> notifies (BlockingQueue p) q = NotifyAll m_cond"
    if "waits_on (BlockingQueue p) \<noteq> Some m_cond"
    using that by (cases p) (auto simp: bq_defs one_enat_def)
qed

lemma bq_waits_well: "waits_well BlockingQueue"
  by (auto simp: waits_well_def BlockingQueue_def bq_defs split: queue_op.splits)

text \<open>
  C9. The queue delivers, in every interleaving, every value put exactly once and in the order
  of the puts: the values got, followed by those still queued, are the values put; get never
  takes from an empty deque. No wakeup is lost: when all threads are idle or blocked, a thread
  blocked in get means that the queue is empty.
\<close>

theorem BlockingQueue_correct:
  assumes "mon_run BlockingQueue BlockingQueue_new ls s"
  shows "puts (executed ls) = gets (executed ls) @ mon_data s \<and> failures (executed ls) = []
    \<and> (stuck BlockingQueue s \<longrightarrow> mon_pc s t = Waiting p \<longrightarrow> mon_data s = [])"
proof -
  note run = assms [unfolded BlockingQueue_new_def]
  have "p = QGet" if "mon_pc s t = Waiting p"
    using waiting_has_condition [OF run bq_waits_well that] by (cases p) (auto simp: bq_defs)
  then have "mon_data s = []" if "stuck BlockingQueue s" "mon_pc s t = Waiting p"
    using bq.no_lost_wakeup [OF run that] that by (auto simp: bq_defs)
  then show ?thesis using BlockingQueue_fifo mon_run_legal [OF run] by force
qed

text \<open>One thread puts a value, another takes it.\<close>

definition handover :: "(char queue_op, char queue_result) label list" where
  "handover = [Call 1 (QPut CHR ''a''), Lock 1, Test 1, Exec 1 (QPut CHR ''a'') Stored,
     Return 1 (QPut CHR ''a'') Stored, Call 2 QGet, Lock 2, Test 2, Exec 2 QGet (Got CHR ''a''),
     Return 2 QGet (Got CHR ''a'')]"

theorem BlockingQueue_correct_witness:
  "\<exists>s. mon_run BlockingQueue BlockingQueue_new handover s \<and> mon_data s = []"
proof -
  have "\<exists>s. mon_exec BlockingQueue [1, 2] [] handover = Some s"
    by (simp add: mon_exec_def mon_next_def handover_def bq_defs mutex_defs mon_init_def
        MutexLock_new_def notify_first_def)
  then obtain s where s: "mon_run BlockingQueue BlockingQueue_new handover s"
    unfolding BlockingQueue_new_def by (elim exE) (drule mon_exec_run, blast)
  then show ?thesis using BlockingQueue_correct [OF s] by (auto simp: handover_def)
qed

end
