(* ===== verification/BoundedBlockingQueue.thy ===== *)
theory BoundedBlockingQueue
  imports Monitor
begin

text \<open>
  base/BoundedBlockingQueue.h: the bounded queue over boost::circular\_buffer. The buffer is a
  parameter, a record of the operations the class calls; \<open>cb_laws\<close> states their documented
  behaviour through the list of the elements it holds.
\<close>

record ('a, 'b) circular_buffer =
  cb_new :: "nat \<Rightarrow> 'b"
  cb_full :: "'b \<Rightarrow> bool"
  cb_empty :: "'b \<Rightarrow> bool"
  cb_push_back :: "'a \<Rightarrow> 'b \<Rightarrow> 'b"
  cb_front :: "'b \<Rightarrow> 'a"
  cb_pop_front :: "'b \<Rightarrow> 'b"
  cb_capacity :: "'b \<Rightarrow> nat"
  cb_size :: "'b \<Rightarrow> nat"

definition cb_laws :: "('a, 'b) circular_buffer \<Rightarrow> ('b \<Rightarrow> 'a list) \<Rightarrow> bool" where
  "cb_laws cb items \<longleftrightarrow>
     (\<forall>n. items (cb_new cb n) = [] \<and> cb_capacity cb (cb_new cb n) = n)
     \<and> (\<forall>b. length (items b) \<le> cb_capacity cb b)
     \<and> (\<forall>b. cb_full cb b \<longleftrightarrow> length (items b) = cb_capacity cb b)
     \<and> (\<forall>b. cb_empty cb b \<longleftrightarrow> items b = [])
     \<and> (\<forall>b. cb_size cb b = length (items b))
     \<and> (\<forall>b x. \<not> cb_full cb b \<longrightarrow> items (cb_push_back cb x b) = items b @ [x]
          \<and> cb_capacity cb (cb_push_back cb x b) = cb_capacity cb b)
     \<and> (\<forall>b. \<not> cb_empty cb b \<longrightarrow> cb_front cb b = hd (items b)
          \<and> items (cb_pop_front cb b) = tl (items b)
          \<and> cb_capacity cb (cb_pop_front cb b) = cb_capacity cb b)"

datatype 'a bounded_op = BPut 'a | BGet | BEmpty | BCapacity | BSize

datatype 'a bounded_result = BGot 'a | BStored | BBool bool | BNat nat | BFailed fault

datatype bbq_cond = m_full | m_empty

section \<open>The class\<close>

definition BoundedBlockingQueue_put ::
  "('a, 'b) circular_buffer \<Rightarrow> 'a \<Rightarrow> (bbq_cond, 'b, 'a bounded_result) operation" where
  "BoundedBlockingQueue_put cb value = \<lparr>guard = (\<lambda>q. \<not> cb_full cb q), waits_on = Some m_full,
     body = (\<lambda>q. if \<not> cb_full cb q then (BStored, cb_push_back cb value q) else (BFailed AssertFail, q)),
     notifies = (\<lambda>_. Notify m_empty)\<rparr>"

definition BoundedBlockingQueue_get ::
  "('a, 'b) circular_buffer \<Rightarrow> (bbq_cond, 'b, 'a bounded_result) operation" where
  "BoundedBlockingQueue_get cb = \<lparr>guard = (\<lambda>q. \<not> cb_empty cb q), waits_on = Some m_empty,
     body = (\<lambda>q. if \<not> cb_empty cb q then (BGot (cb_front cb q), cb_pop_front cb q)
                 else (BFailed AssertFail, q)),
     notifies = (\<lambda>_. Notify m_full)\<rparr>"

definition BoundedBlockingQueue_empty ::
  "('a, 'b) circular_buffer \<Rightarrow> (bbq_cond, 'b, 'a bounded_result) operation" where
  "BoundedBlockingQueue_empty cb = \<lparr>guard = (\<lambda>_. True), waits_on = None,
     body = (\<lambda>q. (BBool (cb_empty cb q), q)), notifies = (\<lambda>_. NoNotify)\<rparr>"

text \<open>capacity is declared with the result type bool.\<close>

definition BoundedBlockingQueue_capacity ::
  "('a, 'b) circular_buffer \<Rightarrow> (bbq_cond, 'b, 'a bounded_result) operation" where
  "BoundedBlockingQueue_capacity cb = \<lparr>guard = (\<lambda>_. True), waits_on = None,
     body = (\<lambda>q. (BBool (cb_capacity cb q \<noteq> 0), q)), notifies = (\<lambda>_. NoNotify)\<rparr>"

definition BoundedBlockingQueue_size ::
  "('a, 'b) circular_buffer \<Rightarrow> (bbq_cond, 'b, 'a bounded_result) operation" where
  "BoundedBlockingQueue_size cb = \<lparr>guard = (\<lambda>_. True), waits_on = None,
     body = (\<lambda>q. (BNat (cb_size cb q), q)), notifies = (\<lambda>_. NoNotify)\<rparr>"

primrec BoundedBlockingQueue ::
  "('a, 'b) circular_buffer \<Rightarrow> 'a bounded_op \<Rightarrow> (bbq_cond, 'b, 'a bounded_result) operation" where
  "BoundedBlockingQueue cb (BPut x) = BoundedBlockingQueue_put cb x"
| "BoundedBlockingQueue cb BGet = BoundedBlockingQueue_get cb"
| "BoundedBlockingQueue cb BEmpty = BoundedBlockingQueue_empty cb"
| "BoundedBlockingQueue cb BCapacity = BoundedBlockingQueue_capacity cb"
| "BoundedBlockingQueue cb BSize = BoundedBlockingQueue_size cb"

text \<open>A negative size becomes a size beyond any memory: the buffer's constructor throws.\<close>

definition BoundedBlockingQueue_new ::
  "('a, 'b) circular_buffer \<Rightarrow> int \<Rightarrow> ('a bounded_op, 'b, 'a bounded_result) mon_state result" where
  "BoundedBlockingQueue_new cb maxSize =
     (if maxSize < 0 then Inl LengthError else Inr (mon_init (cb_new cb (nat maxSize))))"

lemmas bbq_defs = BoundedBlockingQueue_put_def BoundedBlockingQueue_get_def
  BoundedBlockingQueue_empty_def BoundedBlockingQueue_capacity_def BoundedBlockingQueue_size_def

section \<open>Histories\<close>

fun bputs :: "('a bounded_op \<times> 'a bounded_result) list \<Rightarrow> 'a list" where
  "bputs [] = []"
| "bputs ((BPut x, r) # es) = x # bputs es"
| "bputs (_ # es) = bputs es"

fun bgets :: "('a bounded_op \<times> 'a bounded_result) list \<Rightarrow> 'a list" where
  "bgets [] = []"
| "bgets ((p, BGot x) # es) = x # bgets es"
| "bgets (_ # es) = bgets es"

definition bfailed :: "('a bounded_op \<times> 'a bounded_result) list \<Rightarrow> bool" where
  "bfailed es \<longleftrightarrow> list_ex (\<lambda>e. case snd e of BFailed _ \<Rightarrow> True | _ \<Rightarrow> False) es"

lemma bounded_fifo:
  assumes laws: "cb_laws cb items"
  shows "legal (BoundedBlockingQueue cb) q es q' \<Longrightarrow>
    items q @ bputs es = bgets es @ items q' \<and> cb_capacity cb q' = cb_capacity cb q \<and> \<not> bfailed es"
proof (induction es arbitrary: q)
  case Nil
  then show ?case by (simp add: bfailed_def)
next
  case (Cons e es)
  obtain p r where e: "e = (p, r)" by fastforce
  have get: "\<not> cb_empty cb q \<Longrightarrow> cb_front cb q # items (cb_pop_front cb q) = items q
      \<and> cb_capacity cb (cb_pop_front cb q) = cb_capacity cb q"
    using laws by (auto simp: cb_laws_def)
  have put: "\<not> cb_full cb q \<Longrightarrow> items (cb_push_back cb x q) = items q @ [x]
      \<and> cb_capacity cb (cb_push_back cb x q) = cb_capacity cb q" for x
    using laws by (auto simp: cb_laws_def)
  show ?case
  proof (cases p)
    case (BPut x)
    then show ?thesis using Cons.prems Cons.IH [of "cb_push_back cb x q"] put [of x] e
      by (auto simp: bbq_defs bfailed_def)
  next
    case BGet
    then show ?thesis using Cons.prems Cons.IH [of "cb_pop_front cb q"] get e
      by (auto simp: bbq_defs bfailed_def) (metis append_Cons)
  qed (use Cons.prems Cons.IH [of q] e in \<open>auto simp: bbq_defs bfailed_def\<close>)
qed

text \<open>Under the laws of the buffer both conditions of the class keep the signalling contract.\<close>

lemma signalling_m_empty:
  assumes laws: "cb_laws cb items"
  shows "signalling (BoundedBlockingQueue cb) m_empty (\<lambda>q. enat (length (items q)))"
proof
  fix p q
  show "guard (BoundedBlockingQueue cb p) q = (enat (length (items q)) \<noteq> 0)"
    if "waits_on (BoundedBlockingQueue cb p) = Some m_empty"
    using that laws by (cases p) (auto simp: bbq_defs cb_laws_def zero_enat_def)
  show "enat (length (items (snd (body (BoundedBlockingQueue cb p) q)))) + 1 \<le> enat (length (items q))"
    if "waits_on (BoundedBlockingQueue cb p) = Some m_empty" "guard (BoundedBlockingQueue cb p) q"
    using that laws by (cases p; cases "items q") (auto simp: bbq_defs cb_laws_def one_enat_def)
  show "enat (length (items (snd (body (BoundedBlockingQueue cb p) q)))) \<le> enat (length (items q))
      \<or> enat (length (items (snd (body (BoundedBlockingQueue cb p) q)))) \<le> enat (length (items q)) + 1
        \<and> notifies (BoundedBlockingQueue cb p) q = Notify m_empty
      \<or> notifies (BoundedBlockingQueue cb p) q = NotifyAll m_empty"
    if "waits_on (BoundedBlockingQueue cb p) \<noteq> Some m_empty" "guard (BoundedBlockingQueue cb p) q"
    using that laws by (cases p) (auto simp: bbq_defs cb_laws_def one_enat_def)
qed

lemma signalling_m_full:
  assumes laws: "cb_laws cb items"
  shows "signalling (BoundedBlockingQueue cb) m_full (\<lambda>q. enat (cb_capacity cb q - length (items q)))"
proof
  fix p q
  have le: "length (items b) \<le> cb_capacity cb b" for b using laws by (simp add: cb_laws_def)
  have full: "cb_full cb b \<longleftrightarrow> length (items b) = cb_capacity cb b" for b
    using laws by (simp add: cb_laws_def)
  have put: "\<not> cb_full cb q \<Longrightarrow> length (items (cb_push_back cb x q)) = Suc (length (items q))
      \<and> cb_capacity cb (cb_push_back cb x q) = cb_capacity cb q" for x
    using laws by (simp add: cb_laws_def)
  have get: "\<not> cb_empty cb q \<Longrightarrow> Suc (length (items (cb_pop_front cb q))) = length (items q)
      \<and> cb_capacity cb (cb_pop_front cb q) = cb_capacity cb q"
    using laws by (auto simp: cb_laws_def)
  show "guard (BoundedBlockingQueue cb p) q = (enat (cb_capacity cb q - length (items q)) \<noteq> 0)"
    if "waits_on (BoundedBlockingQueue cb p) = Some m_full"
    using that le [of q] full [of q] by (cases p) (auto simp: bbq_defs zero_enat_def)
  show "enat (cb_capacity cb (snd (body (BoundedBlockingQueue cb p) q))
          - length (items (snd (body (BoundedBlockingQueue cb p) q)))) + 1
      \<le> enat (cb_capacity cb q - length (items q))"
    if "waits_on (BoundedBlockingQueue cb p) = Some m_full" "guard (BoundedBlockingQueue cb p) q"
    using that put le [of q] full [of q] by (cases p) (auto simp: bbq_defs one_enat_def)
  show "enat (cb_capacity cb (snd (body (BoundedBlockingQueue cb p) q))
          - length (items (snd (body (BoundedBlockingQueue cb p) q))))
        \<le> enat (cb_capacity cb q - length (items q))
      \<or> enat (cb_capacity cb (snd (body (BoundedBlockingQueue cb p) q))
          - length (items (snd (body (BoundedBlockingQueue cb p) q))))
        \<le> enat (cb_capacity cb q - length (items q)) + 1
        \<and> notifies (BoundedBlockingQueue cb p) q = Notify m_full
      \<or> notifies (BoundedBlockingQueue cb p) q = NotifyAll m_full"
    if "waits_on (BoundedBlockingQueue cb p) \<noteq> Some m_full" "guard (BoundedBlockingQueue cb p) q"
    using that get le [of q] by (cases p) (auto simp: bbq_defs one_enat_def)
qed

lemma bbq_waits_well: "waits_well (BoundedBlockingQueue cb)"
  unfolding waits_well_def
proof
  fix p :: "'a bounded_op"
  show "waits_on (BoundedBlockingQueue cb p) = None \<longrightarrow> guard (BoundedBlockingQueue cb p) = (\<lambda>_. True)"
    by (cases p) (simp_all add: bbq_defs)
qed

section \<open>Properties\<close>

text \<open>
  C10. A queue of size n holds at most n values in every interleaving and delivers every value
  put exactly once, in the order of the puts; its assertions never fail. No wakeup is lost: when
  all threads are idle or blocked, a thread blocked in put means that the queue is full and one
  blocked in get that it is empty.
\<close>

theorem BoundedBlockingQueue_correct:
  assumes laws: "cb_laws cb items" and new: "BoundedBlockingQueue_new cb n = Inr s0"
    and run: "mon_run (BoundedBlockingQueue cb) s0 ls s"
  shows "0 \<le> n \<and> int (length (items (mon_data s))) \<le> n
    \<and> bputs (executed ls) = bgets (executed ls) @ items (mon_data s) \<and> \<not> bfailed (executed ls)
    \<and> (stuck (BoundedBlockingQueue cb) s \<longrightarrow>
         (mon_pc s t = Waiting (BPut x) \<longrightarrow> int (length (items (mon_data s))) = n)
         \<and> (mon_pc s t = Waiting BGet \<longrightarrow> items (mon_data s) = []))"
proof -
  have n: "0 \<le> n" and s0: "s0 = mon_init (cb_new cb (nat n))"
    using new by (auto simp: BoundedBlockingQueue_new_def split: if_splits)
  note run0 = run [unfolded s0]
  have leg: "legal (BoundedBlockingQueue cb) (cb_new cb (nat n)) (executed ls) (mon_data s)"
    using mon_run_legal [OF run0] by simp
  have empty: "items (cb_new cb (nat n)) = []" "cb_capacity cb (cb_new cb (nat n)) = nat n"
    using laws by (simp_all add: cb_laws_def)
  have fifo: "bputs (executed ls) = bgets (executed ls) @ items (mon_data s)"
      "cb_capacity cb (mon_data s) = nat n" "\<not> bfailed (executed ls)"
    using bounded_fifo [OF laws leg] empty by simp_all
  have le: "length (items (mon_data s)) \<le> nat n" using laws fifo(2) by (metis cb_laws_def)
  have "cb_full cb (mon_data s)" if "stuck (BoundedBlockingQueue cb) s" "mon_pc s t = Waiting (BPut x)"
    using signalling.no_lost_wakeup [OF signalling_m_full [OF laws] run0 that] by (simp add: bbq_defs)
  moreover have "cb_empty cb (mon_data s)"
    if "stuck (BoundedBlockingQueue cb) s" "mon_pc s t = Waiting BGet"
    using signalling.no_lost_wakeup [OF signalling_m_empty [OF laws] run0 that] by (simp add: bbq_defs)
  moreover have "cb_full cb (mon_data s) \<Longrightarrow> length (items (mon_data s)) = nat n"
    and "cb_empty cb (mon_data s) \<Longrightarrow> items (mon_data s) = []"
    using laws fifo(2) by (metis cb_laws_def)+
  ultimately show ?thesis using fifo n le by auto
qed

text \<open>A buffer for the witness: the elements with the room that is left.\<close>

definition list_buffer :: "('a, 'a list \<times> nat) circular_buffer" where
  "list_buffer = \<lparr>cb_new = (\<lambda>n. ([], n)), cb_full = (\<lambda>(xs, room). room = 0),
     cb_empty = (\<lambda>(xs, room). xs = []), cb_push_back = (\<lambda>x (xs, room). (xs @ [x], room - 1)),
     cb_front = (\<lambda>(xs, room). hd xs), cb_pop_front = (\<lambda>(xs, room). (tl xs, room + 1)),
     cb_capacity = (\<lambda>(xs, room). length xs + room), cb_size = (\<lambda>(xs, room). length xs)\<rparr>"

lemma list_buffer_laws: "cb_laws list_buffer fst"
  by (auto simp: cb_laws_def list_buffer_def neq_Nil_conv)

definition second_put_blocks :: "(char bounded_op, char bounded_result) label list" where
  "second_put_blocks = [Call 1 (BPut CHR ''a''), Lock 1, Test 1, Exec 1 (BPut CHR ''a'') BStored,
     Return 1 (BPut CHR ''a'') BStored, Call 1 (BPut CHR ''b''), Lock 1, Test 1]"

theorem BoundedBlockingQueue_correct_witness:
  "\<exists>s. mon_run (BoundedBlockingQueue list_buffer) (mon_init ([], 1)) second_put_blocks s
     \<and> mon_pc s 1 = Waiting (BPut CHR ''b'') \<and> fst (mon_data s) = ''a''"
proof -
  have "\<exists>s. mon_exec (BoundedBlockingQueue list_buffer) [1] ([], 1) second_put_blocks = Some s
      \<and> mon_pc s 1 = Waiting (BPut CHR ''b'')"
    by (simp add: mon_exec_def mon_next_def second_put_blocks_def bbq_defs list_buffer_def mutex_defs
        mon_init_def MutexLock_new_def notify_first_def)
  then obtain s where s: "mon_run (BoundedBlockingQueue list_buffer) (mon_init ([], 1)) second_put_blocks s"
      "mon_pc s 1 = Waiting (BPut CHR ''b'')"
    by (elim exE conjE) (drule mon_exec_run, blast)
  have new: "BoundedBlockingQueue_new list_buffer 1 = Inr (mon_init ([], 1))"
    by (simp add: BoundedBlockingQueue_new_def list_buffer_def)
  have "fst (mon_data s) = ''a''"
    using BoundedBlockingQueue_correct [OF list_buffer_laws new s(1)]
    by (simp add: second_put_blocks_def)
  then show ?thesis using s by blast
qed

end
