(* ===== verification/CountDownLatch.thy ===== *)
theory CountDownLatch
  imports Monitor
begin

text \<open>
  base/CountDownLatch.h and base/CountDownLatch.cc. The data is the count, an int that countDown
  decrements without a bound; \<open>2 ^ 31\<close> calls below zero would overflow it and are not modelled.
\<close>

datatype latch_op = LWait | LCountDown | LGetCount

datatype latch_result = LDone | LCount nat

datatype latch_cond = latch_cond

definition CountDownLatch_wait :: "(latch_cond, int, latch_result) operation" where
  "CountDownLatch_wait = \<lparr>guard = (\<lambda>m_count. \<not> m_count > 0), waits_on = Some latch_cond,
     body = (\<lambda>m_count. (LDone, m_count)), notifies = (\<lambda>_. NoNotify)\<rparr>"

definition CountDownLatch_countDown :: "(latch_cond, int, latch_result) operation" where
  "CountDownLatch_countDown = \<lparr>guard = (\<lambda>_. True), waits_on = None,
     body = (\<lambda>m_count. (LDone, m_count - 1)),
     notifies = (\<lambda>m_count. if m_count - 1 = 0 then NotifyAll latch_cond else NoNotify)\<rparr>"

text \<open>getCount returns the int as a size\_t.\<close>

definition CountDownLatch_getCount :: "(latch_cond, int, latch_result) operation" where
  "CountDownLatch_getCount = \<lparr>guard = (\<lambda>_. True), waits_on = None,
     body = (\<lambda>m_count. (LCount (nat (m_count mod 2 ^ 64)), m_count)), notifies = (\<lambda>_. NoNotify)\<rparr>"

primrec CountDownLatch :: "latch_op \<Rightarrow> (latch_cond, int, latch_result) operation" where
  "CountDownLatch LWait = CountDownLatch_wait"
| "CountDownLatch LCountDown = CountDownLatch_countDown"
| "CountDownLatch LGetCount = CountDownLatch_getCount"

definition CountDownLatch_new :: "int \<Rightarrow> (latch_op, int, latch_result) mon_state" where
  "CountDownLatch_new count = mon_init count"

lemmas latch_defs = CountDownLatch_wait_def CountDownLatch_countDown_def CountDownLatch_getCount_def

section \<open>Properties\<close>

text \<open>An open latch lets any number of waiting threads pass.\<close>

interpretation latch: signalling CountDownLatch latch_cond "\<lambda>n. if n > 0 then 0 else \<infinity>"
proof
  fix p and n :: int
  show "guard (CountDownLatch p) n = ((if n > 0 then 0 else \<infinity>) \<noteq> (0 :: enat))"
    if "waits_on (CountDownLatch p) = Some latch_cond"
    using that by (cases p) (auto simp: latch_defs)
  show "(if snd (body (CountDownLatch p) n) > 0 then 0 else \<infinity>) + 1 \<le> (if n > 0 then 0 else \<infinity> :: enat)"
    if "waits_on (CountDownLatch p) = Some latch_cond" "guard (CountDownLatch p) n"
    using that by (cases p) (auto simp: latch_defs)
  show "(if snd (body (CountDownLatch p) n) > 0 then 0 else \<infinity>) \<le> (if n > 0 then 0 else \<infinity> :: enat)
      \<or> (if snd (body (CountDownLatch p) n) > 0 then 0 else \<infinity>) \<le> (if n > 0 then 0 else \<infinity> :: enat) + 1
        \<and> notifies (CountDownLatch p) n = Notify latch_cond
      \<or> notifies (CountDownLatch p) n = NotifyAll latch_cond"
    if "waits_on (CountDownLatch p) \<noteq> Some latch_cond"
    using that by (cases p) (auto simp: latch_defs)
qed

definition countdowns :: "(latch_op \<times> latch_result) list \<Rightarrow> nat" where
  "countdowns es = length (filter (\<lambda>e. fst e = LCountDown) es)"

lemma latch_legal: "legal CountDownLatch n es n' \<Longrightarrow> n' = n - int (countdowns es)"
proof (induction es arbitrary: n)
  case (Cons e es)
  obtain p r where "e = (p, r)" by fastforce
  then show ?case using Cons.prems Cons.IH [of n] Cons.IH [of "n - 1"]
    by (cases p) (auto simp: latch_defs countdowns_def)
qed (simp add: countdowns_def)

text \<open>
  C32. A wait on a latch of count n returns only after at least n calls of countDown, in every
  interleaving; and no wakeup is lost: when all threads are idle or blocked while a thread waits,
  fewer than n calls of countDown have taken place, so that the n-th one releases every waiting
  thread. Further calls make the count negative, and getCount returns it as a size near 2 to the
  64th power.
\<close>

theorem CountDownLatch_correct:
  assumes run: "mon_run CountDownLatch (CountDownLatch_new n) ls s"
  shows "(executed ls = es @ (LWait, r) # es' \<longrightarrow> n \<le> int (countdowns es))
    \<and> mon_data s = n - int (countdowns (executed ls))
    \<and> (stuck CountDownLatch s \<longrightarrow> mon_pc s t = Waiting LWait \<longrightarrow> int (countdowns (executed ls)) < n)
    \<and> (0 < k \<longrightarrow> k < 2 ^ 31 \<longrightarrow> fst (body CountDownLatch_getCount (- k)) = LCount (2 ^ 64 - nat k))"
proof -
  note run0 = run [unfolded CountDownLatch_new_def]
  have leg: "legal CountDownLatch n (executed ls) (mon_data s)" using mon_run_legal [OF run0] by simp
  have "n \<le> int (countdowns es)" if "executed ls = es @ (LWait, r) # es'"
  proof -
    have "\<exists>m. legal CountDownLatch n es m \<and> guard CountDownLatch_wait m"
      using leg unfolding that by (auto simp: legal_append)
    then show ?thesis using latch_legal by (fastforce simp: latch_defs)
  qed
  moreover have "int (countdowns (executed ls)) < n"
    if "stuck CountDownLatch s" "mon_pc s t = Waiting LWait"
    using latch.no_lost_wakeup [OF run0 that] latch_legal [OF leg] by (simp add: latch_defs)
  moreover have "nat ((- k) mod 2 ^ 64) = 2 ^ 64 - nat k" if "0 < k" "k < 2 ^ 31"
  proof -
    have "k mod 2 ^ 64 = k" using that by (intro mod_pos_pos_trivial) simp_all
    then have "(- k) mod 2 ^ 64 = 2 ^ 64 - k" using that by (simp add: zmod_zminus1_eq_if)
    moreover have "nat (2 ^ 64 - k) = 2 ^ 64 - nat k" using that by (simp add: nat_diff_distrib)
    ultimately show ?thesis by metis
  qed
  ultimately show ?thesis using latch_legal [OF leg] by (simp add: CountDownLatch_getCount_def)
qed

definition latch_one :: "(latch_op, latch_result) label list" where
  "latch_one = [Call 1 LWait, Lock 1, Test 1, Call 2 LCountDown, Lock 2, Test 2, Exec 2 LCountDown LDone,
     Return 2 LCountDown LDone, Lock 1, Test 1, Exec 1 LWait LDone]"

theorem CountDownLatch_correct_witness:
  "\<exists>s. mon_run CountDownLatch (CountDownLatch_new 1) latch_one s \<and> mon_data s = 0
     \<and> fst (body CountDownLatch_getCount (- 1)) = LCount (2 ^ 64 - 1)"
proof -
  have "\<exists>s. mon_exec CountDownLatch [1, 2] 1 latch_one = Some s"
    by (simp add: mon_exec_def mon_next_def latch_one_def latch_defs mutex_defs mon_init_def
        MutexLock_new_def notify_first_def)
  then obtain s where s: "mon_run CountDownLatch (CountDownLatch_new 1) latch_one s"
    unfolding CountDownLatch_new_def by (elim exE) (drule mon_exec_run, blast)
  then show ?thesis using CountDownLatch_correct [OF s, of _ _ _ _ 1]
    by (auto simp: latch_one_def countdowns_def)
qed

end
