(* ===== verification/ThreadPool.thy ===== *)
theory ThreadPool
  imports Monitor Printf "HOL-Library.Multiset"
begin

text \<open>
  base/ThreadPool.h and base/ThreadPool.cc. The locked parts of run, getTask and stop are monitor
  operations on the task queue; around them the loop of the worker threads, the calls of run
  and stop by client threads and by the tasks themselves, the joins in stop and the test for a pool
  without threads are a second step relation. A task is a value, a function that is not empty; its
  call begins and ends with steps of its worker, and between them it may call run and stop, or stay
  for ever. The threads are created successfully, and setMaxQueueSize is called before start.
  m\_maxQueueSize is not initialised by the constructor, so it is an argument of it.
\<close>

datatype 't pool_op = PRun 't | PGetTask | PStop

datatype 't pool_result = PDone | PTask "'t option"

datatype pool_cond = m_notFull | m_notEmpty

record 't pool_data =
  m_brunning :: bool
  m_tasks :: "'t list"
  m_maxQueueSize :: nat

section \<open>The locked operations\<close>

definition ThreadPool_isFull :: "'t pool_data \<Rightarrow> bool" where
  "ThreadPool_isFull p = (if length (m_tasks p) \<ge> m_maxQueueSize p then True else False)"

definition ThreadPool_run_op :: "'t \<Rightarrow> (pool_cond, 't pool_data, 't pool_result) operation" where
  "ThreadPool_run_op task = \<lparr>guard = (\<lambda>p. \<not> ThreadPool_isFull p), waits_on = Some m_notFull,
     body = (\<lambda>p. (PDone, p\<lparr>m_tasks := m_tasks p @ [task]\<rparr>)), notifies = (\<lambda>_. Notify m_notEmpty)\<rparr>"

definition ThreadPool_getTask :: "(pool_cond, 't pool_data, 't pool_result) operation" where
  "ThreadPool_getTask = \<lparr>guard = (\<lambda>p. \<not> (m_tasks p = [] \<and> m_brunning p)), waits_on = Some m_notEmpty,
     body = (\<lambda>p. case m_tasks p of [] \<Rightarrow> (PTask None, p)
                 | task # rest \<Rightarrow> (PTask (Some task), p\<lparr>m_tasks := rest\<rparr>)),
     notifies = (\<lambda>p. if m_tasks p \<noteq> [] then Notify m_notFull else NoNotify)\<rparr>"

text \<open>The block of stop that holds the lock; the joins behind it wait for the workers to exit.\<close>

definition ThreadPool_stop :: "(pool_cond, 't pool_data, 't pool_result) operation" where
  "ThreadPool_stop = \<lparr>guard = (\<lambda>_. True), waits_on = None,
     body = (\<lambda>p. (PDone, p\<lparr>m_brunning := False\<rparr>)), notifies = (\<lambda>_. NotifyAll m_notEmpty)\<rparr>"

primrec ThreadPool :: "'t pool_op \<Rightarrow> (pool_cond, 't pool_data, 't pool_result) operation" where
  "ThreadPool (PRun task) = ThreadPool_run_op task"
| "ThreadPool PGetTask = ThreadPool_getTask"
| "ThreadPool PStop = ThreadPool_stop"

lemmas pool_defs = ThreadPool_run_op_def ThreadPool_getTask_def ThreadPool_stop_def ThreadPool_isFull_def

section \<open>The pool\<close>

text \<open>
  Where a worker of runInThread is: about to run the initialisation function, at the test of the
  loop, inside getTask, back from getTask with its result in the local variable, in the call of
  the task, and finished. Between getTask and the call of the task other threads can run. For
  stop: the threads that a caller still has to join, the one it is waiting for, and m\_joined of
  the threads; a failed assertion ends the process.
\<close>

datatype 't worker = NotWorker | WInit | WLoop | WGet | WTaken "'t option" | WRun 't | WExited

record 't pool_state =
  pool_mon :: "('t pool_op, 't pool_data, 't pool_result) mon_state"
  m_threads :: "tid list"
  pool_worker :: "tid \<Rightarrow> 't worker"
  pool_names :: "string list"
  pool_joins :: "tid \<Rightarrow> tid list"
  pool_joining :: "tid \<Rightarrow> tid option"
  pool_joined :: "tid \<Rightarrow> bool"
  pool_aborted :: bool

definition ThreadPool_new :: "nat \<Rightarrow> 't pool_state" where
  "ThreadPool_new garbage =
     \<lparr>pool_mon = mon_init \<lparr>m_brunning = False, m_tasks = [], m_maxQueueSize = garbage\<rparr>,
      m_threads = [], pool_worker = (\<lambda>_. NotWorker), pool_names = [], pool_joins = (\<lambda>_. []),
      pool_joining = (\<lambda>_. None), pool_joined = (\<lambda>_. False), pool_aborted = False\<rparr>"

definition ThreadPool_setMaxQueueSize :: "nat \<Rightarrow> 't pool_state \<Rightarrow> 't pool_state" where
  "ThreadPool_setMaxQueueSize new_size s =
     s\<lparr>pool_mon := (pool_mon s)\<lparr>mon_data := (mon_data (pool_mon s))\<lparr>m_maxQueueSize := new_size\<rparr>\<rparr>\<rparr>"

text \<open>
  start: the list holds the ids of the threads it creates, one for each turn of the loop. The
  boolean of the result says whether the initialisation function is called in the calling thread.
\<close>

definition ThreadPool_start ::
  "string \<Rightarrow> bool \<Rightarrow> int \<Rightarrow> tid list \<Rightarrow> 't pool_state \<Rightarrow> (bool \<times> 't pool_state) result" where
  "ThreadPool_start name has_init numfoThreads tids s =
     assert_then (m_threads s = [])
       (if numfoThreads < 0 then Inl LengthError
        else Inr (numfoThreads = 0 \<and> has_init,
          s\<lparr>pool_mon := (pool_mon s)\<lparr>mon_data := (mon_data (pool_mon s))\<lparr>m_brunning := True\<rparr>\<rparr>,
            m_threads := tids,
            pool_names := map (\<lambda>i. name @ fmt_d False 0 (int i + 1)) [0..<nat numfoThreads],
            pool_worker := (\<lambda>t. if t \<in> set tids then WInit else pool_worker s t)\<rparr>))"

text \<open>The destructor stops a running pool.\<close>

definition ThreadPool_destroy :: "'t pool_state \<Rightarrow> 't pool_op option" where
  "ThreadPool_destroy s = (if m_brunning (mon_data (pool_mon s)) then Some PStop else None)"

datatype 't pool_label =
    PMon "('t pool_op, 't pool_result) label"
  | PDrop tid 't
  | PInit tid
  | PExit tid
  | PBegin tid 't
  | PNull tid
  | PFinish tid
  | PJoin tid tid
  | PAssert tid
  | PJoined tid tid

definition internal :: "('o, 'r) label \<Rightarrow> bool" where
  "internal l = (case l of Lock _ \<Rightarrow> True | Test _ \<Rightarrow> True | Spurious _ \<Rightarrow> True | Exec _ _ _ \<Rightarrow> True | _ \<Rightarrow> False)"

text \<open>
  Who may call run and stop: a thread outside the pool, and a task, on its worker's thread; not
  one that is still in the joins of stop.
\<close>

definition can_call :: "'t pool_state \<Rightarrow> tid \<Rightarrow> bool" where
  "can_call s t \<longleftrightarrow> (case pool_worker s t of NotWorker \<Rightarrow> True | WRun _ \<Rightarrow> True | _ \<Rightarrow> False)
     \<and> pool_joins s t = [] \<and> pool_joining s t = None"

text \<open>
  In a pool without threads run makes an empty task and drops it, without calling the task it was
  given. The workers read m\_brunning at the head of their loop without the lock. Behind its locked
  block stop joins the threads one after the other; Thread::join asserts that a thread has not been
  joined and sets m\_joined, and pthread\_join returns when the thread has ended, or at once with
  EDEADLK when it is the caller's own.
\<close>

inductive pool_act :: "'t pool_state \<Rightarrow> 't pool_label \<Rightarrow> 't pool_state \<Rightarrow> bool" where
  caller_call: "can_call s t \<Longrightarrow> p \<noteq> PGetTask \<Longrightarrow> m_threads s \<noteq> [] \<or> p = PStop
    \<Longrightarrow> mon_step ThreadPool (pool_mon s) (Call t p) m \<Longrightarrow> pool_act s (PMon (Call t p)) (s\<lparr>pool_mon := m\<rparr>)"
| caller_drop: "can_call s t \<Longrightarrow> m_threads s = [] \<Longrightarrow> pool_act s (PDrop t task) s"
| inner: "internal l \<Longrightarrow> mon_step ThreadPool (pool_mon s) l m \<Longrightarrow> pool_act s (PMon l) (s\<lparr>pool_mon := m\<rparr>)"
| caller_return: "can_call s t \<Longrightarrow> mon_step ThreadPool (pool_mon s) (Return t p r) m
    \<Longrightarrow> pool_act s (PMon (Return t p r)) (s\<lparr>pool_mon := m,
          pool_joins := (if p = PStop then (pool_joins s)(t := m_threads s) else pool_joins s)\<rparr>)"
| join_call: "pool_joins s t = w # ws \<Longrightarrow> pool_joining s t = None \<Longrightarrow> \<not> pool_joined s w
    \<Longrightarrow> pool_act s (PJoin t w) (s\<lparr>pool_joins := (pool_joins s)(t := ws),
          pool_joining := (pool_joining s)(t \<mapsto> w), pool_joined := (pool_joined s)(w := True)\<rparr>)"
| join_fail: "pool_joins s t = w # ws \<Longrightarrow> pool_joining s t = None \<Longrightarrow> pool_joined s w
    \<Longrightarrow> pool_act s (PAssert t) (s\<lparr>pool_aborted := True\<rparr>)"
| join_return: "pool_joining s t = Some w \<Longrightarrow> pool_worker s w = WExited \<or> w = t
    \<Longrightarrow> pool_act s (PJoined t w) (s\<lparr>pool_joining := (pool_joining s)(t := None)\<rparr>)"
| worker_init: "pool_worker s t = WInit
    \<Longrightarrow> pool_act s (PInit t) (s\<lparr>pool_worker := (pool_worker s)(t := WLoop)\<rparr>)"
| worker_enter: "pool_worker s t = WLoop \<Longrightarrow> m_brunning (mon_data (pool_mon s))
    \<Longrightarrow> mon_step ThreadPool (pool_mon s) (Call t PGetTask) m
    \<Longrightarrow> pool_act s (PMon (Call t PGetTask)) (s\<lparr>pool_mon := m, pool_worker := (pool_worker s)(t := WGet)\<rparr>)"
| worker_exit: "pool_worker s t = WLoop \<Longrightarrow> \<not> m_brunning (mon_data (pool_mon s))
    \<Longrightarrow> pool_act s (PExit t) (s\<lparr>pool_worker := (pool_worker s)(t := WExited)\<rparr>)"
| worker_taken: "pool_worker s t = WGet
    \<Longrightarrow> mon_step ThreadPool (pool_mon s) (Return t PGetTask (PTask x)) m
    \<Longrightarrow> pool_act s (PMon (Return t PGetTask (PTask x)))
          (s\<lparr>pool_mon := m, pool_worker := (pool_worker s)(t := WTaken x)\<rparr>)"
| worker_begin: "pool_worker s t = WTaken (Some task)
    \<Longrightarrow> pool_act s (PBegin t task) (s\<lparr>pool_worker := (pool_worker s)(t := WRun task)\<rparr>)"
| worker_null: "pool_worker s t = WTaken None
    \<Longrightarrow> pool_act s (PNull t) (s\<lparr>pool_worker := (pool_worker s)(t := WLoop)\<rparr>)"
| worker_finish: "pool_worker s t = WRun task \<Longrightarrow> can_call s t \<Longrightarrow> mon_pc (pool_mon s) t = Idle
    \<Longrightarrow> pool_act s (PFinish t) (s\<lparr>pool_worker := (pool_worker s)(t := WLoop)\<rparr>)"

definition pool_step :: "'t pool_state \<Rightarrow> 't pool_label \<Rightarrow> 't pool_state \<Rightarrow> bool" where
  "pool_step s l s' \<longleftrightarrow> \<not> pool_aborted s \<and> pool_act s l s'"

lemmas pool_stepI = pool_step_def [THEN iffD2, OF conjI]

lemma pool_step_act: "pool_step s l s' \<Longrightarrow> pool_act s l s'"
  by (simp add: pool_step_def)

inductive pool_run :: "'t pool_state \<Rightarrow> 't pool_label list \<Rightarrow> 't pool_state \<Rightarrow> bool" where
  prun_nil: "pool_run s [] s"
| prun_snoc: "pool_run s ls s' \<Longrightarrow> pool_step s' l s'' \<Longrightarrow> pool_run s (ls @ [l]) s''"

text \<open>A pool with n threads, as the client has it after the constructor, the two settings and start.\<close>

definition pool_started :: "nat \<Rightarrow> nat \<Rightarrow> tid list \<Rightarrow> 't pool_state \<Rightarrow> bool" where
  "pool_started garbage qsize tids s \<longleftrightarrow> distinct tids \<and> 0 \<notin> set tids \<and>
     (\<exists>b. ThreadPool_start ''ThreadPool'' False (int (length tids)) tids
            (ThreadPool_setMaxQueueSize qsize (ThreadPool_new garbage)) = Inr (b, s))"

lemma pool_started_state:
  "pool_started garbage qsize tids s \<Longrightarrow>
     pool_mon s = mon_init \<lparr>m_brunning = True, m_tasks = [], m_maxQueueSize = qsize\<rparr>
     \<and> m_threads s = tids \<and> distinct tids \<and> 0 \<notin> set tids
     \<and> pool_worker s = (\<lambda>t. if t \<in> set tids then WInit else NotWorker)
     \<and> pool_joins s = (\<lambda>_. []) \<and> pool_joining s = (\<lambda>_. None) \<and> pool_joined s = (\<lambda>_. False)
     \<and> \<not> pool_aborted s"
  by (auto simp: pool_started_def ThreadPool_start_def ThreadPool_setMaxQueueSize_def
      ThreadPool_new_def mon_init_def)

section \<open>The monitor inside the pool\<close>

fun mon_labels :: "'t pool_label list \<Rightarrow> ('t pool_op, 't pool_result) label list" where
  "mon_labels [] = []"
| "mon_labels (PMon l # ls) = l # mon_labels ls"
| "mon_labels (_ # ls) = mon_labels ls"

lemma mon_labels_append [simp]: "mon_labels (ls @ ls') = mon_labels ls @ mon_labels ls'"
  by (induction ls rule: mon_labels.induct) simp_all

lemma pool_act_mon:
  "pool_act s l s' \<Longrightarrow> mon_labels [l] = [] \<and> pool_mon s' = pool_mon s
     \<or> (\<exists>k. mon_labels [l] = [k] \<and> mon_step ThreadPool (pool_mon s) k (pool_mon s'))"
  by (induction rule: pool_act.induct) auto

lemma pool_run_mon:
  "pool_run s ls s' \<Longrightarrow> mon_run ThreadPool (pool_mon s) (mon_labels ls) (pool_mon s')"
proof (induction rule: pool_run.induct)
  case (prun_nil s)
  then show ?case by (simp add: mon_run.run_nil)
next
  case (prun_snoc s ls s' l s'')
  then show ?case using pool_act_mon [OF pool_step_act [OF prun_snoc(2)]] by (auto intro: mon_run.run_snoc)
qed

interpretation pool_full: signalling ThreadPool m_notFull
  "\<lambda>p. enat (m_maxQueueSize p - length (m_tasks p))"
proof
  fix p and d :: "'a pool_data"
  show "guard (ThreadPool p) d = (enat (m_maxQueueSize d - length (m_tasks d)) \<noteq> 0)"
    if "waits_on (ThreadPool p) = Some m_notFull"
    using that by (cases p) (auto simp: pool_defs zero_enat_def)
  show "enat (m_maxQueueSize (snd (body (ThreadPool p) d)) - length (m_tasks (snd (body (ThreadPool p) d)))) + 1
      \<le> enat (m_maxQueueSize d - length (m_tasks d))"
    if "waits_on (ThreadPool p) = Some m_notFull" "guard (ThreadPool p) d"
    using that by (cases p) (auto simp: pool_defs one_enat_def split: if_splits)
  show "enat (m_maxQueueSize (snd (body (ThreadPool p) d)) - length (m_tasks (snd (body (ThreadPool p) d))))
        \<le> enat (m_maxQueueSize d - length (m_tasks d))
      \<or> enat (m_maxQueueSize (snd (body (ThreadPool p) d)) - length (m_tasks (snd (body (ThreadPool p) d))))
        \<le> enat (m_maxQueueSize d - length (m_tasks d)) + 1 \<and> notifies (ThreadPool p) d = Notify m_notFull
      \<or> notifies (ThreadPool p) d = NotifyAll m_notFull"
    if "waits_on (ThreadPool p) \<noteq> Some m_notFull"
    using that by (cases p) (auto simp: pool_defs one_enat_def split: list.splits)
qed

text \<open>A stopped pool lets any number of workers pass getTask.\<close>

interpretation pool_empty: signalling ThreadPool m_notEmpty
  "\<lambda>p. if m_brunning p then enat (length (m_tasks p)) else \<infinity>"
proof
  fix p and d :: "'a pool_data"
  let ?stock = "\<lambda>p. if m_brunning p then enat (length (m_tasks p)) else \<infinity>"
  show "guard (ThreadPool p) d = (?stock d \<noteq> 0)"
    if "waits_on (ThreadPool p) = Some m_notEmpty"
    using that by (cases p) (auto simp: pool_defs zero_enat_def)
  show "?stock (snd (body (ThreadPool p) d)) + 1 \<le> ?stock d"
    if "waits_on (ThreadPool p) = Some m_notEmpty" "guard (ThreadPool p) d"
    using that by (cases p) (auto simp: pool_defs one_enat_def split: list.splits)
  show "?stock (snd (body (ThreadPool p) d)) \<le> ?stock d
      \<or> ?stock (snd (body (ThreadPool p) d)) \<le> ?stock d + 1 \<and> notifies (ThreadPool p) d = Notify m_notEmpty
      \<or> notifies (ThreadPool p) d = NotifyAll m_notEmpty"
    if "waits_on (ThreadPool p) \<noteq> Some m_notEmpty"
    using that by (cases p) (auto simp: pool_defs one_enat_def)
qed

section \<open>The way of a task\<close>

text \<open>
  The tasks that run has queued, those that getTask has returned, and the one that its thread has
  taken and not yet left the lock with.
\<close>

fun accepted :: "('t pool_op \<times> 't pool_result) list \<Rightarrow> 't list" where
  "accepted [] = []"
| "accepted ((PRun x, r) # es) = x # accepted es"
| "accepted (_ # es) = accepted es"

lemma accepted_append [simp]: "accepted (es @ es') = accepted es @ accepted es'"
  by (induction es rule: accepted.induct) simp_all

fun returned :: "('t pool_op, 't pool_result) label list \<Rightarrow> 't list" where
  "returned [] = []"
| "returned (Return t PGetTask (PTask (Some x)) # ls) = x # returned ls"
| "returned (_ # ls) = returned ls"

lemma returned_append [simp]: "returned (ls @ ls') = returned ls @ returned ls'"
  by (induction ls rule: returned.induct) simp_all

definition held :: "('t pool_op, 't pool_result) pc \<Rightarrow> 't list" where
  "held p = (case p of Leaving PGetTask (PTask (Some x)) \<Rightarrow> [x] | _ \<Rightarrow> [])"

definition flying :: "('t pool_op, 't pool_data, 't pool_result) mon_state \<Rightarrow> 't list" where
  "flying m = (case m_lock (mon_mutex m) of None \<Rightarrow> [] | Some t \<Rightarrow> held (mon_pc m t))"

lemma held_simps [simp]:
  "held Idle = []" "held (Entering p) = []" "held (Testing p) = []" "held (Waiting p) = []"
  "held (Woken p) = []" "held (Running p) = []" "held (Leaving (PRun y) r) = []"
  "held (Leaving PStop r) = []" "held (Leaving PGetTask PDone) = []"
  "held (Leaving PGetTask (PTask None)) = []" "held (Leaving PGetTask (PTask (Some x))) = [x]"
  by (simp_all add: held_def)

lemma owner_unique: "mon_inv m \<Longrightarrow> in_section (mon_pc m t) \<Longrightarrow> m_lock (mon_mutex m) = Some t"
  by (simp add: mon_inv_def)

lemma owner_inside: "mon_inv m \<Longrightarrow> m_lock (mon_mutex m) = Some t \<Longrightarrow> in_section (mon_pc m t)"
  by (simp add: mon_inv_def)

lemma flying_other:
  "mon_inv m \<Longrightarrow> \<not> in_section (mon_pc m t) \<Longrightarrow> m' = m\<lparr>mon_pc := (mon_pc m)(t := q)\<rparr>
    \<Longrightarrow> flying m' = flying m"
  using owner_inside by (fastforce simp: flying_def split: option.splits)

lemma task_flow:
  assumes inv: "mon_inv m" and step: "mon_step ThreadPool m l m'"
  shows "returned [l] @ flying m' @ m_tasks (mon_data m')
    = flying m @ m_tasks (mon_data m) @ accepted (executed [l])"
  using step
proof cases
  case (step_call t p)
  then show ?thesis using flying_other [OF inv _ step_call(2)] by simp
next
  case (step_spurious t p)
  then show ?thesis using flying_other [OF inv _ step_spurious(2)] by simp
next
  case (step_exec t p r d th)
  have own: "m_lock (mon_mutex m) = Some t" using owner_unique [OF inv] step_exec(3) by simp
  have th: "th t = Leaving p r" using notified_pc [OF step_exec(5), of t] by simp
  show ?thesis
    using step_exec own th by (cases p) (auto simp: flying_def pool_defs split: list.splits)
next
  case (step_return t p r)
  have own: "m_lock (mon_mutex m) = Some t" using owner_unique [OF inv] step_return(3) by simp
  have "returned [Return t p r] = held (Leaving p r)"
    by (cases p; cases r; simp; (cases "case r of PTask x \<Rightarrow> x"; simp)?)
  then show ?thesis using step_return own by (simp add: flying_def mutex_defs)
next
  case (step_wait t p)
  have "m_lock (mon_mutex m) = Some t" using owner_unique [OF inv] step_wait(3) by simp
  then show ?thesis using step_wait by (simp add: flying_def mutex_defs)
next
  case (step_pass t p)
  have "m_lock (mon_mutex m) = Some t" using owner_unique [OF inv] step_pass(3) by simp
  then show ?thesis using step_pass by (simp add: flying_def)
qed (auto simp: flying_def mutex_defs split: if_splits)

lemma tasks_flow:
  assumes "mon_run ThreadPool (mon_init \<lparr>m_brunning = b, m_tasks = [], m_maxQueueSize = n\<rparr>) ls m"
  shows "accepted (executed ls) = returned ls @ flying m @ m_tasks (mon_data m)
    \<and> m_maxQueueSize (mon_data m) = n \<and> length (m_tasks (mon_data m)) \<le> n"
  using assms
proof (induction "mon_init \<lparr>m_brunning = b, m_tasks = [], m_maxQueueSize = n\<rparr>
    :: ('a pool_op, 'a pool_data, 'a pool_result) mon_state" ls m rule: mon_run.induct)
  case run_nil
  then show ?case by (simp add: flying_def mon_init_def MutexLock_new_def)
next
  case (run_snoc ls m l m')
  have inv: "mon_inv m" and g: "guarded ThreadPool m" using mon_run_legal [OF run_snoc(1)] by simp_all
  have "accepted (executed (ls @ [l])) = returned (ls @ [l]) @ flying m' @ m_tasks (mon_data m')"
    using run_snoc(2) task_flow [OF inv run_snoc(3)] by simp
  moreover have "m_maxQueueSize (mon_data m') = n \<and> length (m_tasks (mon_data m')) \<le> n"
    using run_snoc(3)
  proof cases
    case (step_exec t p r d th)
    have "guard (ThreadPool p) (mon_data m)" using g step_exec(3) by (simp add: guarded_def)
    then show ?thesis using run_snoc(2) step_exec
      by (cases p) (auto simp: pool_defs split: list.splits if_splits)
  qed (use run_snoc(2) in simp_all)
  ultimately show ?case by blast
qed

section \<open>Workers and callers\<close>

text \<open>
  A worker is in the monitor for getTask exactly while it is there, and for run and stop only while
  it executes a task; the workers are the threads that start created, and a worker exits only when
  the pool has been stopped.
\<close>

definition in_getTask :: "('t pool_op, 't pool_result) pc \<Rightarrow> bool" where
  "in_getTask p \<longleftrightarrow> phase_of p = Called PGetTask \<or> (\<exists>x. phase_of p = Done PGetTask (PTask x))"

definition outside :: "'t worker \<Rightarrow> bool" where
  "outside w = (case w of NotWorker \<Rightarrow> False | WGet \<Rightarrow> False | WRun _ \<Rightarrow> False | _ \<Rightarrow> True)"

lemma outside_simps [simp]:
  "\<not> outside NotWorker" "\<not> outside WGet" "\<not> outside (WRun x)" "outside WInit" "outside WLoop"
  "outside WExited" "outside (WTaken y)"
  by (simp_all add: outside_def)

definition pool_inv :: "tid list \<Rightarrow> 't pool_state \<Rightarrow> bool" where
  "pool_inv tids s \<longleftrightarrow> mon_inv (pool_mon s) \<and> m_threads s = tids \<and> 0 \<notin> set tids
     \<and> (\<forall>t. pool_worker s t = NotWorker \<longleftrightarrow> t \<notin> set tids)
     \<and> (\<forall>t. pool_worker s t = WGet \<longleftrightarrow> in_getTask (mon_pc (pool_mon s) t))
     \<and> (\<forall>t. outside (pool_worker s t) \<longrightarrow> mon_pc (pool_mon s) t = Idle)
     \<and> (\<forall>t. pool_worker s t = WExited \<longrightarrow> \<not> m_brunning (mon_data (pool_mon s)))"

text \<open>
  Only threads of the pool are joined, and only when the pool has been stopped; stop itself never
  waits for a condition.
\<close>

definition join_inv :: "'t pool_state \<Rightarrow> bool" where
  "join_inv s \<longleftrightarrow> (\<forall>t. set (pool_joins s t) \<subseteq> set (m_threads s))
     \<and> (\<forall>t w. pool_joining s t = Some w \<longrightarrow> w \<in> set (m_threads s))
     \<and> (\<forall>t. pool_joins s t \<noteq> [] \<or> pool_joining s t \<noteq> None \<longrightarrow> \<not> m_brunning (mon_data (pool_mon s)))
     \<and> (\<forall>t r. mon_pc (pool_mon s) t = Leaving PStop r \<longrightarrow> \<not> m_brunning (mon_data (pool_mon s)))
     \<and> (\<forall>t. mon_pc (pool_mon s) t \<noteq> Waiting PStop)
     \<and> (pool_aborted s \<longrightarrow> m_threads s \<noteq> [])"

lemma phase_Out: "phase_of p = Out \<longleftrightarrow> p = Idle"
  by (cases p) simp_all

lemma getTask_result:
  "body (ThreadPool PGetTask) d = (r, d') \<Longrightarrow> \<exists>x. r = PTask x"
  by (auto simp: pool_defs split: list.splits)

text \<open>A step inside the monitor keeps the phases, but for the execution of the caller's operation.\<close>

lemma internal_phase:
  assumes step: "mon_step ThreadPool m l m'" and int: "internal l"
  shows "phase_of (mon_pc m' t) = phase_of (mon_pc m t)
    \<or> (\<exists>p r. phase_of (mon_pc m t) = Called p \<and> phase_of (mon_pc m' t) = Done p r
         \<and> (p = PGetTask \<longrightarrow> (\<exists>x. r = PTask x)))"
  using step
proof cases
  case (step_exec u p r d th)
  have th: "phase_of (th t) = phase_of (((mon_pc m)(u := Leaving p r)) t)"
    using notified_pc [OF step_exec(5), of t] by auto
  show ?thesis
  proof (cases "t = u")
    case True
    then show ?thesis using th step_exec getTask_result [of "mon_data m" r d] by auto
  next
    case False
    then show ?thesis using th step_exec by simp
  qed
qed (use int in \<open>auto simp: internal_def\<close>)

lemma mon_step_running:
  "mon_step ThreadPool m l m' \<Longrightarrow> m_brunning (mon_data m') \<longrightarrow> m_brunning (mon_data m)"
proof (induction rule: mon_step.induct)
  case (step_exec s t p r d th)
  then show ?case by (cases p) (auto simp: pool_defs split: list.splits)
qed simp_all

lemma mon_step_stopping:
  assumes step: "mon_step ThreadPool m l m'" and "mon_pc m' t = Leaving PStop r"
    and "\<And>r. mon_pc m t = Leaving PStop r \<Longrightarrow> \<not> m_brunning (mon_data m)"
  shows "\<not> m_brunning (mon_data m')"
  using step
proof cases
  case (step_exec u p r' d th)
  show ?thesis
  proof (cases "u = t")
    case True
    then have "p = PStop" using notified_pc [OF step_exec(5), of t] step_exec assms(2) by auto
    then show ?thesis using step_exec by (auto simp: pool_defs)
  next
    case False
    then have "mon_pc m t = Leaving PStop r"
      using notified_pc [OF step_exec(5), of t] step_exec assms(2) by auto
    then show ?thesis using assms(3) mon_step_running [OF step] by blast
  qed
qed (use assms(2,3) in \<open>auto split: if_splits\<close>)

lemma mon_step_waiting:
  assumes step: "mon_step ThreadPool m l m'" and "mon_pc m t \<noteq> Waiting PStop"
  shows "mon_pc m' t \<noteq> Waiting PStop"
  using step
proof cases
  case (step_exec u p r d th)
  then show ?thesis using notified_pc [OF step_exec(5), of t] assms(2) by (auto split: if_splits)
qed (use assms(2) in \<open>auto simp: pool_defs split: if_splits\<close>)

lemma in_getTask_simps [simp]: "\<not> in_getTask Idle" "in_getTask (Entering p) \<longleftrightarrow> p = PGetTask"
  "in_getTask (Waiting p) \<longleftrightarrow> p = PGetTask" "in_getTask (Leaving p r) \<longleftrightarrow> p = PGetTask \<and> (\<exists>x. r = PTask x)"
  by (auto simp: in_getTask_def)

lemma internal_getTask:
  assumes "mon_step ThreadPool m l m'" and "internal l"
  shows "in_getTask (mon_pc m' t) = in_getTask (mon_pc m t)" and "mon_pc m' t = Idle \<longleftrightarrow> mon_pc m t = Idle"
proof -
  consider "phase_of (mon_pc m' t) = phase_of (mon_pc m t)"
    | p r where "phase_of (mon_pc m t) = Called p" "phase_of (mon_pc m' t) = Done p r"
        "p = PGetTask \<longrightarrow> (\<exists>x. r = PTask x)"
    using internal_phase [OF assms, of t] by blast
  then show "in_getTask (mon_pc m' t) = in_getTask (mon_pc m t)"
    and "mon_pc m' t = Idle \<longleftrightarrow> mon_pc m t = Idle"
    unfolding in_getTask_def phase_Out [symmetric] by (cases; auto)+
qed

text \<open>What a worker's step does to the invariant, and what a caller's does.\<close>

lemma pool_inv_update:
  assumes inv: "pool_inv tids s" and mi: "mon_inv m"
    and run: "m_brunning (mon_data m) \<longrightarrow> m_brunning (mon_data (pool_mon s))"
    and other: "\<And>u. u \<noteq> t \<Longrightarrow> mon_pc m u = mon_pc (pool_mon s) u"
    and w: "w \<noteq> NotWorker" "t \<in> set tids" "w = WGet \<longleftrightarrow> in_getTask (mon_pc m t)"
      "outside w \<longrightarrow> mon_pc m t = Idle" "w = WExited \<longrightarrow> \<not> m_brunning (mon_data m)"
    and s': "pool_mon s' = m" "m_threads s' = m_threads s" "pool_worker s' = (pool_worker s)(t := w)"
  shows "pool_inv tids s'"
  using assms unfolding pool_inv_def by auto

lemma pool_inv_caller:
  assumes inv: "pool_inv tids s" and mi: "mon_inv m"
    and run: "m_brunning (mon_data m) \<longrightarrow> m_brunning (mon_data (pool_mon s))"
    and same: "\<And>u. in_getTask (mon_pc m u) = in_getTask (mon_pc (pool_mon s) u)"
      "\<And>u. outside (pool_worker s u) \<Longrightarrow> mon_pc (pool_mon s) u = Idle \<Longrightarrow> mon_pc m u = Idle"
    and s': "pool_mon s' = m" "m_threads s' = m_threads s" "pool_worker s' = pool_worker s"
  shows "pool_inv tids s'"
  using assms unfolding pool_inv_def by auto

lemma call_pc: "mon_step ops m (Call t p) m' \<Longrightarrow> mon_pc m t = Idle \<and> mon_pc m' = (mon_pc m)(t := Entering p)"
  by (cases rule: mon_step.cases) auto

lemma return_pc: "mon_step ops m (Return t p r) m' \<Longrightarrow> mon_pc m t = Leaving p r \<and> mon_pc m' = (mon_pc m)(t := Idle)"
  by (cases rule: mon_step.cases) auto

lemma can_call_worker: "can_call s t \<Longrightarrow> \<not> outside (pool_worker s t) \<and> pool_worker s t \<noteq> WGet"
  by (auto simp: can_call_def split: worker.splits)

lemma pool_inv_act:
  assumes inv: "pool_inv tids s" and step: "pool_act s l s'"
  shows "pool_inv tids s'"
proof -
  have mi0: "mon_inv (pool_mon s)" using inv by (simp add: pool_inv_def)
  have worker: "u \<in> set tids" if "pool_worker s u \<noteq> NotWorker" for u
    using that inv by (auto simp: pool_inv_def)
  have caller: "\<not> outside (pool_worker s u)" "\<not> in_getTask (mon_pc (pool_mon s) u)" if "can_call s u" for u
    using can_call_worker [OF that] inv unfolding pool_inv_def by blast+
  have rest: "mon_pc (pool_mon s) u = Idle" if "outside (pool_worker s u)" for u
    using that inv unfolding pool_inv_def by blast
  show ?thesis
    using step
  proof cases
    case (caller_call t p m)
    show ?thesis
      by (rule pool_inv_caller [OF inv mon_inv_step [OF mi0 caller_call(6)] mon_step_running [OF caller_call(6)]])
        (use caller [OF caller_call(3)] call_pc [OF caller_call(6)] caller_call(2,4) in auto)
  next
    case (inner k m)
    then show ?thesis
      using pool_inv_caller [OF inv mon_inv_step [OF mi0 inner(4)] mon_step_running [OF inner(4)]]
        internal_getTask [OF inner(4,3)] by auto
  next
    case (caller_return t p r m)
    show ?thesis
      by (rule pool_inv_caller [OF inv mon_inv_step [OF mi0 caller_return(4)] mon_step_running [OF caller_return(4)]])
        (use caller [OF caller_return(3)] return_pc [OF caller_return(4)] caller_return(2) in auto)
  next
    case (worker_enter t m)
    show ?thesis
      by (rule pool_inv_update [OF inv mon_inv_step [OF mi0 worker_enter(5)] mon_step_running [OF worker_enter(5)],
            of t WGet])
        (use worker_enter(2,3) call_pc [OF worker_enter(5)] worker [of t] in auto)
  next
    case (worker_taken t x m)
    show ?thesis
      by (rule pool_inv_update [OF inv mon_inv_step [OF mi0 worker_taken(4)] mon_step_running [OF worker_taken(4)],
            of t "WTaken x"])
        (use worker_taken(2,3) return_pc [OF worker_taken(4)] worker [of t] in auto)
  next
    case (worker_init t)
    show ?thesis
      by (rule pool_inv_update [OF inv mi0, of t WLoop])
        (use worker_init(2,3) rest [of t] worker [of t] in auto)
  next
    case (worker_exit t)
    show ?thesis
      by (rule pool_inv_update [OF inv mi0, of t WExited])
        (use worker_exit(2-4) rest [of t] worker [of t] in auto)
  next
    case (worker_begin t task)
    show ?thesis
      by (rule pool_inv_update [OF inv mi0, of t "WRun task"])
        (use worker_begin(2,3) rest [of t] worker [of t] in auto)
  next
    case (worker_null t)
    show ?thesis
      by (rule pool_inv_update [OF inv mi0, of t WLoop])
        (use worker_null(2,3) rest [of t] worker [of t] in auto)
  next
    case (worker_finish t task)
    show ?thesis
      by (rule pool_inv_update [OF inv mi0, of t WLoop])
        (use worker_finish(2,3,5) worker [of t] in auto)
  qed (use inv in \<open>simp_all add: pool_inv_def\<close>)
qed

lemma join_inv_mon:
  assumes inv: "join_inv s" and step: "mon_step ThreadPool (pool_mon s) l m"
    and s': "pool_mon s' = m" "m_threads s' = m_threads s" "pool_joining s' = pool_joining s"
      "pool_aborted s' = pool_aborted s"
    and js: "\<And>u. pool_joins s' u = pool_joins s u
      \<or> pool_joins s' u = m_threads s \<and> (\<exists>r. mon_pc (pool_mon s) u = Leaving PStop r)"
  shows "join_inv s'"
proof -
  have "\<not> m_brunning (mon_data m)" if "pool_joins s' u \<noteq> []" for u
    using js [of u] that inv mon_step_running [OF step] unfolding join_inv_def by metis
  moreover have "set (pool_joins s' u) \<subseteq> set (m_threads s)" for u
    using js [of u] inv unfolding join_inv_def by (elim disjE conjE) simp_all
  moreover have "\<not> m_brunning (mon_data m)" if "pool_joining s u \<noteq> None" for u
    using that inv mon_step_running [OF step] unfolding join_inv_def by metis
  moreover have "\<not> m_brunning (mon_data m)" if "mon_pc m u = Leaving PStop r" for u r
    using mon_step_stopping [OF step that] inv unfolding join_inv_def by blast
  moreover have "mon_pc m u \<noteq> Waiting PStop" for u
    using mon_step_waiting [OF step] inv unfolding join_inv_def by blast
  ultimately show ?thesis using inv unfolding join_inv_def s' by blast
qed

lemma join_inv_same:
  assumes "join_inv s" and "pool_mon s' = pool_mon s" "m_threads s' = m_threads s"
    "pool_joining s' = pool_joining s" "pool_aborted s' = pool_aborted s" "pool_joins s' = pool_joins s"
  shows "join_inv s'"
  using assms by (simp add: join_inv_def)

lemma join_inv_act:
  assumes inv: "join_inv s" and step: "pool_act s l s'"
  shows "join_inv s'"
  using step
proof cases
  case (caller_call t p m)
  show ?thesis by (rule join_inv_mon [OF inv caller_call(6)]) (use caller_call(2) in simp_all)
next
  case (inner k m)
  show ?thesis by (rule join_inv_mon [OF inv inner(4)]) (use inner(2) in simp_all)
next
  case (caller_return t p r m)
  show ?thesis
    by (rule join_inv_mon [OF inv caller_return(4)])
      (use caller_return(2) return_pc [OF caller_return(4)] in auto)
next
  case (worker_enter t m)
  show ?thesis by (rule join_inv_mon [OF inv worker_enter(5)]) (use worker_enter(2) in simp_all)
next
  case (worker_taken t x m)
  show ?thesis by (rule join_inv_mon [OF inv worker_taken(4)]) (use worker_taken(2) in simp_all)
next
  case (join_call t w ws)
  have "w \<in> set (m_threads s)" "set ws \<subseteq> set (m_threads s)" "\<not> m_brunning (mon_data (pool_mon s))"
    using inv join_call(3) unfolding join_inv_def by (metis insert_subset list.set(2) list.distinct(1))+
  then show ?thesis using inv join_call(2) by (simp add: join_inv_def)
next
  case (join_fail t w ws)
  then have "m_threads s \<noteq> []" using inv unfolding join_inv_def by (metis subset_empty set_empty list.distinct(1))
  then show ?thesis using inv join_fail(2) by (simp add: join_inv_def)
next
  case (join_return t w)
  then have "\<not> m_brunning (mon_data (pool_mon s))" using inv unfolding join_inv_def by blast
  then show ?thesis using inv join_return(2) by (simp add: join_inv_def)
qed (auto intro: join_inv_same [OF inv])

lemma pool_inv_started: "pool_started garbage qsize tids s \<Longrightarrow> pool_inv tids s"
  using pool_started_state [of garbage qsize tids s] mon_inv_init
  by (simp add: pool_inv_def) (simp add: mon_init_def)

lemma join_inv_started: "pool_started garbage qsize tids s \<Longrightarrow> join_inv s"
  using pool_started_state [of garbage qsize tids s]
  by (simp add: join_inv_def) (simp add: mon_init_def)

text \<open>A thread in the joins of stop is in nothing else.\<close>

definition joiner_inv :: "'t pool_state \<Rightarrow> bool" where
  "joiner_inv s \<longleftrightarrow> (\<forall>t. pool_joins s t \<noteq> [] \<or> pool_joining s t \<noteq> None \<longrightarrow>
     mon_pc (pool_mon s) t = Idle \<and> \<not> outside (pool_worker s t) \<and> pool_worker s t \<noteq> WGet)"

lemma joiner_inv_act:
  assumes inv: "joiner_inv s" and step: "pool_act s l s'"
  shows "joiner_inv s'"
  using step
proof cases
  case (caller_call t p m)
  then show ?thesis using inv call_pc [OF caller_call(6)] by (auto simp: joiner_inv_def can_call_def)
next
  case (inner k m)
  then show ?thesis using inv internal_getTask(2) [OF inner(4,3)] by (simp add: joiner_inv_def)
next
  case (caller_return t p r m)
  then show ?thesis
    using inv return_pc [OF caller_return(4)] can_call_worker [OF caller_return(3)] by (simp add: joiner_inv_def)
next
  case (worker_enter t m)
  then show ?thesis using inv call_pc [OF worker_enter(5)] by (auto simp: joiner_inv_def)
next
  case (worker_taken t x m)
  then show ?thesis using inv return_pc [OF worker_taken(4)] by (auto simp: joiner_inv_def)
next
  case (worker_init t)
  then show ?thesis using inv by (auto simp: joiner_inv_def)
next
  case (worker_exit t)
  then show ?thesis using inv by (auto simp: joiner_inv_def)
next
  case (worker_null t)
  then show ?thesis using inv by (auto simp: joiner_inv_def)
next
  case (worker_begin t task)
  then show ?thesis using inv by (auto simp: joiner_inv_def)
next
  case (worker_finish t task)
  then show ?thesis using inv by (auto simp: joiner_inv_def can_call_def)
next
  case (join_call t w ws)
  then show ?thesis using inv by (auto simp: joiner_inv_def)
next
  case (join_return t w)
  then show ?thesis using inv by (auto simp: joiner_inv_def)
qed (use inv in \<open>simp_all add: joiner_inv_def\<close>)

lemma joiner_inv_started: "pool_started garbage qsize tids s \<Longrightarrow> joiner_inv s"
  using pool_started_state [of garbage qsize tids s] by (simp add: joiner_inv_def)

lemma pool_run_inv:
  assumes "pool_run s ls s'"
  shows "pool_inv tids s \<Longrightarrow> pool_inv tids s'" and "join_inv s \<Longrightarrow> join_inv s'"
    and "joiner_inv s \<Longrightarrow> joiner_inv s'"
  using assms
  by (induction rule: pool_run.induct) (auto dest: pool_inv_act join_inv_act joiner_inv_act pool_step_act)

section \<open>What a run of the pool did\<close>

text \<open>
  The tasks that getTask returned and those that were begun, each with its worker and in the order
  of the steps, and the number of calls of stop whose locked block is over.
\<close>

fun taken :: "'t pool_label list \<Rightarrow> (tid \<times> 't) list" where
  "taken [] = []"
| "taken (PMon (Return t PGetTask (PTask (Some x))) # ls) = (t, x) # taken ls"
| "taken (_ # ls) = taken ls"

fun begun :: "'t pool_label list \<Rightarrow> (tid \<times> 't) list" where
  "begun [] = []"
| "begun (PBegin t x # ls) = (t, x) # begun ls"
| "begun (_ # ls) = begun ls"

fun stops :: "'t pool_label list \<Rightarrow> nat" where
  "stops [] = 0"
| "stops (PMon (Return t PStop r) # ls) = Suc (stops ls)"
| "stops (_ # ls) = stops ls"

lemma taken_append [simp]: "taken (ls @ ls') = taken ls @ taken ls'"
  by (induction ls rule: taken.induct) simp_all

lemma begun_append [simp]: "begun (ls @ ls') = begun ls @ begun ls'"
  by (induction ls rule: begun.induct) simp_all

lemma stops_append [simp]: "stops (ls @ ls') = stops ls + stops ls'"
  by (induction ls rule: stops.induct) simp_all

text \<open>The part of one worker, and the task that it has taken and not begun.\<close>

definition of_worker :: "tid \<Rightarrow> (tid \<times> 't) list \<Rightarrow> 't list" where
  "of_worker w es = map snd (filter (\<lambda>e. fst e = w) es)"

definition holding :: "'t worker \<Rightarrow> 't list" where
  "holding w = (case w of WTaken (Some x) \<Rightarrow> [x] | _ \<Rightarrow> [])"

lemma of_worker_simps [simp]:
  "of_worker w [] = []" "of_worker w ((t, x) # es) = (if t = w then x # of_worker w es else of_worker w es)"
  "of_worker w (es @ es') = of_worker w es @ of_worker w es'"
  by (simp_all add: of_worker_def)

lemma holding_simps [simp]:
  "holding NotWorker = []" "holding WInit = []" "holding WLoop = []" "holding WGet = []"
  "holding (WTaken None) = []" "holding (WTaken (Some x)) = [x]" "holding (WRun x) = []" "holding WExited = []"
  by (simp_all add: holding_def)

lemma of_worker_only: "fst ` set es \<subseteq> {w} \<Longrightarrow> map snd es = of_worker w es"
  by (induction es) auto

lemma of_worker_count: "count (mset (of_worker w es)) x = count (mset es) (w, x)"
  by (induction es) (auto simp: of_worker_def)

lemma of_worker_mset: "(\<And>w. of_worker w es = of_worker w es') \<Longrightarrow> mset es = mset es'"
  by (intro multiset_eqI) (metis of_worker_count surj_pair)

lemma taken_returned: "map snd (taken ls) = returned (mon_labels ls)"
  by (induction ls rule: taken.induct) simp_all

lemma not_taken:
  assumes "mon_step ThreadPool m (Return t p r) m'" and "\<not> in_getTask (mon_pc m t)"
  shows "taken [PMon (Return t p r)] = []"
proof (cases p)
  case PGetTask
  then have "r = PDone" using assms(2) return_pc [OF assms(1)] by (cases r) auto
  then show ?thesis using PGetTask by simp
qed simp_all

lemma pool_act_taken:
  assumes inv: "pool_inv tids s" and step: "pool_act s l s'"
  shows "of_worker w (begun [l]) @ holding (pool_worker s' w) = holding (pool_worker s w) @ of_worker w (taken [l])"
    and "fst ` set (taken [l]) \<subseteq> set tids"
proof -
  have caller: "\<not> in_getTask (mon_pc (pool_mon s) u)" if "can_call s u" for u
    using can_call_worker [OF that] inv unfolding pool_inv_def by blast
  have "of_worker w (begun [l]) @ holding (pool_worker s' w) = holding (pool_worker s w) @ of_worker w (taken [l])
      \<and> fst ` set (taken [l]) \<subseteq> set tids"
    using step
  proof cases
    case (caller_return t p r m)
    then show ?thesis using not_taken [OF caller_return(4) caller [OF caller_return(3)]] by simp
  next
    case (inner k m)
    then show ?thesis by (cases k) (simp_all add: internal_def)
  next
    case (worker_taken t x m)
    have "t \<in> set tids" using inv worker_taken(3) unfolding pool_inv_def by (metis worker.distinct(5))
    then show ?thesis using worker_taken by (cases x) auto
  qed auto
  then show "of_worker w (begun [l]) @ holding (pool_worker s' w) = holding (pool_worker s w) @ of_worker w (taken [l])"
    and "fst ` set (taken [l]) \<subseteq> set tids" by blast+
qed

lemma pool_run_taken:
  assumes "pool_run s ls s'" and "pool_inv tids s" and "\<And>w. holding (pool_worker s w) = []"
  shows "(\<forall>w. of_worker w (taken ls) = of_worker w (begun ls) @ holding (pool_worker s' w))
    \<and> fst ` set (taken ls) \<subseteq> set tids"
  using assms
proof (induction rule: pool_run.induct)
  case (prun_snoc s ls s' l s'')
  note st = pool_act_taken [OF pool_run_inv(1) [OF prun_snoc(1,4)] pool_step_act [OF prun_snoc(2)]]
  have IH: "of_worker w (taken ls) = of_worker w (begun ls) @ holding (pool_worker s' w)"
    "fst ` set (taken ls) \<subseteq> set tids" for w
    using prun_snoc by blast+
  have "of_worker w (taken (ls @ [l])) = of_worker w (begun (ls @ [l])) @ holding (pool_worker s'' w)" for w
    using IH(1) [of w] st(1) [of w] by simp
  moreover have "fst ` set (taken (ls @ [l])) \<subseteq> set tids"
    using IH(2) st(2) by (simp add: image_Un)
  ultimately show ?case by blast
qed simp

text \<open>A thread is joined a second time only after a second stop.\<close>

lemma pool_run_stops:
  assumes "pool_run s0 ls s" and "pool_started garbage qsize tids s0"
  shows "stops ls < 2 \<Longrightarrow> \<not> pool_aborted s \<and> (\<exists>t0. \<forall>t. t \<noteq> t0 \<longrightarrow> pool_joins s t = [])
      \<and> (\<forall>t. distinct (pool_joins s t) \<and> (\<forall>w \<in> set (pool_joins s t). \<not> pool_joined s w))
      \<and> (stops ls = 0 \<longrightarrow> (\<forall>t. pool_joins s t = []) \<and> (\<forall>w. \<not> pool_joined s w))"
  using assms
proof (induction rule: pool_run.induct)
  case (prun_nil s)
  then show ?case using pool_started_state [OF prun_nil(2)] by simp
next
  case (prun_snoc s ls s' l s'')
  have d: "m_threads s' = tids" "distinct tids"
    using pool_run_inv(1) [OF prun_snoc(1) pool_inv_started [OF prun_snoc(5)]]
      pool_started_state [OF prun_snoc(5)] by (simp_all add: pool_inv_def)
  have IH: "\<not> pool_aborted s' \<and> (\<exists>t0. \<forall>t. t \<noteq> t0 \<longrightarrow> pool_joins s' t = [])
      \<and> (\<forall>t. distinct (pool_joins s' t) \<and> (\<forall>w \<in> set (pool_joins s' t). \<not> pool_joined s' w))
      \<and> (stops ls = 0 \<longrightarrow> (\<forall>t. pool_joins s' t = []) \<and> (\<forall>w. \<not> pool_joined s' w))"
    using prun_snoc.IH prun_snoc.prems by simp
  show ?case
    using pool_step_act [OF prun_snoc(2)]
  proof cases
    case (caller_return t p r m)
    then show ?thesis using IH d prun_snoc(4) by (cases p) auto
  next
    case (inner k m)
    then show ?thesis using IH prun_snoc(4) by (cases k) (simp_all add: internal_def)
  next
    case (join_call t w ws)
    then obtain t0 where t0: "\<forall>u. u \<noteq> t0 \<longrightarrow> pool_joins s' u = []" using IH by blast
    then have "t = t0" "stops ls \<noteq> 0" using join_call(3) IH by auto
    moreover have "distinct (w # ws)" "\<forall>x \<in> set ws. \<not> pool_joined s' x" using IH join_call(3) by (metis list.set_intros(2))+
    ultimately show ?thesis using join_call t0 IH by auto
  next
    case (join_fail t w ws)
    then show ?thesis using IH by (metis list.set_intros(1))
  qed (use IH prun_snoc(4) in simp_all)
qed

section \<open>Properties\<close>

text \<open>
  C5. The workers take the tasks in the order in which run accepted them, and each task that is
  taken is begun once, by the worker that took it: in every interleaving, with tasks that may
  themselves call run and stop, the tasks that getTask has returned, then the one a worker is
  leaving the lock with, then those in the queue, are the tasks accepted; what a worker has begun,
  and the at most one task that it has taken and not yet called, are the tasks it has taken, in
  this order. So a pool of one worker begins the tasks in the order they were accepted; in a
  larger one a task can be begun before an earlier one whose worker was interrupted between
  getTask and the call. The queue never holds more than the maximum, and the threads carry the
  name of the pool with the numbers from 1 on.
\<close>

theorem ThreadPool_order:
  assumes start: "pool_started garbage qsize tids s0" and run: "pool_run s0 ls s"
  shows "accepted (executed (mon_labels ls))
      = map snd (taken ls) @ flying (pool_mon s) @ m_tasks (mon_data (pool_mon s))
    \<and> fst ` set (taken ls) \<subseteq> set tids
    \<and> (\<forall>w. of_worker w (taken ls) = of_worker w (begun ls) @ holding (pool_worker s w))
    \<and> (\<forall>w. tids = [w] \<longrightarrow> accepted (executed (mon_labels ls))
         = map snd (begun ls) @ holding (pool_worker s w) @ flying (pool_mon s) @ m_tasks (mon_data (pool_mon s)))
    \<and> length (flying (pool_mon s)) \<le> 1 \<and> length (m_tasks (mon_data (pool_mon s))) \<le> qsize
    \<and> pool_names s0 = map (\<lambda>i. ''ThreadPool'' @ nat_chars (i + 1)) [0..<length tids]"
proof -
  note st = pool_started_state [OF start]
  note inv = pool_inv_started [OF start]
  have flow: "accepted (executed (mon_labels ls)) = map snd (taken ls) @ flying (pool_mon s)
      @ m_tasks (mon_data (pool_mon s)) \<and> length (m_tasks (mon_data (pool_mon s))) \<le> qsize"
    using tasks_flow [of True qsize "mon_labels ls" "pool_mon s"] pool_run_mon [OF run] st
    by (simp add: taken_returned)
  have each: "of_worker w (taken ls) = of_worker w (begun ls) @ holding (pool_worker s w)" for w
    using pool_run_taken [OF run inv] st by simp
  have tids: "fst ` set (taken ls) \<subseteq> set tids" using pool_run_taken [OF run inv] st by simp
  have "map snd (taken ls) = map snd (begun ls) @ holding (pool_worker s w)" if "tids = [w]" for w
  proof -
    have "fst e = w" if e: "e \<in> set (begun ls)" for e
    proof -
      have "of_worker (fst e) (begun ls) \<noteq> []" using e by (force simp: of_worker_def filter_empty_conv)
      then have "of_worker (fst e) (taken ls) \<noteq> []" using each by simp
      then show ?thesis using tids \<open>tids = [w]\<close> by (auto simp: of_worker_def filter_empty_conv)
    qed
    then have "fst ` set (begun ls) \<subseteq> {w}" by blast
    then have "map snd (begun ls) = of_worker w (begun ls)" by (rule of_worker_only)
    moreover have "map snd (taken ls) = of_worker w (taken ls)" using tids that by (intro of_worker_only) simp
    ultimately show ?thesis using each [of w] by simp
  qed
  moreover have "length (flying (pool_mon s)) \<le> 1"
    by (auto simp: flying_def held_def split: option.splits pc.splits pool_op.splits pool_result.splits)
  moreover have "pool_names s0 = map (\<lambda>i. ''ThreadPool'' @ nat_chars (i + 1)) [0..<length tids]"
    using start by (auto simp: pool_started_def ThreadPool_start_def ThreadPool_setMaxQueueSize_def
        ThreadPool_new_def fmt_d_def Let_def nat_add_distrib)
  ultimately show ?thesis using flow each tids by simp
qed

text \<open>A scheduler for concrete runs: the steps of the pool as a function.\<close>

definition pool_next :: "tid list \<Rightarrow> 't pool_state \<Rightarrow> 't pool_label \<Rightarrow> 't pool_state option" where
  "pool_next ts s l = (if pool_aborted s then None else
     (case l of
        PMon (Call t p) \<Rightarrow>
          (case mon_next ThreadPool ts (pool_mon s) (Call t p) of None \<Rightarrow> None | Some m \<Rightarrow>
             if can_call s t \<and> p \<noteq> PGetTask \<and> (m_threads s \<noteq> [] \<or> p = PStop)
             then Some (s\<lparr>pool_mon := m\<rparr>)
             else if pool_worker s t = WLoop \<and> m_brunning (mon_data (pool_mon s)) \<and> p = PGetTask
             then Some (s\<lparr>pool_mon := m, pool_worker := (pool_worker s)(t := WGet)\<rparr>) else None)
      | PMon (Return t p r) \<Rightarrow>
          (case mon_next ThreadPool ts (pool_mon s) (Return t p r) of None \<Rightarrow> None | Some m \<Rightarrow>
             if can_call s t
             then Some (s\<lparr>pool_mon := m,
                          pool_joins := (if p = PStop then (pool_joins s)(t := m_threads s) else pool_joins s)\<rparr>)
             else if pool_worker s t = WGet \<and> p = PGetTask
             then (case r of PTask x \<Rightarrow> Some (s\<lparr>pool_mon := m, pool_worker := (pool_worker s)(t := WTaken x)\<rparr>)
                   | PDone \<Rightarrow> None)
             else None)
      | PMon k \<Rightarrow> map_option (\<lambda>m. s\<lparr>pool_mon := m\<rparr>) (mon_next ThreadPool ts (pool_mon s) k)
      | PDrop t task \<Rightarrow> if can_call s t \<and> m_threads s = [] then Some s else None
      | PInit t \<Rightarrow> if pool_worker s t = WInit
          then Some (s\<lparr>pool_worker := (pool_worker s)(t := WLoop)\<rparr>) else None
      | PExit t \<Rightarrow> if pool_worker s t = WLoop \<and> \<not> m_brunning (mon_data (pool_mon s))
          then Some (s\<lparr>pool_worker := (pool_worker s)(t := WExited)\<rparr>) else None
      | PBegin t task \<Rightarrow> if pool_worker s t = WTaken (Some task)
          then Some (s\<lparr>pool_worker := (pool_worker s)(t := WRun task)\<rparr>) else None
      | PNull t \<Rightarrow> if pool_worker s t = WTaken None
          then Some (s\<lparr>pool_worker := (pool_worker s)(t := WLoop)\<rparr>) else None
      | PFinish t \<Rightarrow> (case pool_worker s t of
            WRun task \<Rightarrow> if can_call s t \<and> mon_pc (pool_mon s) t = Idle
              then Some (s\<lparr>pool_worker := (pool_worker s)(t := WLoop)\<rparr>) else None | _ \<Rightarrow> None)
      | PJoin t w \<Rightarrow> (case pool_joins s t of
            [] \<Rightarrow> None
          | v # ws \<Rightarrow> if v = w \<and> pool_joining s t = None \<and> \<not> pool_joined s w
              then Some (s\<lparr>pool_joins := (pool_joins s)(t := ws), pool_joining := (pool_joining s)(t \<mapsto> w),
                           pool_joined := (pool_joined s)(w := True)\<rparr>) else None)
      | PAssert t \<Rightarrow> (case pool_joins s t of
            [] \<Rightarrow> None
          | w # ws \<Rightarrow> if pool_joining s t = None \<and> pool_joined s w
              then Some (s\<lparr>pool_aborted := True\<rparr>) else None)
      | PJoined t w \<Rightarrow> if pool_joining s t = Some w \<and> (pool_worker s w = WExited \<or> w = t)
          then Some (s\<lparr>pool_joining := (pool_joining s)(t := None)\<rparr>) else None))"

definition pool_exec :: "tid list \<Rightarrow> 't pool_state \<Rightarrow> 't pool_label list \<Rightarrow> 't pool_state option" where
  "pool_exec ts s ls = foldl (\<lambda>s l. Option.bind s (\<lambda>s. pool_next ts s l)) (Some s) ls"

lemma pool_next_step:
  assumes idle: "\<And>t. t \<notin> set ts \<Longrightarrow> mon_pc (pool_mon s) t = Idle" and nx: "pool_next ts s l = Some s'"
  shows "pool_step s l s'"
proof -
  have alive: "\<not> pool_aborted s" using nx by (auto simp: pool_next_def)
  have "pool_act s l s'"
  proof (cases l)
    case (PMon k)
    obtain m where m: "mon_next ThreadPool ts (pool_mon s) k = Some m"
      using nx PMon alive by (cases k) (auto simp: pool_next_def split: option.splits)
    have step: "mon_step ThreadPool (pool_mon s) k m" by (rule mon_next_step [OF idle m])
    show ?thesis
    proof (cases k)
      case (Call t p)
      then show ?thesis using nx PMon m step alive
        by (auto simp: pool_next_def intro: caller_call worker_enter split: if_splits)
    next
      case (Return t p r)
      show ?thesis
      proof (cases "can_call s t")
        case True
        then show ?thesis using nx PMon m step alive Return caller_return [OF True, of p r m]
          by (simp add: pool_next_def)
      next
        case False
        then show ?thesis using nx PMon m step alive Return
          by (auto simp: pool_next_def intro: worker_taken split: if_splits pool_result.splits)
      qed
    qed (use nx PMon m step alive in \<open>auto simp: pool_next_def internal_def intro!: inner\<close>)
  qed (use nx alive in \<open>auto simp: pool_next_def intro: pool_act.intros split: if_splits worker.splits list.splits\<close>)
  then show ?thesis using alive by (simp add: pool_step_def)
qed

lemma pool_next_idle:
  assumes "pool_next ts s l = Some s'" and "\<And>t. t \<notin> set ts \<Longrightarrow> mon_pc (pool_mon s) t = Idle"
    and "t \<notin> set ts"
  shows "mon_pc (pool_mon s') t = Idle"
proof (cases l)
  case (PMon k)
  obtain m where m: "mon_next ThreadPool ts (pool_mon s) k = Some m" "pool_mon s' = m"
    using assms(1) PMon
    by (cases k) (auto simp: pool_next_def split: option.splits if_splits pool_result.splits)
  have "k \<noteq> Call t p" for p using m(1) assms(3) by (auto simp: mon_next_def)
  then show ?thesis
    using mon_step_idle [OF mon_next_step [OF assms(2) m(1)] assms(2) [OF assms(3)]] m(2) by simp
qed (use assms in \<open>auto simp: pool_next_def split: if_splits worker.splits list.splits\<close>)

lemma pool_exec_run:
  assumes "\<And>t. t \<notin> set ts \<Longrightarrow> mon_pc (pool_mon s0) t = Idle"
  shows "pool_exec ts s0 ls = Some s \<Longrightarrow> pool_run s0 ls s \<and> (\<forall>t. t \<notin> set ts \<longrightarrow> mon_pc (pool_mon s) t = Idle)"
proof (induction ls arbitrary: s rule: rev_induct)
  case Nil
  then show ?case using assms by (simp add: pool_exec_def prun_nil)
next
  case (snoc l ls)
  then obtain s1 where s1: "pool_exec ts s0 ls = Some s1" and nx: "pool_next ts s1 l = Some s"
    by (auto simp: pool_exec_def bind_eq_Some_conv)
  then show ?case
    using snoc.IH [OF s1] pool_next_step [OF _ nx] pool_next_idle [OF nx] by (auto intro: prun_snoc)
qed

definition pool_of :: "nat \<Rightarrow> tid list \<Rightarrow> 't pool_state" where
  "pool_of qsize tids =
     \<lparr>pool_mon = mon_init \<lparr>m_brunning = True, m_tasks = [], m_maxQueueSize = qsize\<rparr>,
      m_threads = tids, pool_worker = (\<lambda>t. if t \<in> set tids then WInit else NotWorker),
      pool_names = map (\<lambda>i. ''ThreadPool'' @ fmt_d False 0 (int i + 1)) [0..<length tids],
      pool_joins = (\<lambda>_. []), pool_joining = (\<lambda>_. None), pool_joined = (\<lambda>_. False), pool_aborted = False\<rparr>"

lemma pool_of_started: "distinct tids \<Longrightarrow> 0 \<notin> set tids \<Longrightarrow> pool_started 0 qsize tids (pool_of qsize tids)"
  by (simp add: pool_started_def ThreadPool_start_def ThreadPool_setMaxQueueSize_def
      ThreadPool_new_def mon_init_def pool_of_def fun_eq_iff) blast

lemma pool_of_idle: "mon_pc (pool_mon (pool_of n tids)) t = Idle"
  by (simp add: pool_of_def mon_init_def)

lemmas pool_exec_simps = pool_exec_def pool_next_def can_call_def mon_next_def pool_of_def pool_defs mutex_defs
  mon_init_def MutexLock_new_def notify_first_def

text \<open>The steps of a call of run or getTask that does not wait, and of the begin of a task.\<close>

definition runs_task :: "tid \<Rightarrow> 't \<Rightarrow> 't pool_label list" where
  "runs_task t x = [PMon (Call t (PRun x)), PMon (Lock t), PMon (Test t), PMon (Exec t (PRun x) PDone),
     PMon (Return t (PRun x) PDone)]"

definition gets_task :: "tid \<Rightarrow> 't \<Rightarrow> 't pool_label list" where
  "gets_task t x = [PMon (Call t PGetTask), PMon (Lock t), PMon (Test t), PMon (Exec t PGetTask (PTask (Some x))),
     PMon (Return t PGetTask (PTask (Some x)))]"

lemmas schedule_defs = runs_task_def gets_task_def

text \<open>
  The second worker begins its task while the first one, which took an earlier task, has not
  reached the call.
\<close>

definition overtaking :: "char pool_label list" where
  "overtaking = runs_task 1 CHR ''a'' @ runs_task 1 CHR ''b'' @ [PInit 2, PInit 3] @ gets_task 2 CHR ''a'' @ gets_task 3 CHR ''b''
     @ [PBegin 3 CHR ''b'']"

theorem ThreadPool_order_witness:
  "\<exists>s. pool_run (pool_of 2 [2, 3]) overtaking s \<and> begun overtaking = [(3, CHR ''b'')]
     \<and> ''ab'' = map snd (taken overtaking) @ flying (pool_mon s) @ m_tasks (mon_data (pool_mon s))
     \<and> holding (pool_worker s 2) = ''a''"
proof -
  have "\<exists>s. pool_exec [1, 2, 3] (pool_of 2 [2, 3]) overtaking = Some s"
    by (simp add: pool_exec_simps overtaking_def schedule_defs)
  then obtain s where s: "pool_run (pool_of 2 [2, 3]) overtaking s"
    using pool_exec_run [OF pool_of_idle] by blast
  note C5 = ThreadPool_order [OF pool_of_started s]
  have "of_worker 2 (taken overtaking) = of_worker 2 (begun overtaking) @ holding (pool_worker s 2)"
    using C5 by simp
  then show ?thesis
    using C5 s by (auto simp: overtaking_def schedule_defs)
qed

text \<open>
  A pool in which nothing moves by itself: only new calls, the ends of running tasks, which may
  take for ever, and wakeups without a notification are left.
\<close>

definition pool_quiet :: "'t pool_state \<Rightarrow> bool" where
  "pool_quiet s \<longleftrightarrow> (\<forall>l s'. pool_step s l s' \<longrightarrow> (\<exists>t p. l = PMon (Call t p) \<and> p \<noteq> PGetTask)
     \<or> (\<exists>t task. l = PDrop t task) \<or> (\<exists>t. l = PFinish t) \<or> (\<exists>t. l = PMon (Spurious t)))"

lemma quietD:
  assumes "pool_quiet s" and "\<not> pool_aborted s" and "pool_act s l s'"
  shows "(\<exists>t p. l = PMon (Call t p) \<and> p \<noteq> PGetTask) \<or> (\<exists>t task. l = PDrop t task)
    \<or> (\<exists>t. l = PFinish t) \<or> (\<exists>t. l = PMon (Spurious t))"
  using assms unfolding pool_quiet_def pool_step_def by blast

lemma quiet_stuck:
  assumes inv: "pool_inv tids s" and q: "pool_quiet s" and a: "\<not> pool_aborted s"
    and ji: "joiner_inv s"
  shows "stuck ThreadPool (pool_mon s)"
  unfolding stuck_def
proof (intro allI impI)
  fix l m
  assume step: "mon_step ThreadPool (pool_mon s) l m"
  show "(\<exists>t p. l = Call t p) \<or> (\<exists>t. l = Spurious t)"
  proof (cases l)
    case (Return t p r)
    have pc: "mon_pc (pool_mon s) t = Leaving p r" using return_pc [OF step [unfolded Return]] by simp
    have nout: "\<not> outside (pool_worker s t)" using inv pc unfolding pool_inv_def by (metis pc.distinct(11))
    show ?thesis
    proof (cases "pool_worker s t = WGet")
      case False
      then have "can_call s t" using nout ji pc
        by (auto simp: can_call_def outside_def joiner_inv_def split: worker.splits)
      from quietD [OF q a caller_return [OF this step [unfolded Return]]] show ?thesis by simp
    next
      case True
      then have "p = PGetTask \<and> (\<exists>x. r = PTask x)"
        using inv pc unfolding pool_inv_def by (metis in_getTask_simps(4))
      then obtain x where r: "p = PGetTask" "r = PTask x" by blast
      from quietD [OF q a worker_taken [OF True step [unfolded Return r]]] show ?thesis by simp
    qed
  qed (use quietD [OF q a inner [OF _ step]] in \<open>auto simp: internal_def\<close>)
qed

lemma quiet_workers:
  assumes inv: "pool_inv tids s" and q: "pool_quiet s" and a: "\<not> pool_aborted s" and ji: "joiner_inv s"
    and t: "t \<in> set tids"
  shows "pool_worker s t = WExited \<or> (\<exists>task. pool_worker s t = WRun task)
    \<or> pool_worker s t = WGet \<and> mon_pc (pool_mon s) t = Waiting PGetTask"
proof -
  have nw: "pool_worker s t \<noteq> NotWorker" using inv t by (simp add: pool_inv_def)
  have mi: "mon_inv (pool_mon s)" using inv by (simp add: pool_inv_def)
  show ?thesis
  proof (cases "pool_worker s t")
    case WInit
    then show ?thesis using quietD [OF q a worker_init] by blast
  next
    case (WTaken x)
    then show ?thesis
      using quietD [OF q a worker_begin] quietD [OF q a worker_null] by (cases x) blast+
  next
    case WLoop
    have "mon_pc (pool_mon s) t = Idle" "t \<noteq> 0" using inv WLoop t by (auto simp: pool_inv_def)
    then obtain m where m: "mon_step ThreadPool (pool_mon s) (Call t PGetTask) m" by (blast intro: step_call)
    then show ?thesis
      using quietD [OF q a worker_enter [OF WLoop _ m]] quietD [OF q a worker_exit [OF WLoop]] by blast
  next
    case WGet
    then have "in_getTask (mon_pc (pool_mon s) t)" using inv by (simp add: pool_inv_def)
    then show ?thesis using stuck_quiet [OF mi quiet_stuck [OF inv q a ji], of t] WGet by auto
  qed (use nw in simp_all)
qed

lemma stuck_nothing_flies: "mon_inv m \<Longrightarrow> stuck ops m \<Longrightarrow> m_lock (mon_mutex m) = None"
  using stuck_quiet [of m ops] owner_inside [of m] by (metis in_section_simps(4,6) not_None_eq)

text \<open>A thread in the joins waits for a worker that is not at its end, and not for itself.\<close>

lemma quiet_joins:
  assumes q: "pool_quiet s" and a: "\<not> pool_aborted s"
    and b: "pool_joins s t \<noteq> [] \<or> pool_joining s t \<noteq> None"
  shows "\<exists>w. pool_joining s t = Some w \<and> pool_worker s w \<noteq> WExited \<and> w \<noteq> t"
proof (cases "pool_joining s t")
  case None
  then obtain w ws where w: "pool_joins s t = w # ws" using b by (cases "pool_joins s t") auto
  show ?thesis
    using quietD [OF q a join_call [OF w None]] quietD [OF q a join_fail [OF w None]] by blast
next
  case (Some w)
  then show ?thesis using quietD [OF q a join_return [OF Some]] by blast
qed

text \<open>What is known of a pool at rest.\<close>

lemma pool_at_rest:
  assumes start: "pool_started garbage qsize tids s0" and run: "pool_run s0 ls s" and quiet: "pool_quiet s"
    and a: "\<not> pool_aborted s"
  shows "mon_pc (pool_mon s) w = Waiting PGetTask
      \<Longrightarrow> m_tasks (mon_data (pool_mon s)) = [] \<and> m_brunning (mon_data (pool_mon s))"
    and "mon_pc (pool_mon s) w = Waiting (PRun y) \<Longrightarrow> length (m_tasks (mon_data (pool_mon s))) = qsize"
    and "flying (pool_mon s) = []"
    and "w \<in> set tids \<Longrightarrow> pool_worker s w = WExited \<or> (\<exists>task. pool_worker s w = WRun task)
      \<or> pool_worker s w = WGet \<and> mon_pc (pool_mon s) w = Waiting PGetTask"
    and "pool_worker s w = WRun task
      \<Longrightarrow> mon_pc (pool_mon s) w = Idle \<or> (\<exists>x. mon_pc (pool_mon s) w = Waiting (PRun x))"
proof -
  note st = pool_started_state [OF start]
  have inv: "pool_inv tids s" using pool_run_inv(1) [OF run pool_inv_started [OF start]] .
  have jinv: "join_inv s" using pool_run_inv(2) [OF run join_inv_started [OF start]] .
  have ji: "joiner_inv s" using pool_run_inv(3) [OF run joiner_inv_started [OF start]] .
  have mi: "mon_inv (pool_mon s)" using inv by (simp add: pool_inv_def)
  have mrun: "mon_run ThreadPool (mon_init \<lparr>m_brunning = True, m_tasks = [], m_maxQueueSize = qsize\<rparr>)
      (mon_labels ls) (pool_mon s)"
    using pool_run_mon [OF run] st by simp
  have stuck: "stuck ThreadPool (pool_mon s)" by (rule quiet_stuck [OF inv quiet a ji])
  show "m_tasks (mon_data (pool_mon s)) = [] \<and> m_brunning (mon_data (pool_mon s))"
    if "mon_pc (pool_mon s) w = Waiting PGetTask"
    using pool_empty.no_lost_wakeup [OF mrun stuck that] by (simp add: pool_defs)
  show "length (m_tasks (mon_data (pool_mon s))) = qsize" if "mon_pc (pool_mon s) w = Waiting (PRun y)"
    using pool_full.no_lost_wakeup [OF mrun stuck that] tasks_flow [OF mrun]
    by (simp add: pool_defs split: if_splits)
  show "flying (pool_mon s) = []"
    using stuck_nothing_flies [OF mi stuck] by (simp add: flying_def)
  show "pool_worker s w = WExited \<or> (\<exists>task. pool_worker s w = WRun task)
      \<or> pool_worker s w = WGet \<and> mon_pc (pool_mon s) w = Waiting PGetTask" if "w \<in> set tids"
    by (rule quiet_workers [OF inv quiet a ji that])
  show "mon_pc (pool_mon s) w = Idle \<or> (\<exists>x. mon_pc (pool_mon s) w = Waiting (PRun x))"
    if "pool_worker s w = WRun task"
  proof -
    have "\<not> in_getTask (mon_pc (pool_mon s) w)"
      using inv that unfolding pool_inv_def by (metis worker.distinct(33))
    moreover have "mon_pc (pool_mon s) w \<noteq> Waiting PStop" using jinv by (simp add: join_inv_def)
    ultimately show ?thesis using stuck_quiet [OF mi stuck, of w]
      by (metis in_getTask_simps(3) pool_op.exhaust)
  qed
qed

text \<open>With nothing flying and no worker between getTask and the call, all that is taken is begun.\<close>

lemma all_begun:
  assumes start: "pool_started garbage qsize tids s0" and run: "pool_run s0 ls s"
    and "flying (pool_mon s) = []" "m_tasks (mon_data (pool_mon s)) = []"
    and "\<And>w. w \<in> set tids \<Longrightarrow> holding (pool_worker s w) = []"
  shows "mset (map snd (begun ls)) = mset (accepted (executed (mon_labels ls)))"
proof -
  note st = pool_started_state [OF start]
  note inv = pool_run_inv(1) [OF run pool_inv_started [OF start]]
  have "holding (pool_worker s w) = []" for w
    using assms(5) [of w] inv unfolding pool_inv_def by (metis holding_simps(1))
  then have "mset (begun ls) = mset (taken ls)"
    using pool_run_taken [OF run pool_inv_started [OF start]] st by (intro of_worker_mset) simp
  moreover have "accepted (executed (mon_labels ls)) = map snd (taken ls)"
    using tasks_flow [of True qsize "mon_labels ls" "pool_mon s"] pool_run_mon [OF run] st assms(3,4)
    by (simp add: taken_returned)
  ultimately show ?thesis by (simp add: mset_map)
qed

text \<open>
  C6. How the pool comes to rest: take a pool with room for at least one task in which nothing
  moves by itself any more, other than tasks that are still running.
  While the pool runs, either every worker is executing a task, which goes on in its own code or is
  itself blocked in run, or every accepted task has been begun, the queue is empty and nobody is
  blocked in run; and a call of run is blocked only while the queue is full. So no task and no
  wakeup is lost, but tasks that call run on a full queue can block all workers for good. After
  stop, every worker has left its loop or is executing a task, and a call of stop is held up only
  by such a task of another worker: stop returns once the tasks have ended. The assertion in the
  joins fails only after a second stop.
\<close>

theorem ThreadPool_progress:
  assumes start: "pool_started garbage qsize tids s0" and run: "pool_run s0 ls s" and quiet: "pool_quiet s"
    and pos: "0 < qsize"
  shows "(pool_aborted s \<longrightarrow> 2 \<le> stops ls)
    \<and> (\<not> pool_aborted s \<and> m_brunning (mon_data (pool_mon s)) \<longrightarrow>
         (\<forall>w \<in> set tids. (\<exists>task. pool_worker s w = WRun task)
            \<and> (mon_pc (pool_mon s) w = Idle \<or> (\<exists>x. mon_pc (pool_mon s) w = Waiting (PRun x))))
       \<or> m_tasks (mon_data (pool_mon s)) = []
         \<and> mset (map snd (begun ls)) = mset (accepted (executed (mon_labels ls)))
         \<and> (\<forall>t x. mon_pc (pool_mon s) t \<noteq> Waiting (PRun x)))
    \<and> (\<not> pool_aborted s \<longrightarrow> (\<forall>t x. mon_pc (pool_mon s) t = Waiting (PRun x)
         \<longrightarrow> length (m_tasks (mon_data (pool_mon s))) = qsize))
    \<and> (\<not> pool_aborted s \<and> \<not> m_brunning (mon_data (pool_mon s)) \<longrightarrow>
         (\<forall>w \<in> set tids. pool_worker s w = WExited \<or> (\<exists>task. pool_worker s w = WRun task)))
    \<and> (\<not> pool_aborted s \<longrightarrow> (\<forall>t. pool_joins s t \<noteq> [] \<or> pool_joining s t \<noteq> None \<longrightarrow>
         (\<exists>w task. pool_joining s t = Some w \<and> w \<noteq> t \<and> pool_worker s w = WRun task)))"
proof -
  note rest = pool_at_rest [OF start run quiet]
  have inv: "pool_inv tids s" using pool_run_inv(1) [OF run pool_inv_started [OF start]] .
  have jinv: "join_inv s" using pool_run_inv(2) [OF run join_inv_started [OF start]] .
  have "2 \<le> stops ls" if "pool_aborted s"
    using pool_run_stops [OF run start] that by (meson not_le)
  moreover have "m_tasks (mon_data (pool_mon s)) = []
      \<and> mset (map snd (begun ls)) = mset (accepted (executed (mon_labels ls)))
      \<and> (\<forall>t x. mon_pc (pool_mon s) t \<noteq> Waiting (PRun x))"
    if "\<not> pool_aborted s" "w \<in> set tids" "\<nexists>task. pool_worker s w = WRun task" "m_brunning (mon_data (pool_mon s))"
    for w
  proof -
    have "pool_worker s w \<noteq> WExited" using inv that(4) by (auto simp: pool_inv_def)
    then have e: "m_tasks (mon_data (pool_mon s)) = []" using rest(1,4) [OF that(1)] that(2,3) by blast
    moreover have "holding (pool_worker s v) = []" if "v \<in> set tids" for v
      using rest(4) [OF \<open>\<not> pool_aborted s\<close> that] by auto
    ultimately show ?thesis
      using all_begun [OF start run rest(3) [OF that(1)] e] rest(2) [OF that(1)] pos by fastforce
  qed
  moreover have "pool_worker s w = WExited \<or> (\<exists>task. pool_worker s w = WRun task)"
    if "\<not> pool_aborted s" "\<not> m_brunning (mon_data (pool_mon s))" "w \<in> set tids" for w
    using rest(1,4) [OF that(1)] that(2,3) by blast
  moreover have "\<exists>w task. pool_joining s t = Some w \<and> w \<noteq> t \<and> pool_worker s w = WRun task"
    if a: "\<not> pool_aborted s" and b: "pool_joins s t \<noteq> [] \<or> pool_joining s t \<noteq> None" for t
  proof -
    obtain w where w: "pool_joining s t = Some w" "pool_worker s w \<noteq> WExited" "w \<noteq> t"
      using quiet_joins [OF quiet a b] by blast
    have "w \<in> set tids" "\<not> m_brunning (mon_data (pool_mon s))"
      using jinv inv w(1) b unfolding join_inv_def pool_inv_def by metis+
    then show ?thesis using rest(1,4) [OF a] w by blast
  qed
  ultimately show ?thesis using rest(2,5) by blast
qed

text \<open>States that are quiet by their shape.\<close>

lemma quietI:
  assumes pcs: "\<And>t. mon_pc (pool_mon s) t = Idle \<or> (\<exists>p. mon_pc (pool_mon s) t = Waiting p)"
    and ws: "\<And>t. pool_worker s t = NotWorker \<or> pool_worker s t = WExited \<or> pool_worker s t = WGet
      \<or> (\<exists>task. pool_worker s t = WRun task)"
    and js: "\<And>t. pool_joins s t = [] \<and> pool_joining s t = None"
  shows "pool_quiet s"
  unfolding pool_quiet_def
proof (intro allI impI)
  fix l s'
  have mon: "(\<exists>t p. k = Call t p) \<or> (\<exists>t. k = Spurious t)" if "mon_step ThreadPool (pool_mon s) k m" for k m
    using that
  proof cases
    case (step_lock t p m)
    then show ?thesis using pcs [of t] by simp
  next
    case (step_wait t p)
    then show ?thesis using pcs [of t] by simp
  next
    case (step_pass t p)
    then show ?thesis using pcs [of t] by simp
  next
    case (step_relock t p m)
    then show ?thesis using pcs [of t] by simp
  next
    case (step_exec t p r d th)
    then show ?thesis using pcs [of t] by simp
  next
    case (step_return t p r)
    then show ?thesis using pcs [of t] by simp
  qed simp_all
  assume "pool_step s l s'"
  then have "pool_act s l s'" by (rule pool_step_act)
  then show "(\<exists>t p. l = PMon (Call t p) \<and> p \<noteq> PGetTask) \<or> (\<exists>t task. l = PDrop t task)
      \<or> (\<exists>t. l = PFinish t) \<or> (\<exists>t. l = PMon (Spurious t))"
  proof cases
    case (inner k m)
    then show ?thesis using mon [OF inner(4)] by (auto simp: internal_def)
  next
    case (caller_return t p r m)
    then show ?thesis using mon [OF caller_return(4)] by simp
  next
    case (worker_init t)
    then show ?thesis using ws [of t] by simp
  next
    case (worker_enter t m)
    then show ?thesis using ws [of t] by simp
  next
    case (worker_exit t)
    then show ?thesis using ws [of t] by simp
  next
    case (worker_taken t x m)
    then show ?thesis using mon [OF worker_taken(4)] by simp
  next
    case (worker_begin t task)
    then show ?thesis using ws [of t] by simp
  next
    case (worker_null t)
    then show ?thesis using ws [of t] by simp
  next
    case (join_call t w ws)
    then show ?thesis using js [of t] by simp
  next
    case (join_fail t w ws)
    then show ?thesis using js [of t] by simp
  next
    case (join_return t w)
    then show ?thesis using js [of t] by simp
  qed simp_all
qed

text \<open>One task from run to its end, and the worker back in getTask.\<close>

definition one_task :: "char pool_label list" where
  "one_task = runs_task 1 CHR ''a'' @ [PInit 2] @ gets_task 2 CHR ''a'' @ [PBegin 2 CHR ''a'']"

theorem ThreadPool_progress_witness:
  "\<exists>s. pool_run (pool_of 1 [2]) (one_task @ [PFinish 2, PMon (Call 2 PGetTask), PMon (Lock 2), PMon (Test 2)]) s
     \<and> pool_quiet s \<and> m_tasks (mon_data (pool_mon s)) = [] \<and> mon_pc (pool_mon s) 1 \<noteq> Waiting (PRun CHR ''b'')"
proof -
  let ?ls = "one_task @ [PFinish 2, PMon (Call 2 PGetTask), PMon (Lock 2), PMon (Test 2)]"
  have "\<exists>s. pool_exec [1, 2] (pool_of 1 [2]) ?ls = Some s
      \<and> (\<forall>t. mon_pc (pool_mon s) t = Idle \<or> (\<exists>p. mon_pc (pool_mon s) t = Waiting p))
      \<and> (\<forall>t. pool_worker s t = NotWorker \<or> pool_worker s t = WExited \<or> pool_worker s t = WGet)
      \<and> (\<forall>t. pool_joins s t = [] \<and> pool_joining s t = None)
      \<and> m_brunning (mon_data (pool_mon s)) \<and> \<not> pool_aborted s \<and> pool_worker s 2 = WGet"
    by (simp add: pool_exec_simps one_task_def schedule_defs)
  then obtain s where s: "pool_run (pool_of 1 [2]) ?ls s" "pool_quiet s" "m_brunning (mon_data (pool_mon s))"
    "\<not> pool_aborted s" "pool_worker s 2 = WGet"
    using pool_exec_run [OF pool_of_idle] quietI by metis
  then show ?thesis
    using ThreadPool_progress [OF pool_of_started s(1,2)] by auto
qed

text \<open>
  After stop with a task left in the queue and a client in run; and a task that waits in run for
  room that only its own worker could make.
\<close>

definition stranded :: "char pool_label list" where
  "stranded = one_task @ runs_task 1 CHR ''b'' @
    [PMon (Call 1 (PRun CHR ''c'')), PMon (Lock 1), PMon (Test 1),
     PMon (Call 3 PStop), PMon (Lock 3), PMon (Test 3), PMon (Exec 3 PStop PDone), PMon (Return 3 PStop PDone),
     PJoin 3 2, PFinish 2, PExit 2, PJoined 3 2]"

definition self_blocked :: "char pool_label list" where
  "self_blocked = one_task @ runs_task 1 CHR ''b'' @ [PMon (Call 2 (PRun CHR ''c'')), PMon (Lock 2), PMon (Test 2)]"

lemma pool_quiet_run:
  assumes "pool_exec ts (pool_of n tids) ls = Some s"
    and "\<forall>t. mon_pc (pool_mon s) t = Idle \<or> (\<exists>p. mon_pc (pool_mon s) t = Waiting p)"
    and "\<forall>t. pool_worker s t = NotWorker \<or> pool_worker s t = WExited \<or> pool_worker s t = WGet
      \<or> (\<exists>task. pool_worker s t = WRun task)"
    and "\<forall>t. pool_joins s t = [] \<and> pool_joining s t = None"
  shows "pool_run (pool_of n tids) ls s" and "pool_quiet s"
  using pool_exec_run [OF pool_of_idle assms(1)] quietI [of s] assms(2-4) by blast+

lemma stranded_run:
  "\<exists>s. pool_run (pool_of 1 [2]) stranded s \<and> pool_quiet s \<and> \<not> m_brunning (mon_data (pool_mon s))
      \<and> pool_worker s 2 = WExited \<and> m_tasks (mon_data (pool_mon s)) = ''b'' \<and> begun stranded = [(2, CHR ''a'')]
      \<and> mon_pc (pool_mon s) 1 = Waiting (PRun CHR ''c'')"
proof -
  have "\<exists>s. pool_exec [1, 2, 3] (pool_of 1 [2]) stranded = Some s
      \<and> (\<forall>t. mon_pc (pool_mon s) t = Idle \<or> (\<exists>p. mon_pc (pool_mon s) t = Waiting p))
      \<and> (\<forall>t. pool_worker s t = NotWorker \<or> pool_worker s t = WExited \<or> pool_worker s t = WGet
           \<or> (\<exists>task. pool_worker s t = WRun task))
      \<and> (\<forall>t. pool_joins s t = [] \<and> pool_joining s t = None)
      \<and> \<not> m_brunning (mon_data (pool_mon s)) \<and> pool_worker s 2 = WExited
      \<and> m_tasks (mon_data (pool_mon s)) = ''b'' \<and> mon_pc (pool_mon s) 1 = Waiting (PRun CHR ''c'')"
    by (simp add: pool_exec_simps stranded_def one_task_def schedule_defs)
  moreover have "begun stranded = [(2, CHR ''a'')]" by (simp add: stranded_def one_task_def schedule_defs)
  ultimately show ?thesis using pool_quiet_run by blast
qed

lemma self_blocked_run:
  "\<exists>s. pool_run (pool_of 1 [2]) self_blocked s \<and> pool_quiet s \<and> m_brunning (mon_data (pool_mon s))
      \<and> pool_worker s 2 = WRun CHR ''a'' \<and> mon_pc (pool_mon s) 2 = Waiting (PRun CHR ''c'')
      \<and> m_tasks (mon_data (pool_mon s)) = ''b'' \<and> begun self_blocked = [(2, CHR ''a'')]"
proof -
  have "\<exists>s. pool_exec [1, 2] (pool_of 1 [2]) self_blocked = Some s
      \<and> (\<forall>t. mon_pc (pool_mon s) t = Idle \<or> (\<exists>p. mon_pc (pool_mon s) t = Waiting p))
      \<and> (\<forall>t. pool_worker s t = NotWorker \<or> pool_worker s t = WExited \<or> pool_worker s t = WGet
           \<or> (\<exists>task. pool_worker s t = WRun task))
      \<and> (\<forall>t. pool_joins s t = [] \<and> pool_joining s t = None)
      \<and> m_brunning (mon_data (pool_mon s)) \<and> pool_worker s 2 = WRun CHR ''a''
      \<and> mon_pc (pool_mon s) 2 = Waiting (PRun CHR ''c'') \<and> m_tasks (mon_data (pool_mon s)) = ''b''"
    by (simp add: pool_exec_simps self_blocked_def one_task_def schedule_defs)
  moreover have "begun self_blocked = [(2, CHR ''a'')]" by (simp add: self_blocked_def one_task_def schedule_defs)
  ultimately show ?thesis using pool_quiet_run by blast
qed

text \<open>Without threads there is no worker, no join and no failing assertion.\<close>

lemma empty_pool:
  assumes run: "pool_run (pool_of n []) ls s"
  shows "begun ls = []" and "pool_step s (PDrop t task) s"
proof -
  have start: "pool_started 0 n [] (pool_of n [])" by (rule pool_of_started) simp_all
  have inv: "pool_inv [] s" "join_inv s"
    using pool_run_inv [OF run] pool_inv_started [OF start] join_inv_started [OF start] by blast+
  have th: "m_threads s = []" and nw: "pool_worker s u = NotWorker" for u
    using inv(1) by (simp_all add: pool_inv_def)
  have none: "holding (pool_worker (pool_of n []) w) = []" for w by (simp add: pool_of_def)
  note way = pool_run_taken [OF run pool_inv_started [OF start] none]
  have "taken ls = []" using conjunct2 [OF way] by simp
  then have "of_worker w (begun ls) = of_worker w []" for w
    using conjunct1 [OF way] by (metis Nil_is_append_conv of_worker_simps(1))
  then have "mset (begun ls) = mset []" by (rule of_worker_mset)
  then show "begun ls = []" by simp
  have "set (pool_joins s t) \<subseteq> {}" "\<forall>w. pool_joining s t = Some w \<longrightarrow> w \<in> {}" "\<not> pool_aborted s"
    using inv(2) th unfolding join_inv_def by (metis list.set(1))+
  then have "can_call s t" "\<not> pool_aborted s" using nw by (simp_all add: can_call_def)
  then show "pool_step s (PDrop t task) s" using th by (auto simp: pool_step_def intro: caller_drop)
qed



end
