(* ===== verification/TextSink.thy ===== *)
theory TextSink
  imports Prelude
begin

text \<open>
  The contract between what writes log text and what takes it, shared by LogFile with and without
  its mutex and by AsyncLogging: one call adds one line to what the receiver holds, or fails in
  a way that the contract names. A sequence of calls then adds its lines in order.
\<close>

primrec puts :: "('c \<Rightarrow> 's \<Rightarrow> 's result) \<Rightarrow> 'c list \<Rightarrow> 's \<Rightarrow> 's result" where
  "puts put [] s = Inr s"
| "puts put (c # cs) s = bindE (put c s) (puts put cs)"

locale text_sink =
  fixes put :: "'c \<Rightarrow> 's \<Rightarrow> 's result"
    and line_of :: "'c \<Rightarrow> string"
    and accepts :: "'c \<Rightarrow> bool"
    and holds :: "string list \<Rightarrow> 's \<Rightarrow> bool"
    and excused :: "fault set"
  assumes put_step: "holds lines s \<Longrightarrow> accepts c \<Longrightarrow>
    (\<exists>f \<in> excused. put c s = Inl f) \<or> (\<exists>s'. put c s = Inr s' \<and> holds (lines @ [line_of c]) s')"
begin

lemma puts_step:
  "holds lines s \<Longrightarrow> list_all accepts cs \<Longrightarrow>
    (\<exists>f \<in> excused. puts put cs s = Inl f) \<or> (\<exists>s'. puts put cs s = Inr s' \<and> holds (lines @ map line_of cs) s')"
proof (induction cs arbitrary: lines s)
  case (Cons c cs)
  have "accepts c" "list_all accepts cs" using Cons.prems(2) by simp_all
  from put_step [OF Cons.prems(1) this(1)] show ?case
  proof (elim disjE exE conjE bexE)
    fix s' assume "put c s = Inr s'" "holds (lines @ [line_of c]) s'"
    then show ?thesis using Cons.IH [of "lines @ [line_of c]" s'] \<open>list_all accepts cs\<close> by simp
  qed auto
qed simp

end

text \<open>A receiver that takes every line meets the contract without an excuse.\<close>

locale lossless_sink =
  fixes put :: "'c \<Rightarrow> 's \<Rightarrow> 's result"
    and line_of :: "'c \<Rightarrow> string"
    and accepts :: "'c \<Rightarrow> bool"
    and holds :: "string list \<Rightarrow> 's \<Rightarrow> bool"
  assumes put_takes: "holds lines s \<Longrightarrow> accepts c \<Longrightarrow> \<exists>s'. put c s = Inr s' \<and> holds (lines @ [line_of c]) s'"

sublocale lossless_sink \<subseteq> text_sink put line_of accepts holds "{}"
  using put_takes by unfold_locales blast

context lossless_sink
begin

lemma puts_takes:
  "holds lines s \<Longrightarrow> list_all accepts cs \<Longrightarrow> \<exists>s'. puts put cs s = Inr s' \<and> holds (lines @ map line_of cs) s'"
  using puts_step by blast

end

end
