(* ===== verification/LogFile.thy ===== *)
theory LogFile
  imports TextSink FileUtil Monitor Date
begin

text \<open>
  base/LogFile.h and base/LogFile.cc: the rolling log file. The optional mutex is the one of
  Mutex.h; a thread that locks it again while holding it is stuck, the fault SelfDeadlock. The
  values of the clock are arguments, one for each call of time in the order of the calls. The
  four members that the constructor does not initialise are arguments of it.
\<close>

record log_file =
  lf_mutexLock :: "mutex option"
  lf_file :: write_file
  lf_closed :: "write_file list"
  lf_startPeriod :: int
  lf_lastFlush :: int
  lf_lastRoll :: int
  lf_bThreadSafe :: bool
  lf_appendCount :: int
  lf_rollSize :: nat
  lf_basename :: string
  lf_flushInterval :: int
  lf_checkEveryN :: int

definition m_rollPeriod :: int where
  "m_rollPeriod = 24 * 60 * 60"

text \<open>The system as the class sees it.\<close>

record log_env =
  le_fwrite :: fwrite
  le_opens :: "string \<Rightarrow> bool"
  le_gmtime :: "int \<Rightarrow> tm"
  le_hostname :: string
  le_pid :: int

definition LogFile_getLogFileName :: "log_env \<Rightarrow> string \<Rightarrow> int \<Rightarrow> string" where
  "LogFile_getLogFileName env basename now =
     (let tm = le_gmtime env now;
          stamp = ''.'' @ fmt_d False 0 (tm_year tm + 1900) @ fmt_d True 2 (tm_mon tm + 1)
            @ fmt_d True 2 (tm_mday tm) @ ''-'' @ fmt_d True 2 (tm_hour tm) @ fmt_d True 2 (tm_min tm)
            @ fmt_d True 2 (tm_sec tm) @ ''.'' in
      basename @ (if length stamp < 32 then stamp else []) @ le_hostname env
        @ snprintf_string 32 (''.'' @ fmt_d False 0 (le_pid env)) @ ''.log'')"

definition LogFile_rollFile :: "log_env \<Rightarrow> int \<Rightarrow> log_file \<Rightarrow> bool \<times> log_file" where
  "LogFile_rollFile env now lf =
     (let filename = LogFile_getLogFileName env (lf_basename lf) now;
          start = now sdiv m_rollPeriod * m_rollPeriod in
      if now > lf_lastRoll lf
      then (True, lf\<lparr>lf_lastRoll := now, lf_lastFlush := now, lf_startPeriod := start,
                     lf_closed := lf_closed lf @ [WriteFile_destroy (lf_file lf)],
                     lf_file := WriteFile_new (le_opens env) filename\<rparr>)
      else (False, lf))"

definition LogFile_new ::
  "log_env \<Rightarrow> bool \<Rightarrow> nat \<Rightarrow> string \<Rightarrow> int \<Rightarrow> int \<Rightarrow> int \<times> int \<times> int \<times> int \<Rightarrow> int \<Rightarrow> log_file" where
  "LogFile_new env threadsafe rollsize basename flushInterval checkEveryN garbage now =
     (let (startPeriod, lastFlush, lastRoll, appendCount) = garbage in
      snd (LogFile_rollFile env now
        \<lparr>lf_mutexLock = (if threadsafe then Some MutexLock_new else None),
         lf_file = WriteFile_new (le_opens env) basename, lf_closed = [],
         lf_startPeriod = startPeriod, lf_lastFlush = lastFlush, lf_lastRoll = lastRoll,
         lf_bThreadSafe = threadsafe, lf_appendCount = appendCount, lf_rollSize = rollsize,
         lf_basename = basename, lf_flushInterval = flushInterval, lf_checkEveryN = checkEveryN\<rparr>))"

text \<open>MutexLockGuard around a block, in the thread \<open>tid\<close>.\<close>

definition with_lock :: "tid \<Rightarrow> (log_file \<Rightarrow> log_file result) \<Rightarrow> log_file \<Rightarrow> log_file result" where
  "with_lock tid block lf =
     (case lf_mutexLock lf of
        None \<Rightarrow> block lf
      | Some m \<Rightarrow>
          (case MutexLock_lock tid m of
             None \<Rightarrow> Inl SelfDeadlock
           | Some m' \<Rightarrow>
               bindE (block (lf\<lparr>lf_mutexLock := Some m'\<rparr>))
                 (\<lambda>lf'. Inr (lf'\<lparr>lf_mutexLock := map_option MutexLock_unlock (lf_mutexLock lf')\<rparr>))))"

definition LogFile_flush :: "tid \<Rightarrow> log_file \<Rightarrow> log_file result" where
  "LogFile_flush tid lf = with_lock tid (\<lambda>lf. Inr (lf\<lparr>lf_file := WriteFile_flush (lf_file lf)\<rparr>)) lf"

definition LogFile_append_unlocked ::
  "log_env \<Rightarrow> tid \<Rightarrow> int \<Rightarrow> int \<Rightarrow> string \<Rightarrow> log_file \<Rightarrow> log_file result" where
  "LogFile_append_unlocked env tid time1 time2 line lf0 =
     bindE (of_loop (WriteFile_writeLine (le_fwrite env) line (lf_file lf0))) (\<lambda>(_, file).
       let lf = lf0\<lparr>lf_file := file\<rparr> in
       if WriteFile_WritenBytes (lf_file lf) \<ge> lf_rollSize lf
       then Inr (snd (LogFile_rollFile env time1 lf))
       else
         let count = lf_appendCount lf + 1 in
         bindE (checked32 [count] ()) (\<lambda>_.
           if count \<ge> lf_checkEveryN lf
           then
             let lf1 = lf\<lparr>lf_appendCount := 0\<rparr>;
                 now = time1;
                 thisPeriod = now sdiv m_rollPeriod * m_rollPeriod in
             if thisPeriod \<noteq> lf_startPeriod lf1 then Inr (snd (LogFile_rollFile env time2 lf1))
             else if now - lf_lastFlush lf1 \<ge> lf_flushInterval lf1
             then LogFile_flush tid (lf1\<lparr>lf_lastFlush := now\<rparr>)
             else Inr lf1
           else Inr (lf\<lparr>lf_appendCount := count\<rparr>)))"

definition LogFile_append ::
  "log_env \<Rightarrow> tid \<Rightarrow> int \<Rightarrow> int \<Rightarrow> string \<Rightarrow> log_file \<Rightarrow> log_file result" where
  "LogFile_append env tid time1 time2 line lf =
     with_lock tid (LogFile_append_unlocked env tid time1 time2 line) lf"

section \<open>What is in the files\<close>

definition lf_texts :: "log_file \<Rightarrow> string list" where
  "lf_texts lf = map wf_text (lf_closed lf @ [lf_file lf])"

definition reliable :: "log_env \<Rightarrow> bool" where
  "reliable env \<longleftrightarrow> fwrite_ok (le_fwrite env) \<and> fwrite_progress (le_fwrite env)
     \<and> (\<forall>i n. \<not> snd (le_fwrite env i n)) \<and> (\<forall>name. le_opens env name)"

text \<open>The file is open and free of errors, and the count of appends is within the type int.\<close>

definition lf_good :: "log_file \<Rightarrow> bool" where
  "lf_good lf \<longleftrightarrow> m_valid (lf_file lf) \<and> \<not> wf_error (lf_file lf)
     \<and> - (2 ^ 31) \<le> lf_appendCount lf \<and> lf_appendCount lf < 2 ^ 31 - 1 \<and> lf_checkEveryN lf < 2 ^ 31"

lemma writeLine_reliable:
  assumes "reliable env" and "m_valid f" and "\<not> wf_error f" and "length line < size_mod"
  obtains f' where "WriteFile_writeLine (le_fwrite env) line f = Some (length line, f')"
    and "wf_text f' = wf_text f @ line" and "m_valid f'" and "\<not> wf_error f'"
    and "m_nBytesWritten f' = size_add (m_nBytesWritten f) (length line)"
proof -
  obtain f' k where f': "writeLine_loop (le_fwrite env) line (length line) 0 f = Some f'"
      "k \<le> length line" "wf_text f' = wf_text f @ take k line" "wf_error f' \<or> k = length line"
      "m_nBytesWritten f' = m_nBytesWritten f" "m_valid f' = m_valid f" "wf_error f' = wf_error f"
    using writeLine_loop_spec [of "le_fwrite env" 0 "length line" line f] assms
    by (auto simp: reliable_def)
  show thesis
    by (rule that [of "f'\<lparr>m_nBytesWritten := size_add (m_nBytesWritten f') (length line)\<rparr>"])
      (use f' assms in \<open>simp_all add: WriteFile_writeLine_def Let_def\<close>)
qed

text \<open>The lines of a log, grouped by the files they went to.\<close>

definition grouped :: "string list list \<Rightarrow> log_file \<Rightarrow> bool" where
  "grouped parts lf \<longleftrightarrow> lf_texts lf = map concat parts \<and> parts \<noteq> []"

lemma rollFile_good:
  assumes "reliable env" and "lf_good lf" and "grouped parts lf"
  shows "lf_good (snd (LogFile_rollFile env now lf))
    \<and> (\<exists>parts'. grouped parts' (snd (LogFile_rollFile env now lf)) \<and> concat parts' = concat parts)
    \<and> lf_mutexLock (snd (LogFile_rollFile env now lf)) = lf_mutexLock lf
    \<and> lf_rollSize (snd (LogFile_rollFile env now lf)) = lf_rollSize lf
    \<and> (lf_lastRoll lf < now \<longrightarrow> m_nBytesWritten (lf_file (snd (LogFile_rollFile env now lf))) = 0)"
proof (cases "lf_lastRoll lf < now")
  case True
  let ?lf = "snd (LogFile_rollFile env now lf)"
  have "grouped (parts @ [[]]) ?lf"
    using True assms(3)
    by (auto simp: LogFile_rollFile_def Let_def grouped_def lf_texts_def WriteFile_new_def WriteFile_destroy_def)
  then have "\<exists>parts'. grouped parts' ?lf \<and> concat parts' = concat parts"
    by (intro exI [of _ "parts @ [[]]"]) simp
  then show ?thesis
    using True assms(1,2)
    by (auto simp: LogFile_rollFile_def Let_def lf_good_def WriteFile_new_def reliable_def)
next
  case False
  then show ?thesis using assms by (auto simp: LogFile_rollFile_def Let_def)
qed

lemma grouped_snoc:
  assumes "grouped parts lf" and "wf_text f = wf_text (lf_file lf) @ line"
  shows "\<exists>parts'. grouped parts' (lf\<lparr>lf_file := f\<rparr>) \<and> concat parts' = concat parts @ [line]"
proof -
  obtain ps p where "parts = ps @ [p]" using assms(1) by (metis grouped_def rev_exhaust)
  then have "grouped (ps @ [p @ [line]]) (lf\<lparr>lf_file := f\<rparr>)"
    using assms by (auto simp: grouped_def lf_texts_def)
  then show ?thesis using \<open>parts = ps @ [p]\<close> by (intro exI [of _ "ps @ [p @ [line]]"]) simp
qed

definition logged :: "string list \<Rightarrow> log_file \<Rightarrow> bool" where
  "logged lines lf \<longleftrightarrow> lf_good lf \<and> (\<exists>parts. grouped parts lf \<and> concat parts = lines)"

lemma logged_update:
  "logged lines lf \<Longrightarrow> - (2 ^ 31) \<le> c \<Longrightarrow> c < 2 ^ 31 - 1 \<Longrightarrow>
    logged lines (lf\<lparr>lf_appendCount := c, lf_lastFlush := n\<rparr>)"
  "logged lines lf \<Longrightarrow> - (2 ^ 31) \<le> c \<Longrightarrow> c < 2 ^ 31 - 1 \<Longrightarrow> logged lines (lf\<lparr>lf_appendCount := c\<rparr>)"
  "logged lines lf \<Longrightarrow> logged lines (lf\<lparr>lf_file := WriteFile_flush (lf_file lf)\<rparr>)"
  "logged lines lf \<Longrightarrow> logged lines (lf\<lparr>lf_mutexLock := m\<rparr>)"
  by (auto simp: logged_def lf_good_def grouped_def lf_texts_def WriteFile_flush_def)

lemma logged_roll:
  "reliable env \<Longrightarrow> logged lines lf \<Longrightarrow> logged lines (snd (LogFile_rollFile env now lf))"
  using rollFile_good [of env lf] unfolding logged_def by blast

text \<open>When an append is followed by a flush.\<close>

definition flush_due :: "log_env \<Rightarrow> int \<Rightarrow> string \<Rightarrow> log_file \<Rightarrow> bool" where
  "flush_due env time1 line lf \<longleftrightarrow>
     (case WriteFile_writeLine (le_fwrite env) line (lf_file lf) of
        None \<Rightarrow> False
      | Some (_, file) \<Rightarrow>
          WriteFile_WritenBytes file < lf_rollSize lf \<and> in_int32 (lf_appendCount lf + 1)
          \<and> lf_appendCount lf + 1 \<ge> lf_checkEveryN lf
          \<and> time1 sdiv m_rollPeriod * m_rollPeriod = lf_startPeriod lf
          \<and> time1 - lf_lastFlush lf \<ge> lf_flushInterval lf)"

text \<open>Rolling, as the appends use it.\<close>

lemma roll_step:
  assumes "reliable env" and "logged lines lf" and "LogFile_rollFile env now lf = (b, lf')"
  shows "logged lines lf' \<and> lf_mutexLock lf' = lf_mutexLock lf \<and> lf_rollSize lf' = lf_rollSize lf
    \<and> (lf_lastRoll lf < now \<longrightarrow> WriteFile_WritenBytes (lf_file lf') = 0)"
  using logged_roll [OF assms(1,2), of now] assms(3)
  by (auto simp: LogFile_rollFile_def Let_def WriteFile_WritenBytes_def WriteFile_new_def split: if_splits)

text \<open>What follows the write when the size is below the roll size: the count and the look at the clock.\<close>

definition append_check :: "log_env \<Rightarrow> tid \<Rightarrow> int \<Rightarrow> int \<Rightarrow> log_file \<Rightarrow> log_file result" where
  "append_check env tid time1 time2 lf =
     (if lf_appendCount lf + 1 < lf_checkEveryN lf then Inr (lf\<lparr>lf_appendCount := lf_appendCount lf + 1\<rparr>)
      else if time1 sdiv m_rollPeriod * m_rollPeriod \<noteq> lf_startPeriod lf
      then Inr (snd (LogFile_rollFile env time2 (lf\<lparr>lf_appendCount := 0\<rparr>)))
      else if time1 - lf_lastFlush lf \<ge> lf_flushInterval lf
      then LogFile_flush tid (lf\<lparr>lf_appendCount := 0, lf_lastFlush := time1\<rparr>)
      else Inr (lf\<lparr>lf_appendCount := 0\<rparr>))"

lemma append_unlocked_parts:
  assumes "WriteFile_writeLine (le_fwrite env) line (lf_file lf) = Some (n, f)" and "in_int32 (lf_appendCount lf + 1)"
  shows "LogFile_append_unlocked env tid time1 time2 line lf =
    (if WriteFile_WritenBytes f \<ge> lf_rollSize lf then Inr (snd (LogFile_rollFile env time1 (lf\<lparr>lf_file := f\<rparr>)))
     else append_check env tid time1 time2 (lf\<lparr>lf_file := f\<rparr>))"
  using assms by (auto simp: LogFile_append_unlocked_def append_check_def Let_def checked32_def)

lemma append_check_step:
  assumes env: "reliable env" and log: "logged lines lf" and small: "WriteFile_WritenBytes (lf_file lf) < lf_rollSize lf"
    and free: "lf_mutexLock lf = None \<or> \<not> (lf_appendCount lf + 1 \<ge> lf_checkEveryN lf
      \<and> time1 sdiv m_rollPeriod * m_rollPeriod = lf_startPeriod lf \<and> time1 - lf_lastFlush lf \<ge> lf_flushInterval lf)"
  shows "\<exists>lf'. append_check env tid time1 time2 lf = Inr lf' \<and> logged lines lf' \<and> lf_mutexLock lf' = lf_mutexLock lf
    \<and> lf_rollSize lf' = lf_rollSize lf
    \<and> (lf_lastRoll lf < time2 \<longrightarrow> WriteFile_WritenBytes (lf_file lf') < lf_rollSize lf)"
proof -
  have cnt: "- (2 ^ 31) \<le> lf_appendCount lf" "lf_appendCount lf < 2 ^ 31 - 1" "lf_checkEveryN lf < 2 ^ 31"
    using log by (simp_all add: logged_def lf_good_def)
  have log0: "logged lines (lf\<lparr>lf_appendCount := 0\<rparr>)" using logged_update(2) [OF log] by simp
  consider (count) "lf_appendCount lf + 1 < lf_checkEveryN lf"
    | (roll) "\<not> lf_appendCount lf + 1 < lf_checkEveryN lf" "time1 sdiv m_rollPeriod * m_rollPeriod \<noteq> lf_startPeriod lf"
    | (flush) "\<not> lf_appendCount lf + 1 < lf_checkEveryN lf" "time1 sdiv m_rollPeriod * m_rollPeriod = lf_startPeriod lf"
        "time1 - lf_lastFlush lf \<ge> lf_flushInterval lf"
    | (none) "\<not> lf_appendCount lf + 1 < lf_checkEveryN lf" "time1 sdiv m_rollPeriod * m_rollPeriod = lf_startPeriod lf"
        "\<not> time1 - lf_lastFlush lf \<ge> lf_flushInterval lf" by blast
  then show ?thesis
  proof cases
    case count
    then show ?thesis using logged_update(2) [OF log, of "lf_appendCount lf + 1"] cnt small by (simp add: append_check_def)
  next
    case roll
    obtain b l' where l': "LogFile_rollFile env time2 (lf\<lparr>lf_appendCount := 0\<rparr>) = (b, l')" by fastforce
    then show ?thesis using roll roll_step [OF env log0 l'] small by (auto simp: append_check_def)
  next
    case flush
    then have no: "lf_mutexLock lf = None" using free by auto
    let ?lf = "lf\<lparr>lf_appendCount := 0, lf_lastFlush := time1, lf_file := WriteFile_flush (lf_file lf)\<rparr>"
    have "append_check env tid time1 time2 lf = Inr ?lf"
      using flush no by (simp add: append_check_def LogFile_flush_def with_lock_def)
    moreover have "logged lines ?lf" using logged_update(3) [OF logged_update(1) [OF log, of 0 time1]] by simp
    moreover have "WriteFile_WritenBytes (lf_file ?lf) = WriteFile_WritenBytes (lf_file lf)"
      by (simp add: WriteFile_WritenBytes_def WriteFile_flush_def)
    ultimately show ?thesis using small by simp
  next
    case none
    then show ?thesis using log0 small by (simp add: append_check_def)
  qed
qed

lemma append_unlocked_step:
  assumes env: "reliable env" and log: "logged lines lf" and len: "length line < size_mod"
    and free: "lf_mutexLock lf = None \<or> \<not> flush_due env time1 line lf"
  shows "\<exists>lf'. LogFile_append_unlocked env tid time1 time2 line lf = Inr lf'
    \<and> logged (lines @ [line]) lf' \<and> lf_mutexLock lf' = lf_mutexLock lf \<and> lf_rollSize lf' = lf_rollSize lf
    \<and> (lf_lastRoll lf < time1 \<longrightarrow> lf_lastRoll lf < time2 \<longrightarrow> 0 < lf_rollSize lf
         \<longrightarrow> WriteFile_WritenBytes (lf_file lf') < lf_rollSize lf)"
proof -
  have good: "m_valid (lf_file lf)" "\<not> wf_error (lf_file lf)" "lf_good lf"
    using log by (simp_all add: logged_def lf_good_def)
  obtain f where f: "WriteFile_writeLine (le_fwrite env) line (lf_file lf) = Some (length line, f)"
      "wf_text f = wf_text (lf_file lf) @ line" "m_valid f" "\<not> wf_error f"
    using writeLine_reliable [OF env good(1,2) len] by metis
  let ?lf = "lf\<lparr>lf_file := f\<rparr>"
  have log1: "logged (lines @ [line]) ?lf"
  proof -
    obtain parts where "grouped parts lf" "concat parts = lines" using log by (auto simp: logged_def)
    then show ?thesis using grouped_snoc [OF _ f(2)] good(3) f(3,4) unfolding logged_def lf_good_def by auto
  qed
  have ck: "in_int32 (lf_appendCount lf + 1)" using good(3) by (simp add: lf_good_def in_int32_def)
  note parts = append_unlocked_parts [OF f(1) ck, of tid time1 time2]
  show ?thesis
  proof (cases "WriteFile_WritenBytes f \<ge> lf_rollSize lf")
    case True
    obtain b l' where l': "LogFile_rollFile env time1 ?lf = (b, l')" by fastforce
    then show ?thesis using True roll_step [OF env log1 l'] by (simp add: parts)
  next
    case False
    have "lf_mutexLock ?lf = None \<or> \<not> (lf_appendCount ?lf + 1 \<ge> lf_checkEveryN ?lf
        \<and> time1 sdiv m_rollPeriod * m_rollPeriod = lf_startPeriod ?lf \<and> time1 - lf_lastFlush ?lf \<ge> lf_flushInterval ?lf)"
      using free f(1) False ck by (simp add: flush_due_def)
    from append_check_step [OF env log1 _ this, of tid time2] False show ?thesis by (auto simp: parts)
  qed
qed

text \<open>A sequence of appends, each with what the clock says and its line.\<close>

primrec LogFile_appends ::
  "log_env \<Rightarrow> tid \<Rightarrow> (int \<times> int \<times> string) list \<Rightarrow> log_file \<Rightarrow> log_file result" where
  "LogFile_appends env tid [] lf = Inr lf"
| "LogFile_appends env tid (c # cs) lf =
     bindE (LogFile_append env tid (fst c) (fst (snd c)) (snd (snd c)) lf) (LogFile_appends env tid cs)"

lemma append_no_mutex:
  "lf_mutexLock lf = None \<Longrightarrow>
    LogFile_append env tid t1 t2 line lf = LogFile_append_unlocked env tid t1 t2 line lf"
  by (simp add: LogFile_append_def with_lock_def)

definition log_put :: "log_env \<Rightarrow> tid \<Rightarrow> int \<times> int \<times> string \<Rightarrow> log_file \<Rightarrow> log_file result" where
  "log_put env tid c lf = LogFile_append env tid (fst c) (fst (snd c)) (snd (snd c)) lf"

lemma LogFile_appends_puts: "LogFile_appends env tid cs = puts (log_put env tid) cs"
proof (induction cs)
  case (Cons c cs)
  show ?case by (rule ext) (simp add: Cons.IH log_put_def)
qed (simp add: fun_eq_iff)

interpretation plain_log: lossless_sink "log_put env tid" "snd \<circ> snd" "\<lambda>c. length (snd (snd c)) < size_mod"
    "\<lambda>lines lf. reliable env \<and> logged lines lf \<and> lf_mutexLock lf = None"
  for env :: log_env and tid :: tid
proof
  fix lines :: "string list" and lf and c :: "int \<times> int \<times> string"
  assume "reliable env \<and> logged lines lf \<and> lf_mutexLock lf = None" and "length (snd (snd c)) < size_mod"
  then show "\<exists>s'. log_put env tid c lf = Inr s' \<and> reliable env \<and> logged (lines @ [(snd \<circ> snd) c]) s' \<and> lf_mutexLock s' = None"
    using append_unlocked_step [of env lines lf "snd (snd c)" "fst c" tid "fst (snd c)"]
    by (auto simp: log_put_def append_no_mutex)
qed

text \<open>A system for the witnesses: it takes at most four characters in a call of fwrite.\<close>

definition example_env :: log_env where
  "example_env = \<lparr>le_fwrite = (\<lambda>i n. (min n 4, False)), le_opens = (\<lambda>name. True),
     le_gmtime = (\<lambda>t. \<lparr>tm_sec = 0, tm_min = 0, tm_hour = 0, tm_mday = 1, tm_mon = 0, tm_year = 70\<rparr>),
     le_hostname = ''host'', le_pid = 7\<rparr>"

lemma example_env_reliable: "reliable example_env"
  by (simp add: reliable_def example_env_def fwrite_ok_def fwrite_progress_def)

lemma new_logged:
  assumes "reliable env" and "- (2 ^ 31) \<le> c" and "c < 2 ^ 31 - 1" and "n < 2 ^ 31"
  shows "logged [] (LogFile_new env ts rs name flush n (p, f, r, c) now)"
proof -
  define lf0 where "lf0 = \<lparr>lf_mutexLock = (if ts then Some MutexLock_new else None),
    lf_file = WriteFile_new (le_opens env) name, lf_closed = [], lf_startPeriod = p, lf_lastFlush = f,
    lf_lastRoll = r, lf_bThreadSafe = ts, lf_appendCount = c, lf_rollSize = rs, lf_basename = name,
    lf_flushInterval = flush, lf_checkEveryN = n\<rparr>"
  have "grouped [[]] lf0" by (simp add: grouped_def lf_texts_def lf0_def WriteFile_new_def)
  then have "logged [] lf0"
    using assms by (auto simp: logged_def lf_good_def lf0_def WriteFile_new_def reliable_def)
  from logged_roll [OF assms(1) this] show ?thesis by (simp add: LogFile_new_def lf0_def)
qed

section \<open>A log file with a mutex\<close>

lemma append_unlocked_mutex:
  assumes "\<not> flush_due env time1 line lf"
  shows "LogFile_append_unlocked env tid time1 time2 line (lf\<lparr>lf_mutexLock := m\<rparr>)
    = map_sum id (\<lambda>l. l\<lparr>lf_mutexLock := m\<rparr>) (LogFile_append_unlocked env tid time1 time2 line lf)"
proof (cases "WriteFile_writeLine (le_fwrite env) line (lf_file lf)")
  case (Some r)
  obtain n f where "r = (n, f)" by fastforce
  note w = Some [unfolded this]
  have roll: "snd (LogFile_rollFile env now (lf\<lparr>lf_mutexLock := m, lf_file := f, lf_appendCount := c\<rparr>))
      = (snd (LogFile_rollFile env now (lf\<lparr>lf_file := f, lf_appendCount := c\<rparr>)))\<lparr>lf_mutexLock := m\<rparr>"
    "snd (LogFile_rollFile env now (lf\<lparr>lf_mutexLock := m, lf_file := f\<rparr>))
      = (snd (LogFile_rollFile env now (lf\<lparr>lf_file := f\<rparr>)))\<lparr>lf_mutexLock := m\<rparr>" for now c
    by (simp_all add: LogFile_rollFile_def Let_def)
  show ?thesis
    using assms
    by (simp add: LogFile_append_unlocked_def w roll Let_def flush_due_def checked32_def)
qed (simp add: LogFile_append_unlocked_def)

lemma append_unlocked_deadlock:
  assumes "flush_due env time1 line lf"
  shows "LogFile_append_unlocked env tid time1 time2 line (lf\<lparr>lf_mutexLock := Some (MutexLock_assign tid
      (MutexLock_new\<lparr>m_lock := Some tid\<rparr>))\<rparr>) = Inl SelfDeadlock"
  using assms
  by (auto simp: flush_due_def LogFile_append_unlocked_def Let_def checked32_def LogFile_flush_def with_lock_def
      MutexLock_lock_def MutexLock_assign_def split: option.splits)

text \<open>One append to a log file with a mutex: it deadlocks when a flush is due, otherwise the line is logged.\<close>

lemma append_with_mutex:
  fixes tid :: tid
  defines "m \<equiv> MutexLock_assign tid (MutexLock_new\<lparr>m_lock := Some tid\<rparr>)"
  assumes "lf_mutexLock lf = Some MutexLock_new"
  shows "LogFile_append env tid time1 time2 line lf
      = bindE (LogFile_append_unlocked env tid time1 time2 line (lf\<lparr>lf_mutexLock := Some m\<rparr>))
          (\<lambda>lf'. Inr (lf'\<lparr>lf_mutexLock := map_option MutexLock_unlock (lf_mutexLock lf')\<rparr>))"
    and "MutexLock_unlock m = MutexLock_new"
  using assms by (simp_all add: LogFile_append_def with_lock_def MutexLock_lock_def MutexLock_new_def MutexLock_unlock_def
      MutexLock_unassgin_def MutexLock_assign_def)

lemma append_deadlocks:
  "lf_mutexLock lf = Some MutexLock_new \<Longrightarrow> flush_due env time1 line lf \<Longrightarrow>
    LogFile_append env tid time1 time2 line lf = Inl SelfDeadlock"
  by (simp add: append_with_mutex(1) append_unlocked_deadlock)

lemma append_logs:
  assumes "reliable env" and "logged lines lf" and "length line < size_mod"
    and mutex: "lf_mutexLock lf = Some MutexLock_new" and due: "\<not> flush_due env time1 line lf"
  shows "\<exists>lf'. LogFile_append env tid time1 time2 line lf = Inr lf' \<and> logged (lines @ [line]) lf'
    \<and> lf_mutexLock lf' = Some MutexLock_new
    \<and> (lf_lastRoll lf < time1 \<longrightarrow> lf_lastRoll lf < time2 \<longrightarrow> 0 < lf_rollSize lf
         \<longrightarrow> WriteFile_WritenBytes (lf_file lf') < lf_rollSize lf')"
proof -
  let ?m = "MutexLock_assign tid (MutexLock_new\<lparr>m_lock := Some tid\<rparr>)"
  have "\<not> flush_due env time1 line (lf\<lparr>lf_mutexLock := Some ?m\<rparr>)"
    using due by (auto simp: flush_due_def split: option.splits)
  then obtain lf' where "LogFile_append_unlocked env tid time1 time2 line (lf\<lparr>lf_mutexLock := Some ?m\<rparr>) = Inr lf'"
      "logged (lines @ [line]) lf'" "lf_mutexLock lf' = Some ?m" "lf_rollSize lf' = lf_rollSize lf"
      "lf_lastRoll lf < time1 \<longrightarrow> lf_lastRoll lf < time2 \<longrightarrow> 0 < lf_rollSize lf
         \<longrightarrow> WriteFile_WritenBytes (lf_file lf') < lf_rollSize lf"
    using append_unlocked_step [OF assms(1) logged_update(4) [OF assms(2)] assms(3), of "Some ?m" time1 tid time2] by auto
  then show ?thesis using logged_update(4) [of "lines @ [line]" lf' "Some MutexLock_new"]
    by (simp add: append_with_mutex [OF mutex])
qed

lemma append_mutex_step:
  assumes "reliable env" and "logged lines lf" and "length line < size_mod"
    and "lf_mutexLock lf = Some MutexLock_new"
  shows "LogFile_append env tid time1 time2 line lf = Inl SelfDeadlock
    \<or> (\<exists>lf'. LogFile_append env tid time1 time2 line lf = Inr lf' \<and> logged (lines @ [line]) lf'
         \<and> lf_mutexLock lf' = Some MutexLock_new)"
  using append_deadlocks [OF assms(4)] append_logs [OF assms] by blast

text \<open>What an append does to the time of the last flush.\<close>

lemma append_times:
  assumes "LogFile_append env tid time1 time2 line lf = Inr lf'" and "m \<le> lf_lastFlush lf" "m \<le> time1" "m \<le> time2"
  shows "lf_flushInterval lf' = lf_flushInterval lf \<and> m \<le> lf_lastFlush lf'"
proof -
  have unlocked: "lf_flushInterval l' = lf_flushInterval l \<and> m \<le> lf_lastFlush l'"
    if "LogFile_append_unlocked env tid time1 time2 line l = Inr l'" "m \<le> lf_lastFlush l" for l l'
    using that assms(3,4)
    by (auto simp: LogFile_append_unlocked_def Let_def LogFile_rollFile_def LogFile_flush_def with_lock_def checked32_def
        split: option.splits if_splits prod.splits simp: bindE_eq_Inr)
  then show ?thesis using assms(1,2)
    by (auto simp: LogFile_append_def with_lock_def split: option.splits simp: bindE_eq_Inr)
qed

interpretation locked_log: text_sink "log_put env tid" "snd \<circ> snd" "\<lambda>c. length (snd (snd c)) < size_mod"
    "\<lambda>lines lf. reliable env \<and> logged lines lf \<and> lf_mutexLock lf = Some MutexLock_new" "{SelfDeadlock}"
  for env :: log_env and tid :: tid
proof
  fix lines :: "string list" and lf and c :: "int \<times> int \<times> string"
  assume "reliable env \<and> logged lines lf \<and> lf_mutexLock lf = Some MutexLock_new" and "length (snd (snd c)) < size_mod"
  then show "(\<exists>f \<in> {SelfDeadlock}. log_put env tid c lf = Inl f)
      \<or> (\<exists>s'. log_put env tid c lf = Inr s' \<and> reliable env \<and> logged (lines @ [(snd \<circ> snd) c]) s'
           \<and> lf_mutexLock s' = Some MutexLock_new)"
    using append_mutex_step [of env lines lf "snd (snd c)" tid "fst c" "fst (snd c)"] by (auto simp: log_put_def)
qed

lemma flush_mutex_step:
  assumes "logged lines lf" and "lf_mutexLock lf = Some MutexLock_new"
  shows "\<exists>lf'. LogFile_flush tid lf = Inr lf' \<and> logged lines lf' \<and> lf_mutexLock lf' = Some MutexLock_new
    \<and> lf_texts lf' = lf_texts lf"
  using assms logged_update(3) [OF assms(1)]
    logged_update(4) [of lines "lf\<lparr>lf_file := WriteFile_flush (lf_file lf)\<rparr>" "Some MutexLock_new"]
  by (auto simp: LogFile_flush_def with_lock_def MutexLock_lock_def MutexLock_unlock_def MutexLock_unassgin_def
      MutexLock_assign_def MutexLock_new_def lf_texts_def WriteFile_flush_def)

lemma concat_map_concat: "concat (map concat xss) = concat (concat xss)"
  by (induction xss) simp_all

lemma logged_text: "logged lines lf \<Longrightarrow> concat (lf_texts lf) = concat lines"
  by (auto simp: logged_def grouped_def concat_map_concat)

lemma appends_with_mutex:
  assumes "reliable env"
  shows "logged lines lf \<Longrightarrow> lf_mutexLock lf = Some MutexLock_new \<Longrightarrow> list_all (\<lambda>c. length (snd (snd c)) < size_mod) cs \<Longrightarrow>
    (\<exists>lf'. LogFile_appends env tid cs lf = Inr lf' \<and> logged (lines @ map (snd \<circ> snd) cs) lf')
    \<or> LogFile_appends env tid cs lf = Inl SelfDeadlock
      \<and> (\<exists>before c rest lf1. cs = before @ c # rest \<and> LogFile_appends env tid before lf = Inr lf1
          \<and> logged (lines @ map (snd \<circ> snd) before) lf1 \<and> flush_due env (fst c) (snd (snd c)) lf1)"
proof (induction cs arbitrary: lines lf)
  case (Cons c cs)
  let ?line = "snd (snd c)"
  show ?case
  proof (cases "flush_due env (fst c) ?line lf")
    case True
    then show ?thesis using append_deadlocks [OF Cons.prems(2) True] Cons.prems(1)
      by (intro disjI2 conjI exI [of _ "[]"]) auto
  next
    case False
    obtain lf1 where lf1: "LogFile_append env tid (fst c) (fst (snd c)) ?line lf = Inr lf1" "logged (lines @ [?line]) lf1"
        "lf_mutexLock lf1 = Some MutexLock_new"
      using append_logs [OF assms Cons.prems(1) _ Cons.prems(2) False] Cons.prems(3) by fastforce
    have "list_all (\<lambda>c. length (snd (snd c)) < size_mod) cs" using Cons.prems(3) by simp
    from Cons.IH [OF lf1(2,3) this] show ?thesis
    proof (elim disjE conjE exE)
      fix before d rest lf2
      assume "LogFile_appends env tid cs lf1 = Inl SelfDeadlock" "cs = before @ d # rest"
        "LogFile_appends env tid before lf1 = Inr lf2" "logged ((lines @ [?line]) @ map (snd \<circ> snd) before) lf2"
        "flush_due env (fst d) (snd (snd d)) lf2"
      then show ?thesis using lf1(1) by (intro disjI2 conjI exI [of _ "c # before"]) (auto simp: comp_def)
    qed (use lf1(1) in simp)
  qed
qed simp

text \<open>
  C17. A log file loses, repeats, reorders and splits no line, as long as its appends return. On a system that opens
  files and takes what it is given, a sequence of appends to a log file whose mutex is free, or that has none, either
  returns, and what is then in the files, in the order of their creation, is the lines of before followed by the new
  ones, each line whole in one file; or it stops at an append that finds a flush due and has a mutex, which it
  locks twice, with all lines before that one in the files. Without a mutex it always returns. After an append whose
  times are later than the last change of the file, the size counted for the current file is below the roll size.
\<close>

theorem logfile_no_line_lost:
  assumes "reliable env" and "logged lines lf" and "lf_mutexLock lf = None \<or> lf_mutexLock lf = Some MutexLock_new"
    and "list_all (\<lambda>c. length (snd (snd c)) < size_mod) cs"
  shows "(case LogFile_appends env tid cs lf of
        Inr lf' \<Rightarrow> \<exists>parts. lf_texts lf' = map concat parts \<and> concat parts = lines @ map (snd \<circ> snd) cs
      | Inl f \<Rightarrow> f = SelfDeadlock \<and> lf_mutexLock lf \<noteq> None
          \<and> (\<exists>before c rest lf1 parts. cs = before @ c # rest \<and> LogFile_appends env tid before lf = Inr lf1
               \<and> flush_due env (fst c) (snd (snd c)) lf1
               \<and> lf_texts lf1 = map concat parts \<and> concat parts = lines @ map (snd \<circ> snd) before))
    \<and> (\<forall>time1 time2 (line :: string). length line < size_mod \<and> lf_lastRoll lf < min time1 time2 \<and> 0 < lf_rollSize lf \<longrightarrow>
        (case LogFile_append env tid time1 time2 line lf of
           Inr lf' \<Rightarrow> WriteFile_WritenBytes (lf_file lf') < lf_rollSize lf'
         | Inl f \<Rightarrow> f = SelfDeadlock \<and> lf_mutexLock lf \<noteq> None \<and> flush_due env time1 line lf))"
    (is "?run \<and> ?size")
proof
  have parts: "\<exists>parts. lf_texts l = map concat parts \<and> concat parts = ls" if "logged ls l" for ls l
    using that by (auto simp: logged_def grouped_def)
  show ?run
  proof (cases "lf_mutexLock lf")
    case None
    then obtain lf' where "LogFile_appends env tid cs lf = Inr lf'" "logged (lines @ map (snd \<circ> snd) cs) lf'"
      using plain_log.puts_takes [of env lines lf cs tid] assms unfolding LogFile_appends_puts by blast
    then show ?thesis using parts by simp
  next
    case (Some m)
    then have "lf_mutexLock lf = Some MutexLock_new" using assms(3) by simp
    from appends_with_mutex [OF assms(1,2) this assms(4), of tid] show ?thesis
      using parts Some by (elim disjE conjE exE) (simp, force)
  qed
  show ?size
  proof (intro allI impI)
    fix time1 time2 :: int and line :: string
    assume t: "length line < size_mod \<and> lf_lastRoll lf < min time1 time2 \<and> 0 < lf_rollSize lf"
    show "case LogFile_append env tid time1 time2 line lf of
        Inr lf' \<Rightarrow> WriteFile_WritenBytes (lf_file lf') < lf_rollSize lf'
      | Inl f \<Rightarrow> f = SelfDeadlock \<and> lf_mutexLock lf \<noteq> None \<and> flush_due env time1 line lf"
    proof (cases "lf_mutexLock lf")
      case None
      then show ?thesis using t append_unlocked_step [OF assms(1,2), of line time1 tid time2]
        by (auto simp: append_no_mutex)
    next
      case (Some m)
      then have m: "lf_mutexLock lf = Some MutexLock_new" using assms(3) by simp
      show ?thesis
      proof (cases "flush_due env time1 line lf")
        case True
        then show ?thesis using append_deadlocks [OF m True] m by simp
      next
        case False
        then show ?thesis using t append_logs [OF assms(1,2) _ m False, of tid time2] by auto
      qed
    qed
  qed
qed

theorem logfile_no_line_lost_witness:
  "\<exists>lf' parts. LogFile_appends example_env 1 [(100, 100, ''first line''), (101, 101, ''second line'')]
      (LogFile_new example_env False 8 ''log'' 3 1024 (0, 0, 0, 0) 50) = Inr lf'
    \<and> lf_texts lf' = map concat parts \<and> concat parts = [''first line'', ''second line'']"
proof -
  let ?lf = "LogFile_new example_env False 8 ''log'' 3 1024 (0, 0, 0, 0) 50"
  have "lf_mutexLock ?lf = None" by (simp add: LogFile_new_def LogFile_rollFile_def Let_def)
  then show ?thesis
    using logfile_no_line_lost [OF example_env_reliable new_logged [OF example_env_reliable], of 0 1024 False 8 "''log''"
        3 0 0 0 50 "[(100, 100, ''first line''), (101, 101, ''second line'')]" 1]
    by (simp add: size_mod_def split: sum.splits)
qed

text \<open>
  C37. A log file with a mutex stops its thread for good at the first append that finds a flush due:
  append holds the mutex and flush locks it again. Any other append does what it does without a
  mutex, and leaves the mutex free.
\<close>

theorem logfile_flush_deadlock:
  assumes "lf_mutexLock lf = Some MutexLock_new"
  shows "(if flush_due env time1 line lf
      then LogFile_append env tid time1 time2 line lf = Inl SelfDeadlock
      else LogFile_append env tid time1 time2 line lf
        = map_sum id (\<lambda>l. l\<lparr>lf_mutexLock := Some MutexLock_new\<rparr>)
            (LogFile_append env tid time1 time2 line (lf\<lparr>lf_mutexLock := None\<rparr>)))"
proof -
  let ?m = "MutexLock_assign tid (MutexLock_new\<lparr>m_lock := Some tid\<rparr>)"
  let ?app = "LogFile_append_unlocked env tid time1 time2 line"
  show ?thesis
  proof (cases "flush_due env time1 line lf")
    case True
    then show ?thesis using append_deadlocks [OF assms True] by simp
  next
    case False
    let ?r = "?app (lf\<lparr>lf_mutexLock := None\<rparr>)"
    have "?app (lf\<lparr>lf_mutexLock := Some ?m\<rparr>) = map_sum id (\<lambda>l. l\<lparr>lf_mutexLock := Some ?m\<rparr>) ?r"
      using append_unlocked_mutex [OF False, of tid time2] by (cases "?app lf") simp_all
    moreover have "LogFile_append env tid time1 time2 line (lf\<lparr>lf_mutexLock := None\<rparr>) = ?r"
      by (rule append_no_mutex) simp
    ultimately show ?thesis using False by (cases ?r) (simp_all add: append_with_mutex [OF assms])
  qed
qed

theorem logfile_flush_deadlock_witness:
  "LogFile_append example_env 1 60 60 ''abc'' (LogFile_new example_env True 1000 ''log'' 3 1 (0, 0, 0, 0) 50)
     = Inl SelfDeadlock"
proof -
  let ?lf = "LogFile_new example_env True 1000 ''log'' 3 1 (0, 0, 0, 0) 50"
  have "flush_due example_env 60 ''abc'' ?lf"
    by (simp add: flush_due_def LogFile_new_def LogFile_rollFile_def Let_def WriteFile_new_def example_env_def
        WriteFile_writeLine_def writeLine_loop.simps WriteFile_write_def WriteFile_WritenBytes_def size_sub_def size_add_def
        size_mod_def m_rollPeriod_def in_int32_def sdiv_nonneg)
  then show ?thesis
    using logfile_flush_deadlock [of ?lf example_env 60 "''abc''" 1 60]
    by (simp add: LogFile_new_def LogFile_rollFile_def Let_def)
qed

end
