(* ===== verification/Atomic.thy ===== *)
theory Atomic
  imports Prelude
begin

text \<open>
  base/Atomic.h: AtomicIntegerT over a machine integer. Every operation is one read-modify-write
  instruction on m\_value, so that an operation of one thread is a step of the value; the builtins
  wrap around. The result is the value returned and the new m\_value.
\<close>

definition AtomicIntegerT_new :: "'w::len word \<Rightarrow> 'w word" where
  "AtomicIntegerT_new value = value"

definition AtomicIntegerT_default :: "'w::len word" where
  "AtomicIntegerT_default = 0"

definition AtomicIntegerT_get :: "'w::len word \<Rightarrow> 'w word \<times> 'w word" where
  "AtomicIntegerT_get m_value = (m_value, if m_value = 0 then 0 else m_value)"

definition AtomicIntegerT_getAndSet :: "'w::len word \<Rightarrow> 'w word \<Rightarrow> 'w word \<times> 'w word" where
  "AtomicIntegerT_getAndSet value m_value = (m_value, value)"

definition AtomicIntegerT_addAndGet :: "'w::len word \<Rightarrow> 'w word \<Rightarrow> 'w word \<times> 'w word" where
  "AtomicIntegerT_addAndGet value m_value = (m_value + value, m_value + value)"

definition AtomicIntegerT_getAndAdd :: "'w::len word \<Rightarrow> 'w word \<Rightarrow> 'w word \<times> 'w word" where
  "AtomicIntegerT_getAndAdd value m_value =
     (let (sum, m_value') = AtomicIntegerT_addAndGet value m_value in (sum - value, m_value'))"

definition AtomicIntegerT_incAndGet :: "'w::len word \<Rightarrow> 'w word \<times> 'w word" where
  "AtomicIntegerT_incAndGet m_value = AtomicIntegerT_addAndGet 1 m_value"

definition AtomicIntegerT_inc :: "'w::len word \<Rightarrow> 'w word" where
  "AtomicIntegerT_inc m_value = snd (AtomicIntegerT_addAndGet 1 m_value)"

definition AtomicIntegerT_subAndGet :: "'w::len word \<Rightarrow> 'w word \<Rightarrow> 'w word \<times> 'w word" where
  "AtomicIntegerT_subAndGet value m_value = (m_value - value, m_value - value)"

definition AtomicIntegerT_decAndGet :: "'w::len word \<Rightarrow> 'w word \<times> 'w word" where
  "AtomicIntegerT_decAndGet m_value = AtomicIntegerT_subAndGet 1 m_value"

definition AtomicIntegerT_dec :: "'w::len word \<Rightarrow> 'w word" where
  "AtomicIntegerT_dec m_value = snd (AtomicIntegerT_subAndGet 1 m_value)"

lemmas atomic_defs = AtomicIntegerT_new_def AtomicIntegerT_default_def AtomicIntegerT_get_def
  AtomicIntegerT_getAndSet_def AtomicIntegerT_addAndGet_def AtomicIntegerT_getAndAdd_def
  AtomicIntegerT_incAndGet_def AtomicIntegerT_inc_def AtomicIntegerT_subAndGet_def
  AtomicIntegerT_decAndGet_def AtomicIntegerT_dec_def

text \<open>The increments of any number of threads hand out distinct values until the counter wraps.\<close>

primrec inc_values :: "nat \<Rightarrow> 'w::len word \<Rightarrow> 'w word list" where
  "inc_values 0 v = []"
| "inc_values (Suc n) v =
     (let (x, v') = AtomicIntegerT_incAndGet v in x # inc_values n v')"

lemma inc_values_eq: "inc_values n v = map (\<lambda>i. v + of_nat i) [1..<Suc n]"
proof (induction n arbitrary: v)
  case (Suc n)
  have "[1..<Suc (Suc n)] = 1 # map Suc [1..<Suc n]" by (simp add: upt_conv_Cons map_Suc_upt del: upt_Suc)
  then show ?case using Suc.IH [of "v + 1"]
    by (simp add: atomic_defs Let_def ac_simps del: upt_Suc)
qed simp

end
