(* ===== verification/Thread.thy ===== *)
theory Thread
  imports Atomic Printf Timestamp
begin

text \<open>
  base/Thread.h, base/Thread.cc and base/ThreadOp.h: the variables that every thread has for
  itself, the Thread objects, and the pthreads they create. A pthread\_t is the number of its pthread in
  the order of creation, the kernel's thread ids and the success of pthread\_create are arguments.
  The id that a thread publishes lives in a cell which only the Thread object owns, so that the
  weak pointer of the new thread can be locked as long as the object exists.
  pthread\_join succeeds (that a thread joins itself, EDEADLK, is left out here), and a successful
  pthread\_create and the assignment of m\_started behind it are one step.
\<close>

section \<open>ThreadOp\<close>

text \<open>t\_tidString is the C string in its array of 32 characters.\<close>

record thread_locals =
  t_cachedtid :: int
  t_threadname :: string
  t_tidString :: string
  t_tidStringLength :: int

definition thread_locals_new :: thread_locals where
  "thread_locals_new =
     \<lparr>t_cachedtid = 0, t_threadname = ''default'', t_tidString = [], t_tidStringLength = 6\<rparr>"

text \<open>The argument gettid is what the system call returns in the thread.\<close>

definition ThreadOp_cacheTid :: "int \<Rightarrow> 'a thread_locals_scheme \<Rightarrow> 'a thread_locals_scheme" where
  "ThreadOp_cacheTid gettid lo =
     (if t_cachedtid lo = 0
      then lo\<lparr>t_cachedtid := gettid, t_tidString := snprintf_string 32 (fmt_d False 5 gettid @ '' ''),
              t_tidStringLength := int (length (fmt_d False 5 gettid @ '' ''))\<rparr>
      else lo)"

definition ThreadOp_tid :: "int \<Rightarrow> 'a thread_locals_scheme \<Rightarrow> int \<times> 'a thread_locals_scheme" where
  "ThreadOp_tid gettid lo =
     (let lo' = (if t_cachedtid lo = 0 then ThreadOp_cacheTid gettid lo else lo) in (t_cachedtid lo', lo'))"

definition ThreadOp_threadName :: "'a thread_locals_scheme \<Rightarrow> string" where
  "ThreadOp_threadName lo = t_threadname lo"

definition ThreadOp_tidString :: "'a thread_locals_scheme \<Rightarrow> string" where
  "ThreadOp_tidString lo = t_tidString lo"

definition ThreadOp_tidStringLength :: "'a thread_locals_scheme \<Rightarrow> int" where
  "ThreadOp_tidStringLength lo = t_tidStringLength lo"

definition ThreadOp_afterFork :: "int \<Rightarrow> 'a thread_locals_scheme \<Rightarrow> 'a thread_locals_scheme" where
  "ThreadOp_afterFork gettid lo =
     snd (ThreadOp_tid gettid (lo\<lparr>t_cachedtid := 0, t_threadname := ''main''\<rparr>))"

definition ThreadOp_isMainThread :: "int \<Rightarrow> int \<Rightarrow> 'a thread_locals_scheme \<Rightarrow> bool \<times> 'a thread_locals_scheme" where
  "ThreadOp_isMainThread gettid getpid lo =
     (let (t, lo') = ThreadOp_tid gettid lo in (t = getpid, lo'))"

text \<open>The constructor of the static initializer, which runs in the main thread before main.\<close>

definition ThreadNameInitializer :: "int \<Rightarrow> 'a thread_locals_scheme \<Rightarrow> 'a thread_locals_scheme" where
  "ThreadNameInitializer gettid lo = snd (ThreadOp_tid gettid (lo\<lparr>t_threadname := ''main''\<rparr>))"

text \<open>The seconds and nanoseconds that sleepUsec hands to nanosleep.\<close>

definition ThreadOp_sleepUsec :: "int \<Rightarrow> int \<times> int" where
  "ThreadOp_sleepUsec usec = (usec sdiv kMicroSecsPerSecond, usec smod kMicroSecsPerSecond * 1000)"

section \<open>Objects and pthreads\<close>

record 'f thread =
  m_threadId :: nat
  m_sharedtid :: int
  m_name :: string
  m_started :: bool
  m_joined :: bool
  m_func :: 'f

record 'f thread_data =
  td_func :: 'f
  td_name :: string
  td_wktid :: nat

text \<open>A pthread before runInThread, inside its function, and at its end.\<close>

datatype thread_stage = Fresh | InFunc | Exited

record 'f pthread =
  pt_data :: "'f thread_data"
  pt_stage :: thread_stage
  pt_locals :: thread_locals
  pt_joins :: nat
  pt_detaches :: nat

text \<open>The objects in the order of their construction; None is one that has been destroyed.\<close>

record 'f thread_sys =
  m_ThreadNum :: "32 word"
  ts_objects :: "'f thread option list"
  ts_pthreads :: "'f pthread list"

definition thread_sys_init :: "'f thread_sys" where
  "thread_sys_init = \<lparr>m_ThreadNum = AtomicIntegerT_default, ts_objects = [], ts_pthreads = []\<rparr>"

definition Thread_setDefaultName :: "'f thread \<Rightarrow> 32 word \<Rightarrow> 'f thread \<times> 32 word" where
  "Thread_setDefaultName t threadNum =
     (let (num, threadNum') = AtomicIntegerT_incAndGet threadNum in
      (if m_name t = [] then t\<lparr>m_name := snprintf_string 32 (''Thread'' @ fmt_d False 0 (sint num))\<rparr> else t,
       threadNum'))"

definition Thread_new :: "'f \<Rightarrow> string \<Rightarrow> nat \<Rightarrow> 'f thread_sys \<Rightarrow> 'f thread_sys" where
  "Thread_new func name garbage s =
     (let (t, num) = Thread_setDefaultName
            \<lparr>m_threadId = garbage, m_sharedtid = 0, m_name = name, m_started = False, m_joined = False,
             m_func = func\<rparr> (m_ThreadNum s) in
      s\<lparr>m_ThreadNum := num, ts_objects := ts_objects s @ [Some t]\<rparr>)"

definition Thread_threadNum :: "'f thread_sys \<Rightarrow> int" where
  "Thread_threadNum s = sint (fst (AtomicIntegerT_get (m_ThreadNum s)))"

definition Thread_tid :: "'f thread \<Rightarrow> int" where
  "Thread_tid t = m_sharedtid t"

definition Thread_started :: "'f thread \<Rightarrow> bool" where
  "Thread_started t = m_started t"

text \<open>start on the object \<open>t\<close> with the number \<open>i\<close>; the flag says whether pthread\_create succeeds.\<close>

definition Thread_start :: "bool \<Rightarrow> nat \<Rightarrow> 'f thread \<Rightarrow> 'f thread_sys \<Rightarrow> 'f thread_sys result" where
  "Thread_start ok i t s =
     assert_then (\<not> m_started t)
       (if ok
        then Inr (s\<lparr>ts_pthreads := ts_pthreads s @
                      [\<lparr>pt_data = \<lparr>td_func = m_func t, td_name = m_name t, td_wktid = i\<rparr>, pt_stage = Fresh,
                        pt_locals = thread_locals_new, pt_joins = 0, pt_detaches = 0\<rparr>],
                    ts_objects := (ts_objects s)[i := Some (t\<lparr>m_threadId := length (ts_pthreads s),
                                                             m_started := True\<rparr>)]\<rparr>)
        else Inr s)"

definition pthread_join :: "nat \<Rightarrow> 'f pthread list \<Rightarrow> 'f pthread list" where
  "pthread_join j ps = ps[j := (ps ! j)\<lparr>pt_joins := pt_joins (ps ! j) + 1\<rparr>]"

definition pthread_detach :: "nat \<Rightarrow> 'f pthread list \<Rightarrow> 'f pthread list" where
  "pthread_detach j ps = ps[j := (ps ! j)\<lparr>pt_detaches := pt_detaches (ps ! j) + 1\<rparr>]"

definition Thread_join :: "nat \<Rightarrow> 'f thread \<Rightarrow> 'f thread_sys \<Rightarrow> 'f thread_sys result" where
  "Thread_join i t s =
     assert_then (m_started t) (assert_then (\<not> m_joined t)
       (Inr (s\<lparr>ts_objects := (ts_objects s)[i := Some (t\<lparr>m_joined := True\<rparr>)],
               ts_pthreads := pthread_join (m_threadId t) (ts_pthreads s)\<rparr>)))"

definition Thread_destroy :: "nat \<Rightarrow> 'f thread \<Rightarrow> 'f thread_sys \<Rightarrow> 'f thread_sys" where
  "Thread_destroy i t s =
     (let s' = s\<lparr>ts_objects := (ts_objects s)[i := None]\<rparr> in
      if m_started t \<and> \<not> m_joined t
      then s'\<lparr>ts_pthreads := pthread_detach (m_threadId t) (ts_pthreads s')\<rparr> else s')"

text \<open>runInThread of the j-th pthread, up to the call of the function and behind it.\<close>

definition runInThread_begin :: "int \<Rightarrow> nat \<Rightarrow> 'f thread_sys \<Rightarrow> 'f thread_sys" where
  "runInThread_begin gettid j s =
     (let p = ts_pthreads s ! j;
          td = pt_data p;
          (tid, lo) = ThreadOp_tid gettid ((pt_locals p)\<lparr>t_threadname := td_name td\<rparr>);
          objects = (case ts_objects s ! td_wktid td of
                       Some t \<Rightarrow> (ts_objects s)[td_wktid td := Some (t\<lparr>m_sharedtid := tid\<rparr>)]
                     | None \<Rightarrow> ts_objects s);
          lo' = lo\<lparr>t_threadname := (if td_name td = [] then ''MyNetThread'' else td_name td)\<rparr> in
      s\<lparr>ts_objects := objects,
        ts_pthreads := (ts_pthreads s)[j := p\<lparr>pt_locals := lo', pt_stage := InFunc\<rparr>]\<rparr>)"

definition runInThread_end :: "nat \<Rightarrow> 'f thread_sys \<Rightarrow> 'f thread_sys" where
  "runInThread_end j s =
     (let p = ts_pthreads s ! j in
      s\<lparr>ts_pthreads := (ts_pthreads s)[j := p\<lparr>pt_locals := (pt_locals p)\<lparr>t_threadname := ''finished''\<rparr>,
                                             pt_stage := Exited\<rparr>]\<rparr>)"

section \<open>Runs\<close>

text \<open>
  The calls on existing objects and the steps of the pthreads, in any order. A join returns when
  its thread has finished; whether it is called before or after makes no difference to the object.
\<close>

datatype 'f thread_event =
    NewThread 'f string nat
  | StartThread nat bool
  | JoinThread nat
  | DestroyThread nat
  | RunBegin nat int
  | RunEnd nat

definition on_object :: "nat \<Rightarrow> ('f thread \<Rightarrow> 'f thread_sys result) \<Rightarrow> 'f thread_sys
    \<Rightarrow> 'f thread_sys result option" where
  "on_object i f s = (if i < length (ts_objects s) then map_option f (ts_objects s ! i) else None)"

fun thread_next :: "'f thread_event \<Rightarrow> 'f thread_sys \<Rightarrow> 'f thread_sys result option" where
  "thread_next (NewThread func name garbage) s = Some (Inr (Thread_new func name garbage s))"
| "thread_next (StartThread i ok) s = on_object i (\<lambda>t. Thread_start ok i t s) s"
| "thread_next (JoinThread i) s = on_object i (\<lambda>t. Thread_join i t s) s"
| "thread_next (DestroyThread i) s = on_object i (\<lambda>t. Inr (Thread_destroy i t s)) s"
| "thread_next (RunBegin j gettid) s =
     (if j < length (ts_pthreads s) \<and> pt_stage (ts_pthreads s ! j) = Fresh
      then Some (Inr (runInThread_begin gettid j s)) else None)"
| "thread_next (RunEnd j) s =
     (if j < length (ts_pthreads s) \<and> pt_stage (ts_pthreads s ! j) = InFunc
      then Some (Inr (runInThread_end j s)) else None)"

inductive thread_run :: "'f thread_event list \<Rightarrow> 'f thread_sys \<Rightarrow> 'f thread_sys result \<Rightarrow> bool" where
  run_nil: "thread_run [] s (Inr s)"
| run_fault: "thread_next e s = Some (Inl f) \<Longrightarrow> thread_run (e # es) s (Inl f)"
| run_step: "thread_next e s = Some (Inr s') \<Longrightarrow> thread_run es s' r \<Longrightarrow> thread_run (e # es) s r"

section \<open>The invariant\<close>

text \<open>How a pthread and the object that created it fit together.\<close>

fun linked :: "nat \<Rightarrow> 'f pthread \<Rightarrow> 'f thread option \<Rightarrow> bool" where
  "linked j p None = (pt_joins p + pt_detaches p = 1)"
| "linked j p (Some t) = (m_started t \<and> m_threadId t = j \<and> pt_joins p = (if m_joined t then 1 else 0)
     \<and> pt_detaches p = 0 \<and> m_sharedtid t = t_cachedtid (pt_locals p))"

abbreviation owner :: "'f pthread \<Rightarrow> nat" where
  "owner p \<equiv> td_wktid (pt_data p)"

definition pthread_ok :: "'f thread option list \<Rightarrow> nat \<Rightarrow> 'f pthread \<Rightarrow> bool" where
  "pthread_ok objs j p \<longleftrightarrow> owner p < length objs \<and> linked j p (objs ! owner p)
     \<and> (pt_stage p = Fresh \<longrightarrow> t_cachedtid (pt_locals p) = 0)"

definition object_ok :: "'f pthread list \<Rightarrow> nat \<Rightarrow> 'f thread \<Rightarrow> bool" where
  "object_ok ps i t \<longleftrightarrow> (if m_started t then m_threadId t < length ps \<and> owner (ps ! m_threadId t) = i
     else \<not> m_joined t \<and> m_sharedtid t = 0)"

definition thread_inv :: "'f thread_sys \<Rightarrow> bool" where
  "thread_inv s \<longleftrightarrow> (\<forall>j < length (ts_pthreads s). pthread_ok (ts_objects s) j (ts_pthreads s ! j))
     \<and> (\<forall>i t. i < length (ts_objects s) \<longrightarrow> ts_objects s ! i = Some t \<longrightarrow> object_ok (ts_pthreads s) i t)"

lemma thread_invI:
  assumes "\<And>j. j < length (ts_pthreads s) \<Longrightarrow> pthread_ok (ts_objects s) j (ts_pthreads s ! j)"
    and "\<And>i t. i < length (ts_objects s) \<Longrightarrow> ts_objects s ! i = Some t \<Longrightarrow> object_ok (ts_pthreads s) i t"
  shows "thread_inv s"
  using assms by (simp add: thread_inv_def)

text \<open>A step on one pthread and its object.\<close>

lemma pair_keeps:
  assumes inv: "thread_inv s" and j: "j < length (ts_pthreads s)" and i: "i = owner (ts_pthreads s ! j)"
    and p': "owner p' = i" "linked j p' ob" "pt_stage p' = Fresh \<Longrightarrow> t_cachedtid (pt_locals p') = 0"
    and dead: "ts_objects s ! i = None \<Longrightarrow> ob = None"
  shows "thread_inv (s\<lparr>ts_objects := (ts_objects s)[i := ob], ts_pthreads := (ts_pthreads s)[j := p']\<rparr>)"
    (is "thread_inv ?s")
proof (rule thread_invI)
  have pok: "pthread_ok (ts_objects s) k (ts_pthreads s ! k)" if "k < length (ts_pthreads s)" for k
    using inv that by (simp add: thread_inv_def)
  have len: "i < length (ts_objects s)" using pok [OF j] i by (simp add: pthread_ok_def)
  fix k assume k: "k < length (ts_pthreads ?s)"
  show "pthread_ok (ts_objects ?s) k (ts_pthreads ?s ! k)"
  proof (cases "k = j")
    case True
    then show ?thesis using j p' len by (simp add: pthread_ok_def)
  next
    case False
    have "ob = None \<and> ts_objects s ! i = None" if "owner (ts_pthreads s ! k) = i"
      using pok [of k] pok [OF j] k i that False dead
      by (cases "ts_objects s ! i") (auto simp: pthread_ok_def)
    then have "(ts_objects s)[i := ob] ! owner (ts_pthreads s ! k) = ts_objects s ! owner (ts_pthreads s ! k)"
      using len by (cases "owner (ts_pthreads s ! k) = i") auto
    then show ?thesis using pok [of k] k False by (simp add: pthread_ok_def)
  qed
next
  fix k t assume k: "k < length (ts_objects ?s)" "ts_objects ?s ! k = Some t"
  show "object_ok (ts_pthreads ?s) k t"
  proof (cases "k = i")
    case True
    then show ?thesis using k p' j by (cases ob) (auto simp: object_ok_def)
  next
    case False
    then have "object_ok (ts_pthreads s) k t" using inv k by (simp add: thread_inv_def)
    then show ?thesis using p'(1) i j by (auto simp: object_ok_def nth_list_update)
  qed
qed

text \<open>A step on an object that has not been started.\<close>

lemma unstarted_no_pthread:
  assumes "thread_inv s" and "ts_objects s ! i = Some t" and "\<not> m_started t" and "j < length (ts_pthreads s)"
  shows "owner (ts_pthreads s ! j) \<noteq> i"
  using assms by (auto simp: thread_inv_def pthread_ok_def)

lemma new_keeps:
  assumes inv: "thread_inv s"
  shows "thread_inv (Thread_new func name garbage s)"
proof -
  obtain t num where "Thread_setDefaultName \<lparr>m_threadId = garbage, m_sharedtid = 0, m_name = name, m_started = False,
      m_joined = False, m_func = func\<rparr> (m_ThreadNum s) = (t, num)" by fastforce
  then have t: "Thread_new func name garbage s = s\<lparr>m_ThreadNum := num, ts_objects := ts_objects s @ [Some t]\<rparr>"
    "\<not> m_started t" "\<not> m_joined t" "m_sharedtid t = 0"
    by (auto simp: Thread_new_def Thread_setDefaultName_def Let_def split: prod.splits if_splits)
  show ?thesis unfolding t(1)
  proof (rule thread_invI)
    fix k u assume "k < length (ts_objects (s\<lparr>m_ThreadNum := num, ts_objects := ts_objects s @ [Some t]\<rparr>))"
      "ts_objects (s\<lparr>m_ThreadNum := num, ts_objects := ts_objects s @ [Some t]\<rparr>) ! k = Some u"
    then show "object_ok (ts_pthreads (s\<lparr>m_ThreadNum := num, ts_objects := ts_objects s @ [Some t]\<rparr>)) k u"
      using inv t by (cases "k < length (ts_objects s)") (auto simp: thread_inv_def object_ok_def nth_append less_Suc_eq)
  qed (use inv in \<open>auto simp: thread_inv_def pthread_ok_def nth_append\<close>)
qed

lemma start_keeps:
  assumes inv: "thread_inv s" and i: "i < length (ts_objects s)" "ts_objects s ! i = Some t"
  shows "Thread_start ok i t s = Inl AssertFail \<or> (\<exists>s'. Thread_start ok i t s = Inr s' \<and> thread_inv s')"
proof (cases "m_started t \<or> \<not> ok")
  case False
  let ?p = "\<lparr>pt_data = \<lparr>td_func = m_func t, td_name = m_name t, td_wktid = i\<rparr>, pt_stage = Fresh,
    pt_locals = thread_locals_new, pt_joins = 0, pt_detaches = 0\<rparr>"
  let ?t = "t\<lparr>m_threadId := length (ts_pthreads s), m_started := True\<rparr>"
  let ?s = "s\<lparr>ts_pthreads := ts_pthreads s @ [?p], ts_objects := (ts_objects s)[i := Some ?t]\<rparr>"
  have t: "\<not> m_joined t" "m_sharedtid t = 0" using inv i False by (auto simp: thread_inv_def object_ok_def)
  have "thread_inv ?s"
  proof (rule thread_invI)
    fix j assume "j < length (ts_pthreads ?s)"
    then consider "j < length (ts_pthreads s)" | "j = length (ts_pthreads s)" by fastforce
    then show "pthread_ok (ts_objects ?s) j (ts_pthreads ?s ! j)"
    proof cases
      case 1
      then have "owner (ts_pthreads s ! j) \<noteq> i" using unstarted_no_pthread [OF inv i(2)] False by blast
      then show ?thesis using inv 1 by (simp add: thread_inv_def pthread_ok_def nth_append)
    qed (use i t in \<open>simp add: pthread_ok_def thread_locals_new_def\<close>)
  next
    fix k u assume k: "k < length (ts_objects ?s)" "ts_objects ?s ! k = Some u"
    show "object_ok (ts_pthreads ?s) k u"
    proof (cases "k = i")
      case True
      then show ?thesis using k by (auto simp: object_ok_def)
    next
      case False
      then have "object_ok (ts_pthreads s) k u" using inv k by (simp add: thread_inv_def)
      then show ?thesis by (simp add: object_ok_def nth_append split: if_splits)
    qed
  qed
  then show ?thesis using False by (simp add: Thread_start_def)
qed (use inv in \<open>auto simp: Thread_start_def assert_then_def\<close>)

lemma object_pthread:
  assumes "thread_inv s" and "i < length (ts_objects s)" and "ts_objects s ! i = Some t" and "m_started t"
  shows "m_threadId t < length (ts_pthreads s)" "i = owner (ts_pthreads s ! m_threadId t)"
    "linked (m_threadId t) (ts_pthreads s ! m_threadId t) (Some t)"
    "pt_stage (ts_pthreads s ! m_threadId t) = Fresh \<longrightarrow> t_cachedtid (pt_locals (ts_pthreads s ! m_threadId t)) = 0"
proof -
  show j: "m_threadId t < length (ts_pthreads s)" "i = owner (ts_pthreads s ! m_threadId t)"
    using assms unfolding thread_inv_def object_ok_def by metis+
  have "pthread_ok (ts_objects s) (m_threadId t) (ts_pthreads s ! m_threadId t)"
    using assms(1) j(1) by (simp add: thread_inv_def)
  then show "linked (m_threadId t) (ts_pthreads s ! m_threadId t) (Some t)"
    "pt_stage (ts_pthreads s ! m_threadId t) = Fresh \<longrightarrow> t_cachedtid (pt_locals (ts_pthreads s ! m_threadId t)) = 0"
    using j(2) assms(3) unfolding pthread_ok_def by metis+
qed

lemma join_keeps:
  assumes "thread_inv s" and "i < length (ts_objects s)" and "ts_objects s ! i = Some t"
  shows "Thread_join i t s = Inl AssertFail \<or> (\<exists>s'. Thread_join i t s = Inr s' \<and> thread_inv s')"
proof (cases "m_started t \<and> \<not> m_joined t")
  case True
  then have st: "m_started t" by simp
  note op = object_pthread [OF assms st]
  let ?p = "(ts_pthreads s ! m_threadId t)\<lparr>pt_joins := pt_joins (ts_pthreads s ! m_threadId t) + 1\<rparr>"
  have "thread_inv (s\<lparr>ts_objects := (ts_objects s)[i := Some (t\<lparr>m_joined := True\<rparr>)],
      ts_pthreads := (ts_pthreads s)[m_threadId t := ?p]\<rparr>)"
    by (rule pair_keeps [OF assms(1) op(1,2)]) (use op assms(3) True in auto)
  then show ?thesis using True by (simp add: Thread_join_def pthread_join_def)
qed (auto simp: Thread_join_def assert_then_def)

lemma destroy_keeps:
  assumes "thread_inv s" and "i < length (ts_objects s)" and "ts_objects s ! i = Some t"
  shows "thread_inv (Thread_destroy i t s)"
proof (cases "m_started t")
  case True
  note op = object_pthread [OF assms True]
  let ?q = "ts_pthreads s ! m_threadId t"
  let ?p = "if m_joined t then ?q else ?q\<lparr>pt_detaches := pt_detaches ?q + 1\<rparr>"
  have "thread_inv (s\<lparr>ts_objects := (ts_objects s)[i := None], ts_pthreads := (ts_pthreads s)[m_threadId t := ?p]\<rparr>)"
    by (rule pair_keeps [OF assms(1) op(1,2)]) (use op in \<open>auto split: if_splits\<close>)
  then show ?thesis using True by (auto simp: Thread_destroy_def pthread_detach_def Let_def)
next
  case False
  have "thread_inv (s\<lparr>ts_objects := (ts_objects s)[i := None]\<rparr>)"
  proof (rule thread_invI)
    fix j assume j: "j < length (ts_pthreads (s\<lparr>ts_objects := (ts_objects s)[i := None]\<rparr>))"
    then have "owner (ts_pthreads s ! j) \<noteq> i" using unstarted_no_pthread [OF assms(1,3) False] by simp
    then show "pthread_ok (ts_objects (s\<lparr>ts_objects := (ts_objects s)[i := None]\<rparr>)) j
        (ts_pthreads (s\<lparr>ts_objects := (ts_objects s)[i := None]\<rparr>) ! j)"
      using assms(1) j by (simp add: thread_inv_def pthread_ok_def)
  next
    fix k u assume "k < length (ts_objects (s\<lparr>ts_objects := (ts_objects s)[i := None]\<rparr>))"
      "ts_objects (s\<lparr>ts_objects := (ts_objects s)[i := None]\<rparr>) ! k = Some u"
    then show "object_ok (ts_pthreads (s\<lparr>ts_objects := (ts_objects s)[i := None]\<rparr>)) k u"
      using assms(1,2) by (cases "k = i") (auto simp: thread_inv_def)
  qed
  then show ?thesis using False by (simp add: Thread_destroy_def)
qed

lemma run_begin_keeps:
  assumes inv: "thread_inv s" and j: "j < length (ts_pthreads s)" and fresh: "pt_stage (ts_pthreads s ! j) = Fresh"
  shows "thread_inv (runInThread_begin gettid j s)"
proof -
  define p where "p = ts_pthreads s ! j"
  define i where "i = owner p"
  have pok: "i < length (ts_objects s)" "linked j p (ts_objects s ! i)" "t_cachedtid (pt_locals p) = 0"
    using inv j fresh by (simp_all add: thread_inv_def pthread_ok_def p_def i_def)
  define lo where "lo = snd (ThreadOp_tid gettid ((pt_locals p)\<lparr>t_threadname := td_name (pt_data p)\<rparr>))"
  have lo: "ThreadOp_tid gettid ((pt_locals p)\<lparr>t_threadname := td_name (pt_data p)\<rparr>) = (t_cachedtid lo, lo)"
    by (simp add: lo_def ThreadOp_tid_def Let_def)
  define p' where "p' = p\<lparr>pt_locals := lo\<lparr>t_threadname :=
    (if td_name (pt_data p) = [] then ''MyNetThread'' else td_name (pt_data p))\<rparr>, pt_stage := InFunc\<rparr>"
  define ob where "ob = map_option (\<lambda>t. t\<lparr>m_sharedtid := t_cachedtid lo\<rparr>) (ts_objects s ! i)"
  have "thread_inv (s\<lparr>ts_objects := (ts_objects s)[i := ob], ts_pthreads := (ts_pthreads s)[j := p']\<rparr>)"
  proof (rule pair_keeps [OF inv j])
    show "linked j p' ob" using pok(2) by (cases "ts_objects s ! i") (auto simp: ob_def p'_def)
  qed (simp_all add: ob_def p'_def i_def p_def)
  moreover have "(ts_objects s)[i := None] = ts_objects s" if "ts_objects s ! i = None"
    using that list_update_id [of "ts_objects s" i] by simp
  then have "runInThread_begin gettid j s
      = s\<lparr>ts_objects := (ts_objects s)[i := ob], ts_pthreads := (ts_pthreads s)[j := p']\<rparr>"
    using lo
    by (cases "ts_objects s ! i") (auto simp: runInThread_begin_def Let_def ob_def p'_def i_def p_def)
  ultimately show ?thesis by simp
qed

lemma run_end_keeps:
  assumes inv: "thread_inv s" and j: "j < length (ts_pthreads s)" and stage: "pt_stage (ts_pthreads s ! j) = InFunc"
  shows "thread_inv (runInThread_end j s)"
proof -
  let ?p = "ts_pthreads s ! j"
  let ?q = "?p\<lparr>pt_locals := (pt_locals ?p)\<lparr>t_threadname := ''finished''\<rparr>, pt_stage := Exited\<rparr>"
  have ok: "linked j ?p (ts_objects s ! owner ?p)" using inv j by (simp add: thread_inv_def pthread_ok_def)
  have "thread_inv (s\<lparr>ts_objects := (ts_objects s)[owner ?p := ts_objects s ! owner ?p],
      ts_pthreads := (ts_pthreads s)[j := ?q]\<rparr>)"
    by (rule pair_keeps [OF inv j refl]) (use ok in \<open>cases "ts_objects s ! owner ?p"; simp\<close>)+
  then show ?thesis by (simp add: runInThread_end_def Let_def)
qed

lemma next_keeps:
  assumes "thread_inv s" and "thread_next e s = Some r"
  shows "r = Inl AssertFail \<or> (\<exists>s'. r = Inr s' \<and> thread_inv s')"
proof (cases e)
  case (StartThread i ok)
  then show ?thesis using assms start_keeps [OF assms(1), of i _ ok] by (fastforce simp: on_object_def split: if_splits)
next
  case (JoinThread i)
  then show ?thesis using assms join_keeps [OF assms(1), of i] by (fastforce simp: on_object_def split: if_splits)
next
  case (DestroyThread i)
  then show ?thesis using assms destroy_keeps [OF assms(1), of i] by (fastforce simp: on_object_def split: if_splits)
qed (use assms in \<open>auto intro: new_keeps run_begin_keeps run_end_keeps split: if_splits\<close>)

lemma run_keeps:
  "thread_run es s r \<Longrightarrow> thread_inv s \<Longrightarrow> r = Inl AssertFail \<or> (\<exists>s'. r = Inr s' \<and> thread_inv s')"
proof (induction rule: thread_run.induct)
  case (run_fault e s f es)
  then show ?case using next_keeps [OF run_fault.prems run_fault.hyps] by simp
next
  case (run_step e s s' es r)
  then show ?case using next_keeps [OF run_step.prems run_step.hyps(1)] by simp
qed simp

text \<open>
  C25. Whatever the program does with Thread objects, in any order with the steps of the threads:
  the only fault is a failed assertion of start or join; every pthread is joined or detached at
  most once and never both, and exactly once when its object has been destroyed; and an object
  that exists shows the id of its own thread, 0 until the thread runs.
\<close>

theorem thread_lifecycle:
  assumes "thread_run es thread_sys_init r"
  shows "case r of
      Inl f \<Rightarrow> f = AssertFail
    | Inr s \<Rightarrow> \<forall>j < length (ts_pthreads s). let p = ts_pthreads s ! j; i = td_wktid (pt_data p) in
        pt_joins p + pt_detaches p \<le> 1
        \<and> (ts_objects s ! i = None \<longrightarrow> pt_joins p + pt_detaches p = 1)
        \<and> (\<forall>t. ts_objects s ! i = Some t \<longrightarrow> m_threadId t = j \<and> Thread_started t
            \<and> Thread_tid t = t_cachedtid (pt_locals p) \<and> (pt_stage p = Fresh \<longrightarrow> Thread_tid t = 0)
            \<and> pt_joins p = (if m_joined t then 1 else 0))"
proof -
  have "thread_inv thread_sys_init" by (simp add: thread_inv_def thread_sys_init_def)
  from run_keeps [OF assms this] show ?thesis
  proof (elim disjE exE conjE)
    fix s assume s: "r = Inr s" "thread_inv s"
    show ?thesis unfolding s(1) sum.case Let_def
    proof (intro allI impI)
      fix j assume "j < length (ts_pthreads s)"
      then have "pthread_ok (ts_objects s) j (ts_pthreads s ! j)" using s(2) by (simp add: thread_inv_def)
      then show "pt_joins (ts_pthreads s ! j) + pt_detaches (ts_pthreads s ! j) \<le> 1
        \<and> (ts_objects s ! owner (ts_pthreads s ! j) = None \<longrightarrow>
            pt_joins (ts_pthreads s ! j) + pt_detaches (ts_pthreads s ! j) = 1)
        \<and> (\<forall>t. ts_objects s ! owner (ts_pthreads s ! j) = Some t \<longrightarrow> m_threadId t = j \<and> Thread_started t
            \<and> Thread_tid t = t_cachedtid (pt_locals (ts_pthreads s ! j))
            \<and> (pt_stage (ts_pthreads s ! j) = Fresh \<longrightarrow> Thread_tid t = 0)
            \<and> pt_joins (ts_pthreads s ! j) = (if m_joined t then 1 else 0))"
        by (cases "ts_objects s ! owner (ts_pthreads s ! j)")
          (auto simp: pthread_ok_def Thread_tid_def Thread_started_def)
    qed
  qed simp
qed

lemma thread_run_Cons:
  "thread_next e s = Some (Inr s') \<Longrightarrow> \<exists>r. thread_run es s' (Inr r) \<and> P r \<Longrightarrow> \<exists>r. thread_run (e # es) s (Inr r) \<and> P r"
  using run_step by blast

lemmas thread_eval_defs = thread_sys_init_def Thread_new_def Thread_setDefaultName_def Let_def atomic_defs on_object_def
  Thread_start_def Thread_join_def Thread_destroy_def pthread_join_def pthread_detach_def runInThread_begin_def
  ThreadOp_tid_def ThreadOp_cacheTid_def thread_locals_new_def runInThread_end_def

theorem thread_lifecycle_witness:
  "\<exists>s :: unit thread_sys. thread_run [NewThread () [] 0, NewThread () ''io'' 0, StartThread 0 True, StartThread 1 True,
      RunBegin 0 71, DestroyThread 0, RunEnd 0, JoinThread 1] thread_sys_init (Inr s)
    \<and> pt_detaches (ts_pthreads s ! 0) = 1 \<and> pt_joins (ts_pthreads s ! 1) = 1
    \<and> pt_joins (ts_pthreads s ! 1) + pt_detaches (ts_pthreads s ! 1) \<le> 1"
proof -
  let ?es = "[NewThread () [] 0, NewThread () ''io'' 0, StartThread 0 True, StartThread 1 True,
      RunBegin 0 71, DestroyThread 0, RunEnd 0, JoinThread 1]"
  have "\<exists>s :: unit thread_sys. thread_run ?es thread_sys_init (Inr s) \<and> pt_detaches (ts_pthreads s ! 0) = 1
      \<and> pt_joins (ts_pthreads s ! 1) = 1 \<and> length (ts_pthreads s) = 2"
    by ((rule thread_run_Cons, simp add: thread_eval_defs)+, rule exI, rule conjI, rule run_nil, simp)
  then obtain s :: "unit thread_sys" where s: "thread_run ?es thread_sys_init (Inr s)"
      "pt_detaches (ts_pthreads s ! 0) = 1" "pt_joins (ts_pthreads s ! 1) = 1" "length (ts_pthreads s) = 2" by blast
  have "1 < length (ts_pthreads s)" using s(4) by simp
  then have "pt_joins (ts_pthreads s ! 1) + pt_detaches (ts_pthreads s ! 1) \<le> 1"
    using thread_lifecycle [OF s(1)] unfolding sum.case Let_def by blast
  then show ?thesis using s by blast
qed

end
