(* ===== verification/Logging.thy ===== *)
theory Logging
  imports LogStream TimeZone Timestamp Thread
begin

text \<open>
  base/Logging.h and base/Logging.cc: the logger behind the LOG macros. A Logger writes the time, the
  thread id, the level and the error into its stream when it is constructed, the caller appends
  the message, and the destructor adds the place in the source, hands the text to the output
  function and aborts the process after a fatal message. The formatted time is cached in each
  thread for the current second. The functions that print and flush are names here; what the
  destructor does is the list of the calls it makes.
\<close>

section \<open>Levels, source files, global state\<close>

datatype log_level = TRACE | DEBUG | INFO | WARN | ERROR | FATAL | NUM_LOG_LEVELS

text \<open>The enumerators are compared as the numbers they stand for.\<close>

primrec level_number :: "log_level \<Rightarrow> nat" where
  "level_number TRACE = 0"
| "level_number DEBUG = 1"
| "level_number INFO = 2"
| "level_number WARN = 3"
| "level_number ERROR = 4"
| "level_number FATAL = 5"
| "level_number NUM_LOG_LEVELS = 6"

lemma level_number_inject: "level_number a = level_number b \<Longrightarrow> a = b"
  by (cases a; cases b) simp_all

instantiation log_level :: linorder
begin

definition less_eq_log_level :: "log_level \<Rightarrow> log_level \<Rightarrow> bool" where
  "less_eq_log_level a b \<longleftrightarrow> level_number a \<le> level_number b"

definition less_log_level :: "log_level \<Rightarrow> log_level \<Rightarrow> bool" where
  "less_log_level a b \<longleftrightarrow> level_number a < level_number b"

instance
  by standard (auto simp: less_eq_log_level_def less_log_level_def intro: level_number_inject)

end

definition LogLevelName :: "log_level \<Rightarrow> string result" where
  "LogLevelName level =
     (case level of
        TRACE \<Rightarrow> Inr ''TRACE '' | DEBUG \<Rightarrow> Inr ''DEBUG '' | INFO \<Rightarrow> Inr ''INFO  ''
      | WARN \<Rightarrow> Inr ''WARN  '' | ERROR \<Rightarrow> Inr ''ERROR '' | FATAL \<Rightarrow> Inr ''FATAL ''
      | NUM_LOG_LEVELS \<Rightarrow> Inl OutOfRange)"

text \<open>The arguments say whether the two environment variables are set.\<close>

definition initLogLevel :: "bool \<Rightarrow> bool \<Rightarrow> log_level" where
  "initLogLevel trace_set debug_set = (if trace_set then TRACE else if debug_set then DEBUG else INFO)"

definition strchr :: "string \<Rightarrow> char \<Rightarrow> nat option" where
  "strchr str c =
     (let cs = c_string str in if c \<in> set cs then Some (length (takeWhile (\<lambda>x. x \<noteq> c) cs)) else None)"

definition strrchr :: "string \<Rightarrow> char \<Rightarrow> nat option" where
  "strrchr str c =
     (let cs = c_string str in
      if c \<in> set cs then Some (length cs - 1 - length (takeWhile (\<lambda>x. x \<noteq> c) (rev cs))) else None)"

record source_file =
  m_data :: string
  m_size :: int

text \<open>The constructor for a literal, whose characters but the terminator are the argument.\<close>

definition SourceFile_literal :: "string \<Rightarrow> source_file" where
  "SourceFile_literal arr =
     (case strrchr arr (CHR ''/'') of
        Some slash \<Rightarrow> \<lparr>m_data = drop (slash + 1) arr, m_size = int (length arr) - int (slash + 1)\<rparr>
      | None \<Rightarrow> \<lparr>m_data = arr, m_size = int (length arr)\<rparr>)"

definition SourceFile_filename :: "string \<Rightarrow> source_file" where
  "SourceFile_filename filename =
     (let data = (case strchr filename (CHR ''/'') of
                    Some slash \<Rightarrow> drop (slash + 1) filename | None \<Rightarrow> filename) in
      \<lparr>m_data = data, m_size = int (length (c_string data))\<rparr>)"

datatype output_func = defaultOutput | UserOutput nat

datatype flush_func = defaultFlush | UserFlush nat

datatype log_call = Output output_func string | Flush flush_func

record log_globals =
  g_logLevel :: log_level
  g_output :: output_func
  g_flush :: flush_func
  g_logTimeZone :: time_zone

definition log_globals_init :: "bool \<Rightarrow> bool \<Rightarrow> log_globals" where
  "log_globals_init trace_set debug_set =
     \<lparr>g_logLevel = initLogLevel trace_set debug_set, g_output = defaultOutput, g_flush = defaultFlush,
      g_logTimeZone = TimeZone_default\<rparr>"

definition Logger_logLevel :: "log_globals \<Rightarrow> log_level" where
  "Logger_logLevel g = g_logLevel g"

definition Logger_setLogLevel :: "log_level \<Rightarrow> log_globals \<Rightarrow> log_globals" where
  "Logger_setLogLevel level g = g\<lparr>g_logLevel := level\<rparr>"

definition Logger_setOutput :: "output_func \<Rightarrow> log_globals \<Rightarrow> log_globals" where
  "Logger_setOutput out g = g\<lparr>g_output := out\<rparr>"

definition Logger_setFlush :: "flush_func \<Rightarrow> log_globals \<Rightarrow> log_globals" where
  "Logger_setFlush flush g = g\<lparr>g_flush := flush\<rparr>"

definition Logger_setTimeZone :: "time_zone \<Rightarrow> log_globals \<Rightarrow> log_globals" where
  "Logger_setTimeZone tz g = g\<lparr>g_logTimeZone := tz\<rparr>"

section \<open>The logger\<close>

text \<open>The variables of a thread: those of ThreadOp, and the cached time as a C string.\<close>

record log_locals = thread_locals +
  t_time :: string
  t_lastSecond :: int

text \<open>
  The system: the clock is an argument of the constructor. \<open>sy_stack\<close> is what the memory holds that
  toLocalTime returns without assigning it.
\<close>

record log_system =
  sy_gettid :: int
  sy_gmtime :: "int \<Rightarrow> tm"
  sy_stack :: tm
  sy_strerror :: "int \<Rightarrow> string"

record log_impl =
  i_time :: timestamp
  i_stream :: log_stream
  i_level :: log_level
  i_line :: "32 word"
  i_basename :: source_file

text \<open>The operators for T and for SourceFile; constructing a T asserts its length.\<close>

definition T_put :: "string \<Rightarrow> nat \<Rightarrow> log_stream \<Rightarrow> log_stream result" where
  "T_put str len s =
     assert_then (length (c_string str) = len) (Inr (snd (LogStream_append (take len str) s)))"

definition SourceFile_put :: "source_file \<Rightarrow> log_stream \<Rightarrow> log_stream" where
  "SourceFile_put v s = snd (LogStream_append (take (nat (m_size v)) (m_data v)) s)"

text \<open>formatTime: first the cached text of the second, then the output.\<close>

definition time_string :: "tm \<Rightarrow> string" where
  "time_string tm = fmt_d False 4 (tm_year tm + 1900) @ fmt_d True 2 (tm_mon tm + 1) @ fmt_d True 2 (tm_mday tm)
     @ '' '' @ fmt_d True 2 (tm_hour tm) @ '':'' @ fmt_d True 2 (tm_min tm) @ '':'' @ fmt_d True 2 (tm_sec tm)"

definition broken_down :: "log_system \<Rightarrow> log_globals \<Rightarrow> int \<Rightarrow> tm" where
  "broken_down sy g seconds =
     (if TimeZone_valid (g_logTimeZone g) then TimeZone_toLocalTime (sy_stack sy) (g_logTimeZone g) seconds
      else sy_gmtime sy seconds)"

definition cacheTime :: "log_system \<Rightarrow> log_globals \<Rightarrow> int \<Rightarrow> log_locals \<Rightarrow> log_locals result" where
  "cacheTime sy g seconds lo =
     (if seconds \<noteq> t_lastSecond lo
      then
        let str = time_string (broken_down sy g seconds) in
        assert_then (length str = 17) (Inr (lo\<lparr>t_lastSecond := seconds, t_time := snprintf_string 32 str\<rparr>))
      else Inr lo)"

definition formatTime ::
  "log_system \<Rightarrow> log_globals \<Rightarrow> log_impl \<Rightarrow> log_locals \<Rightarrow> (log_impl \<times> log_locals) result" where
  "formatTime sy g impl lo =
     (let us = Timestamp_microSecsSinceEpoch (i_time impl);
          seconds = us sdiv kMicroSecsPerSecond;
          microseconds = us smod kMicroSecsPerSecond;
          valid = TimeZone_valid (g_logTimeZone g);
          format = (\<lambda>v. ''.'' @ fmt_d True 6 v @ (if valid then '' '' else ''Z ''));
          len = (if valid then 8 else 9) in
      bindE (cacheTime sy g seconds lo) (\<lambda>lo.
      bindE (Fmt_new format microseconds) (\<lambda>us.
      assert_then (fmt_len us = len)
        (bindE (T_put (t_time lo) 17 (i_stream impl)) (\<lambda>s.
         bindE (T_put (fmt_buf us) len s) (\<lambda>s. Inr (impl\<lparr>i_stream := s\<rparr>, lo)))))))"

definition put_error :: "log_system \<Rightarrow> 32 word \<Rightarrow> log_stream \<Rightarrow> log_stream result" where
  "put_error sy savedErrno s =
     (if savedErrno \<noteq> 0
      then bindE (LogStream_int savedErrno
             (LogStream_cstring ''(errno='' (LogStream_cstring (sy_strerror sy (sint savedErrno)) s)))
             (\<lambda>s. Inr (LogStream_cstring '')'' s))
      else Inr s)"

definition Impl_new ::
  "log_system \<Rightarrow> log_globals \<Rightarrow> int \<times> int \<Rightarrow> string \<Rightarrow> log_level \<Rightarrow> 32 word \<Rightarrow> source_file \<Rightarrow> 32 word
     \<Rightarrow> log_locals \<Rightarrow> (log_impl \<times> log_locals) result" where
  "Impl_new sy g tv mem level savedErrno file line lo =
     bindE (Timestamp_now tv) (\<lambda>time.
     bindE (formatTime sy g
              \<lparr>i_time = time, i_stream = FixedBuffer_new mem, i_level = level, i_line = line, i_basename = file\<rparr> lo)
       (\<lambda>(impl, lo).
     let lo = snd (ThreadOp_tid (sy_gettid sy) lo) in
     bindE (T_put (ThreadOp_tidString lo) (nat (ThreadOp_tidStringLength lo)) (i_stream impl)) (\<lambda>s.
     bindE (LogLevelName level) (\<lambda>name.
     bindE (T_put name 6 s) (\<lambda>s.
     bindE (put_error sy savedErrno s) (\<lambda>s. Inr (impl\<lparr>i_stream := s\<rparr>, lo)))))))"

definition Impl_finish :: "log_impl \<Rightarrow> log_impl result" where
  "Impl_finish impl =
     bindE (LogStream_int (i_line impl)
        (LogStream_cstring '':'' (SourceFile_put (i_basename impl) (LogStream_cstring ''-'' (i_stream impl)))))
       (\<lambda>s. Inr (impl\<lparr>i_stream := LogStream_cstring [CHR 0x0A] s\<rparr>))"

definition Logger_new where
  "Logger_new sy g tv mem file line lo = Impl_new sy g tv mem INFO 0 file line lo"

definition Logger_new_level where
  "Logger_new_level sy g tv mem file line level lo = Impl_new sy g tv mem level 0 file line lo"

definition Logger_new_abort where
  "Logger_new_abort sy g tv mem file line toAbort errno lo =
     Impl_new sy g tv mem (if toAbort then FATAL else ERROR) errno file line lo"

text \<open>The calls the destructor makes, and how it ends.\<close>

definition Logger_destroy :: "log_globals \<Rightarrow> log_impl \<Rightarrow> log_call list \<times> unit result" where
  "Logger_destroy g impl =
     (case Impl_finish impl of
        Inl f \<Rightarrow> ([], Inl f)
      | Inr impl' \<Rightarrow>
          let out = Output (g_output g) (FixedBuffer_asString (i_stream impl')) in
          if i_level impl' = FATAL then ([out, Flush (g_flush g)], Inl Aborted) else ([out], Inr ()))"

text \<open>
  The macros, with the chain of operators behind them. LOG\_INFO compares the level first, LOG\_WARN does not.
  LOG\_TRACE and LOG\_DEBUG need the constructor that has no definition.
\<close>

definition log_chain ::
  "log_globals \<Rightarrow> log_item list \<Rightarrow> (log_impl \<times> log_locals) result \<Rightarrow> (log_call list \<times> log_locals) result" where
  "log_chain g its logger =
     bindE logger (\<lambda>(impl, lo).
     bindE (stream_puts its (i_stream impl)) (\<lambda>s.
     case Logger_destroy g (impl\<lparr>i_stream := s\<rparr>) of (calls, Inl f) \<Rightarrow> Inl f | (calls, Inr _) \<Rightarrow> Inr (calls, lo)))"

definition LOG_INFO ::
  "log_system \<Rightarrow> log_globals \<Rightarrow> int \<times> int \<Rightarrow> string \<Rightarrow> string \<Rightarrow> 32 word \<Rightarrow> log_item list \<Rightarrow> log_locals
     \<Rightarrow> (log_call list \<times> log_locals) result" where
  "LOG_INFO sy g tv mem path line its lo =
     (if Logger_logLevel g \<le> INFO
      then log_chain g its (Logger_new sy g tv mem (SourceFile_literal path) line lo)
      else Inr ([], lo))"

definition LOG_WARN ::
  "log_system \<Rightarrow> log_globals \<Rightarrow> int \<times> int \<Rightarrow> string \<Rightarrow> string \<Rightarrow> 32 word \<Rightarrow> log_item list \<Rightarrow> log_locals
     \<Rightarrow> (log_call list \<times> log_locals) result" where
  "LOG_WARN sy g tv mem path line its lo =
     log_chain g its (Logger_new_level sy g tv mem (SourceFile_literal path) line WARN lo)"

section \<open>Writing with enough room\<close>

definition wrote :: "string \<Rightarrow> log_stream \<Rightarrow> log_stream \<Rightarrow> bool" where
  "wrote str s s' \<longleftrightarrow> fb_inv s \<and> fb_inv s' \<and> length (m_buff s') = length (m_buff s)
     \<and> m_cur s' = m_cur s + length str \<and> FixedBuffer_asString s' = FixedBuffer_asString s @ str"

lemma wrote_trans: "wrote a s t \<Longrightarrow> wrote b t u \<Longrightarrow> wrote (a @ b) s u"
  by (simp add: wrote_def)

lemma c_string_id: "CHR 0x00 \<notin> set str \<Longrightarrow> c_string str = str"
  unfolding c_string_def by (subst takeWhile_eq_all_conv) auto

lemma c_string_nul: "CHR 0x00 \<notin> set str \<Longrightarrow> c_string (str @ [CHR 0x00]) = str"
  unfolding c_string_def by (subst takeWhile_append2) auto

lemma put_spec_wrote:
  assumes "fb_inv s" and "put_spec str need s r" and "need \<le> length (m_buff s) - m_cur s"
  shows "\<exists>s'. r = Inr s' \<and> wrote str s s'"
proof -
  obtain s' where s': "r = Inr s'" "fb_inv s'" "length (m_buff s') = length (m_buff s)"
      "FixedBuffer_asString s' = FixedBuffer_asString s @ str"
    using assms by (auto simp: put_spec_def)
  then have "m_cur s' = m_cur s + length str"
    using asString_length [OF s'(2)] asString_length [OF assms(1)] by simp
  then show ?thesis using s' assms(1) by (simp add: wrote_def)
qed

lemma append_wrote:
  "fb_inv s \<Longrightarrow> m_cur s + length str \<le> length (m_buff s) \<Longrightarrow> wrote str s (snd (FixedBuffer_append str s))"
  using put_spec_wrote [OF _ put_append] by fastforce

lemma cstring_wrote:
  "fb_inv s \<Longrightarrow> CHR 0x00 \<notin> set str \<Longrightarrow> m_cur s + length str \<le> length (m_buff s)
    \<Longrightarrow> wrote str s (LogStream_cstring str s)"
  using append_wrote [of s str] c_string_id [of str] by (simp add: LogStream_cstring_def)

lemma int_wrote:
  "fb_inv s \<Longrightarrow> m_cur s + kMaxNumericSize \<le> length (m_buff s)
    \<Longrightarrow> \<exists>s'. LogStream_int (i :: 32 word) s = Inr s' \<and> wrote (convert_chars (sint i)) s s'"
  using put_spec_wrote [OF _ put_words(3), of s i] by (simp add: LogStream_int_def)

lemma take_wrote:
  assumes "wrote str s s'"
  shows "fb_inv s'" "length (m_buff s') = length (m_buff s)" "m_cur s' = m_cur s + length str"
  using assms by (simp_all add: wrote_def)

section \<open>The text of a message\<close>

definition tid_text :: "log_system \<Rightarrow> string" where
  "tid_text sy = fmt_d False 5 (sy_gettid sy) @ '' ''"

definition level_text :: "log_level \<Rightarrow> string" where
  "level_text level = (case LogLevelName level of Inr name \<Rightarrow> name | Inl _ \<Rightarrow> [])"

definition error_text :: "log_system \<Rightarrow> 32 word \<Rightarrow> string" where
  "error_text sy e =
     (if e \<noteq> 0 then c_string (sy_strerror sy (sint e)) @ ''(errno='' @ convert_chars (sint e) @ '')'' else [])"

definition zone_text :: "log_globals \<Rightarrow> string" where
  "zone_text g = (if TimeZone_valid (g_logTimeZone g) then '' '' else ''Z '')"

definition log_prefix :: "log_system \<Rightarrow> log_globals \<Rightarrow> int \<times> int \<Rightarrow> log_level \<Rightarrow> 32 word \<Rightarrow> string" where
  "log_prefix sy g tv level e =
     time_string (broken_down sy g (fst tv)) @ (''.'' @ fmt_d True 6 (snd tv) @ zone_text g) @ tid_text sy
       @ level_text level @ error_text sy e"

definition basename_of :: "string \<Rightarrow> string" where
  "basename_of path = rev (takeWhile (\<lambda>c. c \<noteq> CHR ''/'') (rev path))"

definition log_suffix :: "string \<Rightarrow> 32 word \<Rightarrow> string" where
  "log_suffix path line = ''-'' @ basename_of path @ '':'' @ convert_chars (sint line) @ [CHR 0x0A]"

definition tm_printable :: "tm \<Rightarrow> bool" where
  "tm_printable tm \<longleftrightarrow> 0 \<le> tm_year tm + 1900 \<and> tm_year tm + 1900 < 10000 \<and> 0 \<le> tm_mon tm + 1 \<and> tm_mon tm + 1 < 100
     \<and> 0 \<le> tm_mday tm \<and> tm_mday tm < 100 \<and> 0 \<le> tm_hour tm \<and> tm_hour tm < 100
     \<and> 0 \<le> tm_min tm \<and> tm_min tm < 100 \<and> 0 \<le> tm_sec tm \<and> tm_sec tm < 100"

text \<open>The cached time is the one of the cached second, and the cached thread id is the thread's.\<close>

definition log_locals_ok :: "log_system \<Rightarrow> log_globals \<Rightarrow> log_locals \<Rightarrow> bool" where
  "log_locals_ok sy g lo \<longleftrightarrow>
     (t_lastSecond lo \<noteq> 0 \<longrightarrow> t_time lo = time_string (broken_down sy g (t_lastSecond lo)) \<and> length (t_time lo) = 17)
     \<and> (t_cachedtid lo \<noteq> 0 \<longrightarrow> t_tidString lo = tid_text sy \<and> t_tidStringLength lo = int (length (tid_text sy)))"

lemma fmt_length: "0 \<le> v \<Longrightarrow> v < 10 ^ k \<Longrightarrow> 0 < k \<Longrightarrow> length (fmt_d z k v) = k"
  using nat_chars_length [of k "nat v"] by (auto simp: fmt_d_def Let_def nat_less_iff)

lemma time_string_length: "tm_printable tm \<Longrightarrow> length (time_string tm) = 17"
  by (simp add: tm_printable_def time_string_def fmt_length)

lemma time_string_no_nul: "CHR 0x00 \<notin> set (time_string tm)"
  by (simp add: time_string_def fmt_d_no_nul)

lemma literal_name:
  assumes "CHR 0x00 \<notin> set path"
  shows "take (nat (m_size (SourceFile_literal path))) (m_data (SourceFile_literal path)) = basename_of path"
proof (cases "CHR ''/'' \<in> set path")
  case True
  then obtain d b where path: "path = d @ CHR ''/'' # b" "CHR ''/'' \<notin> set b" by (meson split_list_last)
  then have "takeWhile (\<lambda>c. c \<noteq> CHR ''/'') (rev b @ CHR ''/'' # rev d) = rev b"
    by (subst takeWhile_append2) auto
  then have rb: "takeWhile (\<lambda>c. c \<noteq> CHR ''/'') (rev path) = rev b" by (simp add: path)
  then have "strrchr path (CHR ''/'') = Some (length d)"
    using assms True by (simp add: strrchr_def c_string_id path(1))
  then show ?thesis by (simp add: SourceFile_literal_def basename_of_def rb) (simp add: path)
next
  case False
  then have tw: "takeWhile (\<lambda>c. c \<noteq> CHR ''/'') (rev path) = rev path" by (auto simp: takeWhile_eq_all_conv)
  show ?thesis using False assms
    by (simp add: tw SourceFile_literal_def strrchr_def c_string_id basename_of_def)
qed

section \<open>The constructor\<close>

lemma cacheTime_spec:
  assumes "log_locals_ok sy g lo" and "seconds \<noteq> 0" and "tm_printable (broken_down sy g seconds)"
  shows "\<exists>lo'. cacheTime sy g seconds lo = Inr lo' \<and> log_locals_ok sy g lo' \<and> t_lastSecond lo' = seconds
    \<and> t_time lo' = time_string (broken_down sy g seconds) \<and> length (t_time lo') = 17"
  using assms time_string_length [OF assms(3)] time_string_no_nul snprintf_string_fits
  by (auto simp: cacheTime_def Let_def log_locals_ok_def)

lemma T_put_wrote:
  "fb_inv s \<Longrightarrow> m_cur s + length str \<le> length (m_buff s) \<Longrightarrow> CHR 0x00 \<notin> set str \<Longrightarrow> mem = str \<or> mem = str @ [CHR 0x00]
    \<Longrightarrow> \<exists>s'. T_put mem (length str) s = Inr s' \<and> wrote str s s'"
  using append_wrote [of s str] c_string_id [of str] c_string_nul [of str]
  by (auto simp: T_put_def LogStream_append_def)

lemma now_parts:
  assumes "0 \<le> a" and "a < 2 ^ 40" and "0 \<le> b" and "b < 1000000"
  shows "Timestamp_now (a, b) = Inr (Timestamp (a * 1000000 + b))"
    and "(a * 1000000 + b) sdiv 1000000 = a" and "(a * 1000000 + b) smod 1000000 = b"
  using assms by (simp_all add: Timestamp_now_def kMicroSecsPerSecond_def checked64_def in_int64_def sdiv_nonneg
      smod_nonneg)

lemma formatTime_spec:
  assumes lo: "log_locals_ok sy g lo" and tv: "0 < a" "0 \<le> b" "b < 1000000"
    and tm: "tm_printable (broken_down sy g a)" and time: "i_time impl = Timestamp (a * 1000000 + b)"
    and s: "fb_inv (i_stream impl)" "m_cur (i_stream impl) + 26 \<le> length (m_buff (i_stream impl))"
  shows "\<exists>s' lo'. formatTime sy g impl lo = Inr (impl\<lparr>i_stream := s'\<rparr>, lo') \<and> log_locals_ok sy g lo'
    \<and> t_lastSecond lo' = a \<and> t_cachedtid lo' = t_cachedtid lo
    \<and> wrote (time_string (broken_down sy g a) @ ''.'' @ fmt_d True 6 b @ zone_text g) (i_stream impl) s'"
proof -
  let ?time = "time_string (broken_down sy g a)" and ?us = "''.'' @ fmt_d True 6 b @ zone_text g"
  have parts: "(a * 1000000 + b) sdiv 1000000 = a" "(a * 1000000 + b) smod 1000000 = b"
    using tv by (simp_all add: sdiv_nonneg smod_nonneg)
  have "a \<noteq> 0" using tv(1) by simp
  from cacheTime_spec [OF lo this tm] obtain lo' where lo': "cacheTime sy g a lo = Inr lo'" "log_locals_ok sy g lo'"
      "t_lastSecond lo' = a" "t_time lo' = ?time" "length ?time = 17" by auto
  have cached: "t_cachedtid lo' = t_cachedtid lo"
    using lo'(1) by (auto simp: cacheTime_def assert_then_eq_Inr Let_def split: if_splits)
  have us: "length (fmt_d True 6 b) = 6" using tv by (simp add: fmt_length)
  have us_len: "length ?us = (if TimeZone_valid (g_logTimeZone g) then 8 else 9)"
    by (simp add: us zone_text_def)
  have fmt: "Fmt_new (\<lambda>v. ''.'' @ fmt_d True 6 v @ zone_text g) b = Inr \<lparr>fmt_buf = ?us @ [CHR 0x00], fmt_len = length ?us\<rparr>"
    by (simp add: Fmt_new_def snprintf_chars_def us zone_text_def)
  obtain s1 where s1: "T_put ?time 17 (i_stream impl) = Inr s1" "wrote ?time (i_stream impl) s1"
    using T_put_wrote [OF s(1), of ?time ?time] s(2) lo'(5) time_string_no_nul by auto
  have nul: "CHR 0x00 \<notin> set ?us" by (simp add: fmt_d_no_nul zone_text_def)
  have "m_cur s1 + length ?us \<le> length (m_buff s1)"
    using take_wrote [OF s1(2)] s(2) lo'(5) us_len by (simp split: if_splits)
  then obtain s2 where s2: "T_put (?us @ [CHR 0x00]) (length ?us) s1 = Inr s2" "wrote ?us s1 s2"
    using T_put_wrote [OF take_wrote(1) [OF s1(2)] _ nul, of "?us @ [CHR 0x00]"] by auto
  have "formatTime sy g impl lo = Inr (impl\<lparr>i_stream := s2\<rparr>, lo')"
    using lo'(1,4) s1(1) s2(1) us_len fmt
    by (simp add: formatTime_def Let_def time Timestamp_microSecsSinceEpoch_def kMicroSecsPerSecond_def parts
        zone_text_def del: append.simps)
  moreover have "wrote (?time @ ?us) (i_stream impl) s2" using wrote_trans [OF s1(2) s2(2)] .
  ultimately show ?thesis using lo'(2,3) cached by auto
qed

lemma tid_spec:
  assumes lo: "log_locals_ok sy g lo" and tid: "0 < sy_gettid sy" "sy_gettid sy < 2 ^ 31"
  shows "\<exists>lo'. snd (ThreadOp_tid (sy_gettid sy) lo) = lo' \<and> log_locals_ok sy g lo' \<and> t_lastSecond lo' = t_lastSecond lo
    \<and> t_tidString lo' = tid_text sy \<and> nat (t_tidStringLength lo') = length (tid_text sy)
    \<and> length (tid_text sy) \<le> 11 \<and> CHR 0x00 \<notin> set (tid_text sy)"
proof -
  have "length (nat_chars (nat (sy_gettid sy))) \<le> 10" using tid by (intro nat_chars_length) auto
  then have "length (tid_text sy) \<le> 11" using tid by (simp add: tid_text_def fmt_d_def Let_def)
  moreover have "CHR 0x00 \<notin> set (tid_text sy)" by (simp add: tid_text_def fmt_d_no_nul)
  ultimately show ?thesis
    using lo tid snprintf_string_fits [of "tid_text sy" 32]
    by (auto simp: ThreadOp_tid_def ThreadOp_cacheTid_def Let_def log_locals_ok_def tid_text_def)
qed

lemma level_name: "level \<noteq> NUM_LOG_LEVELS \<Longrightarrow> LogLevelName level = Inr (level_text level)
    \<and> length (level_text level) = 6 \<and> CHR 0x00 \<notin> set (level_text level)"
  by (cases level) (simp_all add: level_text_def LogLevelName_def)

lemma error_spec:
  assumes s: "fb_inv s" "m_cur s + length (error_text sy e) + 32 \<le> length (m_buff s)"
  shows "\<exists>s'. put_error sy e s = Inr s' \<and> wrote (error_text sy e) s s'"
proof (cases "e = 0")
  case True
  then show ?thesis using s by (simp add: put_error_def error_text_def wrote_def)
next
  case False
  let ?err = "c_string (sy_strerror sy (sint e))" and ?open = "''(errno=''" and ?num = "convert_chars (sint e)"
  have split_text: "error_text sy e = ?err @ ?open @ ?num @ '')''" using False by (simp add: error_text_def)
  define s1 where "s1 = LogStream_cstring (sy_strerror sy (sint e)) s"
  define s2 where "s2 = LogStream_cstring ?open s1"
  have w1: "wrote ?err s s1"
    using append_wrote [OF s(1), of ?err] s(2) split_text by (simp add: s1_def LogStream_cstring_def)
  have w2: "wrote ?open s1 s2" unfolding s2_def
    using take_wrote [OF w1] s(2) split_text by (intro cstring_wrote) auto
  have "m_cur s2 + kMaxNumericSize \<le> length (m_buff s2)"
    using take_wrote [OF w2] take_wrote [OF w1] s(2) split_text by (simp add: kMaxNumericSize_def)
  then obtain s3 where s3: "LogStream_int e s2 = Inr s3" "wrote ?num s2 s3"
    using int_wrote [OF take_wrote(1) [OF w2]] by blast
  have w4: "wrote '')'' s3 (LogStream_cstring '')'' s3)"
    using take_wrote [OF s3(2)] take_wrote [OF w2] take_wrote [OF w1] s(2) split_text by (intro cstring_wrote) auto
  have "wrote (error_text sy e) s (LogStream_cstring '')'' s3)"
    unfolding split_text by (intro wrote_trans [OF w1] wrote_trans [OF w2] wrote_trans [OF s3(2)] w4)
  then show ?thesis using False s3(1) by (simp add: put_error_def s1_def s2_def)
qed

lemma Impl_new_spec:
  assumes lo: "log_locals_ok sy g lo" and tv: "0 < a" "a < 2 ^ 40" "0 \<le> b" "b < 1000000"
    and tm: "tm_printable (broken_down sy g a)" and tid: "0 < sy_gettid sy" "sy_gettid sy < 2 ^ 31"
    and mem: "length mem = kSmallBuffer" and level: "level \<noteq> NUM_LOG_LEVELS"
    and room: "length (log_prefix sy g (a, b) level e) + 32 \<le> kSmallBuffer"
  shows "\<exists>s lo'. Impl_new sy g (a, b) mem level e file line lo
      = Inr (\<lparr>i_time = Timestamp (a * 1000000 + b), i_stream = s, i_level = level, i_line = line, i_basename = file\<rparr>, lo')
    \<and> log_locals_ok sy g lo' \<and> t_lastSecond lo' = a
    \<and> wrote (log_prefix sy g (a, b) level e) (FixedBuffer_new mem) s"
proof -
  let ?impl = "\<lparr>i_time = Timestamp (a * 1000000 + b), i_stream = FixedBuffer_new mem, i_level = level, i_line = line,
    i_basename = file\<rparr>"
  let ?t = "time_string (broken_down sy g a) @ ''.'' @ fmt_d True 6 b @ zone_text g"
  have s0: "fb_inv (FixedBuffer_new mem)" "m_cur (FixedBuffer_new mem) = 0" "length (m_buff (FixedBuffer_new mem)) = 4000"
    using mem by (simp_all add: FixedBuffer_new_def FixedBuffer_setCookie_def fb_inv_def kSmallBuffer_def size_mod_def)
  have pre: "log_prefix sy g (a, b) level e = ?t @ tid_text sy @ level_text level @ error_text sy e"
    by (simp add: log_prefix_def)
  obtain s1 lo1 where 1: "formatTime sy g ?impl lo = Inr (?impl\<lparr>i_stream := s1\<rparr>, lo1)" "log_locals_ok sy g lo1"
      "t_lastSecond lo1 = a" "wrote ?t (FixedBuffer_new mem) s1"
    using formatTime_spec [OF lo tv(1,3,4) tm, of ?impl] s0 by auto
  obtain lo2 where 2: "snd (ThreadOp_tid (sy_gettid sy) lo1) = lo2" "log_locals_ok sy g lo2" "t_lastSecond lo2 = a"
      "t_tidString lo2 = tid_text sy" "nat (t_tidStringLength lo2) = length (tid_text sy)"
      "CHR 0x00 \<notin> set (tid_text sy)"
    using tid_spec [OF 1(2) tid] 1(3) by auto
  have len: "length ?t + length (tid_text sy) + length (level_text level) + length (error_text sy e) + 32 \<le> 4000"
    using room pre by (simp add: kSmallBuffer_def)
  have "m_cur s1 + length (tid_text sy) \<le> length (m_buff s1)" using take_wrote [OF 1(4)] s0 len by simp
  then obtain s2 where 3: "T_put (tid_text sy) (length (tid_text sy)) s1 = Inr s2" "wrote (tid_text sy) s1 s2"
    using T_put_wrote [OF take_wrote(1) [OF 1(4)] _ 2(6)] by blast
  note name = level_name [OF level]
  have "m_cur s2 + length (level_text level) \<le> length (m_buff s2)"
    using take_wrote [OF 3(2)] take_wrote [OF 1(4)] s0 len by simp
  then obtain s3 where 4: "T_put (level_text level) 6 s2 = Inr s3" "wrote (level_text level) s2 s3"
    using T_put_wrote [OF take_wrote(1) [OF 3(2)], of "level_text level" "level_text level"] name by auto
  have "m_cur s3 + length (error_text sy e) + 32 \<le> length (m_buff s3)"
    using take_wrote [OF 4(2)] take_wrote [OF 3(2)] take_wrote [OF 1(4)] s0 len by simp
  then obtain s4 where 5: "put_error sy e s3 = Inr s4" "wrote (error_text sy e) s3 s4"
    using error_spec [OF take_wrote(1) [OF 4(2)]] by blast
  have "wrote (log_prefix sy g (a, b) level e) (FixedBuffer_new mem) s4"
    unfolding pre by (intro wrote_trans [OF 1(4)] wrote_trans [OF 3(2)] wrote_trans [OF 4(2)] 5(2))
  moreover have "Impl_new sy g (a, b) mem level e file line lo = Inr (?impl\<lparr>i_stream := s4\<rparr>, lo2)"
    using now_parts(1) [of a b] tv 1(1) 2 3(1) 4(1) 5(1) name
    by (simp add: Impl_new_def ThreadOp_tidString_def ThreadOp_tidStringLength_def)
  ultimately show ?thesis using 2(2,3) by auto
qed

lemma finish_spec:
  assumes s: "fb_inv (i_stream impl)"
    and room: "m_cur (i_stream impl) + length (log_suffix path (i_line impl)) + 32 \<le> length (m_buff (i_stream impl))"
    and src: "i_basename impl = SourceFile_literal path" "CHR 0x00 \<notin> set path"
  shows "\<exists>s'. Impl_finish impl = Inr (impl\<lparr>i_stream := s'\<rparr>) \<and> wrote (log_suffix path (i_line impl)) (i_stream impl) s'"
proof -
  let ?name = "basename_of path" and ?num = "convert_chars (sint (i_line impl))"
  define s1 where "s1 = LogStream_cstring ''-'' (i_stream impl)"
  define s2 where "s2 = SourceFile_put (i_basename impl) s1"
  define s3 where "s3 = LogStream_cstring '':'' s2"
  have split_text: "log_suffix path (i_line impl) = ''-'' @ ?name @ '':'' @ ?num @ [CHR 0x0A]" by (simp add: log_suffix_def)
  have w1: "wrote ''-'' (i_stream impl) s1" unfolding s1_def using s room split_text by (intro cstring_wrote) auto
  have w2: "wrote ?name s1 s2"
    using append_wrote [of s1 ?name] take_wrote [OF w1] room split_text literal_name [OF src(2)]
    by (simp add: s2_def SourceFile_put_def LogStream_append_def src(1))
  have w3: "wrote '':'' s2 s3" unfolding s3_def
    using take_wrote [OF w2] take_wrote [OF w1] room split_text by (intro cstring_wrote) auto
  have "m_cur s3 + kMaxNumericSize \<le> length (m_buff s3)"
    using take_wrote [OF w3] take_wrote [OF w2] take_wrote [OF w1] room split_text by (simp add: kMaxNumericSize_def)
  then obtain s4 where s4: "LogStream_int (i_line impl) s3 = Inr s4" "wrote ?num s3 s4"
    using int_wrote [OF take_wrote(1) [OF w3]] by blast
  have w5: "wrote [CHR 0x0A] s4 (LogStream_cstring [CHR 0x0A] s4)"
    using take_wrote [OF s4(2)] take_wrote [OF w3] take_wrote [OF w2] take_wrote [OF w1] room split_text
    by (intro cstring_wrote) auto
  have "wrote (log_suffix path (i_line impl)) (i_stream impl) (LogStream_cstring [CHR 0x0A] s4)"
    unfolding split_text
    by (intro wrote_trans [OF w1] wrote_trans [OF w2] wrote_trans [OF w3] wrote_trans [OF s4(2)] w5)
  then show ?thesis using s4(1)
    by (intro exI [of _ "LogStream_cstring [CHR 0x0A] s4"]) (simp add: Impl_finish_def s1_def s2_def s3_def)
qed

lemma new_at_second_zero:
  "Impl_new sy g (0, 0) mem level e src line (\<lparr>t_cachedtid = c, t_threadname = n, t_tidString = ts, t_tidStringLength = l,
      t_time = [], t_lastSecond = 0\<rparr>) = Inl AssertFail"
proof -
  have "(0::int) sdiv kMicroSecsPerSecond = 0" "(0::int) smod kMicroSecsPerSecond = 0"
    by (simp_all add: kMicroSecsPerSecond_def)
  moreover have "length (fmt_d True 6 0) = 6" by (simp add: fmt_length)
  ultimately show ?thesis
    by (simp add: Impl_new_def Timestamp_now_def checked64_def in_int64_def formatTime_def Let_def cacheTime_def
        Timestamp_microSecsSinceEpoch_def Fmt_new_def T_put_def c_string_def assert_then_def)
qed

text \<open>The conditions under which a log statement is complete, and its text.\<close>

definition statement_ok ::
  "log_system \<Rightarrow> log_globals \<Rightarrow> int \<times> int \<Rightarrow> string \<Rightarrow> log_level \<Rightarrow> 32 word \<Rightarrow> string \<Rightarrow> 32 word \<Rightarrow> string
     \<Rightarrow> log_locals \<Rightarrow> bool" where
  "statement_ok sy g tv mem level e path line msg lo \<longleftrightarrow>
     log_locals_ok sy g lo \<and> 0 < fst tv \<and> fst tv < 2 ^ 40 \<and> 0 \<le> snd tv \<and> snd tv < 1000000
     \<and> tm_printable (broken_down sy g (fst tv)) \<and> 0 < sy_gettid sy \<and> sy_gettid sy < 2 ^ 31
     \<and> length mem = kSmallBuffer \<and> level \<noteq> NUM_LOG_LEVELS \<and> CHR 0x00 \<notin> set path
     \<and> length (log_prefix sy g tv level e) + length msg + length (log_suffix path line) + 32 \<le> kSmallBuffer"

lemma statement_wrote:
  assumes ok: "statement_ok sy g tv mem level e path line msg lo"
  shows "\<exists>impl lo'. Impl_new sy g tv mem level e (SourceFile_literal path) line lo = Inr (impl, lo')
    \<and> log_locals_ok sy g lo' \<and> t_lastSecond lo' = fst tv
    \<and> fb_inv (i_stream impl) \<and> m_cur (i_stream impl) + length msg + 32 \<le> length (m_buff (i_stream impl))
    \<and> (\<forall>s1. wrote msg (i_stream impl) s1 \<longrightarrow> Logger_destroy g (impl\<lparr>i_stream := s1\<rparr>)
      = (let out = Output (g_output g) (log_prefix sy g tv level e @ msg @ log_suffix path line) in
         if level = FATAL then ([out, Flush (g_flush g)], Inl Aborted) else ([out], Inr ())))"
proof -
  obtain a b where tv: "tv = (a, b)" by fastforce
  have room: "length (log_prefix sy g (a, b) level e) + length msg + length (log_suffix path line) + 32 \<le> kSmallBuffer"
    and mem: "length mem = kSmallBuffer" and path: "CHR 0x00 \<notin> set path"
    using ok tv by (simp_all add: statement_ok_def)
  then have "length (log_prefix sy g (a, b) level e) + 32 \<le> kSmallBuffer" by simp
  then obtain s lo' where new: "Impl_new sy g (a, b) mem level e (SourceFile_literal path) line lo
      = Inr (\<lparr>i_time = Timestamp (a * 1000000 + b), i_stream = s, i_level = level, i_line = line,
              i_basename = SourceFile_literal path\<rparr>, lo')"
      "log_locals_ok sy g lo'" "t_lastSecond lo' = a"
      "wrote (log_prefix sy g (a, b) level e) (FixedBuffer_new mem) s"
    using Impl_new_spec [of sy g lo a b mem level e "SourceFile_literal path" line] ok tv
    by (auto simp: statement_ok_def)
  have s0: "m_cur (FixedBuffer_new mem) = 0" "length (m_buff (FixedBuffer_new mem)) = kSmallBuffer"
    "FixedBuffer_asString (FixedBuffer_new mem) = []"
    using mem by (simp_all add: FixedBuffer_new_def FixedBuffer_setCookie_def FixedBuffer_asString_def)
  define impl where "impl = \<lparr>i_time = Timestamp (a * 1000000 + b), i_stream = s, i_level = level, i_line = line,
    i_basename = SourceFile_literal path\<rparr>"
  have "Logger_destroy g (impl\<lparr>i_stream := s1\<rparr>)
      = (let out = Output (g_output g) (log_prefix sy g tv level e @ msg @ log_suffix path line) in
         if level = FATAL then ([out, Flush (g_flush g)], Inl Aborted) else ([out], Inr ()))"
    if w1: "wrote msg s s1" for s1
  proof -
    have "m_cur s1 + length (log_suffix path line) + 32 \<le> length (m_buff s1)"
      using take_wrote [OF w1] take_wrote [OF new(4)] s0 room by simp
    then obtain s2 where s2: "Impl_finish (impl\<lparr>i_stream := s1\<rparr>) = Inr (impl\<lparr>i_stream := s2\<rparr>)"
        "wrote (log_suffix path line) s1 s2"
      using finish_spec [of "impl\<lparr>i_stream := s1\<rparr>" path] take_wrote [OF w1] path by (auto simp: impl_def)
    have "FixedBuffer_asString s2 = log_prefix sy g (a, b) level e @ msg @ log_suffix path line"
      using wrote_trans [OF wrote_trans [OF new(4) w1] s2(2)] s0 by (simp add: wrote_def)
    then show ?thesis using s2(1) tv by (simp add: Logger_destroy_def impl_def Let_def)
  qed
  moreover have "fb_inv s" "m_cur s + length msg + 32 \<le> length (m_buff s)"
    using take_wrote [OF new(4)] s0 room by simp_all
  ultimately show ?thesis using new(1-3) tv by (auto simp: impl_def)
qed

lemma statement_output:
  assumes ok: "statement_ok sy g tv mem level e path line msg lo"
  shows "\<exists>impl lo'. Impl_new sy g tv mem level e (SourceFile_literal path) line lo = Inr (impl, lo')
    \<and> log_locals_ok sy g lo' \<and> t_lastSecond lo' = fst tv
    \<and> Logger_destroy g (impl\<lparr>i_stream := LogStream_string msg (i_stream impl)\<rparr>)
      = (let out = Output (g_output g) (log_prefix sy g tv level e @ msg @ log_suffix path line) in
         if level = FATAL then ([out, Flush (g_flush g)], Inl Aborted) else ([out], Inr ()))"
proof -
  obtain impl lo' where new: "Impl_new sy g tv mem level e (SourceFile_literal path) line lo = Inr (impl, lo')"
      "log_locals_ok sy g lo'" "t_lastSecond lo' = fst tv" "fb_inv (i_stream impl)"
      "m_cur (i_stream impl) + length msg + 32 \<le> length (m_buff (i_stream impl))"
    and out: "\<forall>s1. wrote msg (i_stream impl) s1 \<longrightarrow> Logger_destroy g (impl\<lparr>i_stream := s1\<rparr>)
      = (let out = Output (g_output g) (log_prefix sy g tv level e @ msg @ log_suffix path line) in
         if level = FATAL then ([out, Flush (g_flush g)], Inl Aborted) else ([out], Inr ()))"
    using statement_wrote [OF ok] by (elim exE conjE) (rule that; assumption)
  have "wrote msg (i_stream impl) (LogStream_string msg (i_stream impl))"
    unfolding LogStream_string_def using new(4,5) by (intro append_wrote) auto
  then show ?thesis using new(1-3) out by blast
qed

text \<open>
  C19. One log statement: the constructor fails no assertion, whichever second the thread has
  cached, and keeps the caches of the thread right; the destructor hands one text to the output
  function, which is the time, the thread id, the level, the error, the message and the place in
  the source with the last component of its path, as long as they fit into the stream; a fatal
  message is flushed and aborts the process. A thread that logs first in the second 0 fails an
  assertion, because its empty cache passes for that second.
\<close>

theorem logger_message:
  assumes "statement_ok sy g tv mem level e path line msg lo"
  shows "(\<exists>impl lo'. Impl_new sy g tv mem level e (SourceFile_literal path) line lo = Inr (impl, lo')
      \<and> log_locals_ok sy g lo' \<and> t_lastSecond lo' = fst tv
      \<and> Logger_destroy g (impl\<lparr>i_stream := LogStream_string msg (i_stream impl)\<rparr>)
        = (let out = Output (g_output g) (log_prefix sy g tv level e @ msg @ log_suffix path line) in
           if level = FATAL then ([out, Flush (g_flush g)], Inl Aborted) else ([out], Inr ())))
    \<and> Impl_new sy g (0, 0) mem level e (SourceFile_literal path) line
        (lo\<lparr>t_time := [], t_lastSecond := 0\<rparr>) = Inl AssertFail"
  using statement_output [OF assms] new_at_second_zero by (cases lo) simp

text \<open>A thread that logs for the first time.\<close>

definition example_locals :: log_locals where
  "example_locals = \<lparr>t_cachedtid = 0, t_threadname = ''default'', t_tidString = [], t_tidStringLength = 6,
     t_time = [], t_lastSecond = 0\<rparr>"

definition example_system :: log_system where
  "example_system = \<lparr>sy_gettid = 42,
     sy_gmtime = (\<lambda>t. \<lparr>tm_sec = 5, tm_min = 4, tm_hour = 3, tm_mday = 2, tm_mon = 0, tm_year = 70\<rparr>),
     sy_stack = \<lparr>tm_sec = 0, tm_min = 0, tm_hour = 0, tm_mday = 0, tm_mon = 0, tm_year = 0\<rparr>,
     sy_strerror = (\<lambda>e. ''error'')\<rparr>"

lemma example_message_ok:
  assumes level: "level \<noteq> NUM_LOG_LEVELS" and msg: "length msg \<le> 100"
  shows "statement_ok example_system (log_globals_init False False) (97445, 7) (replicate kSmallBuffer (CHR ''x'')) level 0
     ''src/main.cc'' 12 msg example_locals"
proof -
  let ?g = "log_globals_init False False"
  have sys: "log_locals_ok example_system ?g example_locals" "0 < sy_gettid example_system" "sy_gettid example_system < 2 ^ 31"
    "tm_printable (broken_down example_system ?g 97445)"
    by (simp_all add: log_locals_ok_def example_locals_def example_system_def log_globals_init_def broken_down_def
        TimeZone_valid_def TimeZone_default_def tm_printable_def)
  have tid: "length (tid_text example_system) = 6"
    using fmt_length [of 42 5 False] by (simp add: tid_text_def example_system_def)
  have base: "basename_of ''src/main.cc'' = ''main.cc''" by (simp add: basename_of_def)
  have sfx: "length (log_suffix ''src/main.cc'' 12) \<le> 40"
    using convert_chars_length [of "sint (12 :: 32 word)"] by (simp add: log_suffix_def base)
  have name: "length (level_text level) = 6"
    using level by (cases level) (simp_all add: level_text_def LogLevelName_def)
  have pre: "length (log_prefix example_system ?g (97445, 7) level 0) = 17 + 9 + 6 + 6"
    using time_string_length [OF sys(4)] fmt_length [of 7 6 True]
    by (simp add: log_prefix_def tid name error_text_def zone_text_def log_globals_init_def
        TimeZone_valid_def TimeZone_default_def)
  have mem: "length (replicate kSmallBuffer (CHR ''x'')) = kSmallBuffer" by (rule length_replicate)
  have room: "length (log_prefix example_system ?g (97445, 7) level 0) + length msg
      + length (log_suffix ''src/main.cc'' 12) + 32 \<le> kSmallBuffer"
    using pre sfx msg by (simp add: kSmallBuffer_def)
  show ?thesis using sys mem room level unfolding statement_ok_def by simp
qed

lemmas example_statement_ok = example_message_ok [of _ "''bye''", simplified]

theorem logger_message_witness:
  "\<exists>impl lo' str. Impl_new example_system (log_globals_init False False) (97445, 7) (replicate kSmallBuffer (CHR ''x'')) FATAL 0
      (SourceFile_literal ''src/main.cc'') 12 example_locals = Inr (impl, lo')
    \<and> Logger_destroy (log_globals_init False False) (impl\<lparr>i_stream := LogStream_string ''bye'' (i_stream impl)\<rparr>)
      = ([Output defaultOutput str, Flush defaultFlush], Inl Aborted)"
  using conjunct1 [OF logger_message [OF example_statement_ok [of FATAL]]]
  by (simp add: log_globals_init_def Let_def) blast

end
