(* ===== verification/AsyncLogging.thy ===== *)
theory AsyncLogging
  imports LogFile LogStream Timestamp
begin

text \<open>
  base/AsyncLogging.h and base/AsyncLogging.cc: clients append lines to buffers in memory and one
  logging thread writes full buffers to a log file. Every access to the shared members happens
  under m\_mutex, so that a critical section is one step; the logging thread gives the mutex up
  only in its wait for the condition, which may return at any time (a notification, the time limit
  or a spurious wakeup), and its return value is not looked at. The events of a run are the
  client's calls and the steps of the logging thread, in any order that the phases allow. A step
  that ends in a fault ends the run.
\<close>

section \<open>State\<close>

text \<open>The system, the thread id of the logging thread and the storage of the i-th new buffer.\<close>

record async_env =
  ae_log :: log_env
  ae_tid :: tid
  ae_mem :: "nat \<Rightarrow> string"

text \<open>The local variables of ThreadFunc; an owning pointer that is null is None.\<close>

record async_locals =
  logout :: log_file
  firstBuffer :: "fixed_buffer option"
  secondBuffer :: "fixed_buffer option"
  buffsToWrite :: "fixed_buffer list"

text \<open>
  Where the logging thread is: not created, created, before the test of the loop, before the lock,
  in the wait for the condition, behind the critical section, and returned.
\<close>

datatype async_phase =
    NotStarted
  | Created
  | AtTest async_locals
  | AtLock async_locals
  | InWait async_locals
  | AtWrite async_locals
  | Finished log_file

record async =
  al_rollSize :: nat
  al_flushInterval :: int
  al_basename :: string
  al_running :: bool
  al_latch :: int
  al_curbuff :: "fixed_buffer option"
  al_nextbuff :: "fixed_buffer option"
  al_buffs :: "fixed_buffer list"
  al_phase :: async_phase

definition AsyncLogging_new :: "async_env \<Rightarrow> string \<Rightarrow> nat \<Rightarrow> int \<Rightarrow> async" where
  "AsyncLogging_new env basename rollSize flushInterval =
     \<lparr>al_rollSize = rollSize, al_flushInterval = flushInterval, al_basename = basename,
      al_running = False, al_latch = 1,
      al_curbuff = Some (FixedBuffer_bzero (FixedBuffer_new (ae_mem env 0))),
      al_nextbuff = Some (FixedBuffer_bzero (FixedBuffer_new (ae_mem env 1))), al_buffs = [],
      al_phase = NotStarted\<rparr>"

section \<open>The client\<close>

definition AsyncLogging_append :: "string \<Rightarrow> async \<Rightarrow> async result" where
  "AsyncLogging_append logline s =
     (case al_curbuff s of
        None \<Rightarrow> Inl NullDeref
      | Some cur \<Rightarrow>
          if FixedBuffer_avail cur > length logline
          then Inr (s\<lparr>al_curbuff := Some (snd (FixedBuffer_append logline cur))\<rparr>)
          else
            let s' = s\<lparr>al_buffs := al_buffs s @ [cur], al_curbuff := None\<rparr> in
            (case al_nextbuff s' of
               Some next \<Rightarrow>
                 Inr (s'\<lparr>al_curbuff := Some (snd (FixedBuffer_append logline next)), al_nextbuff := None\<rparr>)
             | None \<Rightarrow> Inl NullDeref))"

text \<open>start up to the wait for the latch; stop and the destructor up to the join.\<close>

definition AsyncLogging_start :: "async \<Rightarrow> async" where
  "AsyncLogging_start s = s\<lparr>al_running := True, al_phase := Created\<rparr>"

definition AsyncLogging_stop :: "async \<Rightarrow> async" where
  "AsyncLogging_stop s = s\<lparr>al_running := False\<rparr>"

definition AsyncLogging_destroy :: "async \<Rightarrow> async" where
  "AsyncLogging_destroy s = (if al_running s then AsyncLogging_stop s else s)"

section \<open>The logging thread\<close>

definition kCheckEveryN :: int where
  "kCheckEveryN = 1024"

text \<open>The part of ThreadFunc before its loop.\<close>

definition ThreadFunc_begin :: "async_env \<Rightarrow> int \<Rightarrow> int \<times> int \<times> int \<times> int \<Rightarrow> async \<Rightarrow> async result" where
  "ThreadFunc_begin env now garbage s =
     assert_then (al_running s)
       (Inr (s\<lparr>al_latch := al_latch s - 1,
               al_phase := AtTest
                 \<lparr>logout = LogFile_new (ae_log env) True (al_rollSize s) (al_basename s) (al_flushInterval s)
                    kCheckEveryN garbage now,
                  firstBuffer = Some (FixedBuffer_new (ae_mem env 2)),
                  secondBuffer = Some (FixedBuffer_new (ae_mem env 3)), buffsToWrite = []\<rparr>\<rparr>))"

text \<open>
  The critical section after the wait. A ptr\_vector refuses a null pointer with an exception, which
  is a null dereference here.
\<close>

definition ThreadFunc_collect :: "async_locals \<Rightarrow> async \<Rightarrow> async result" where
  "ThreadFunc_collect l s =
     (case al_curbuff s of
        None \<Rightarrow> Inl NullDeref
      | Some cur \<Rightarrow>
          let buffs = al_buffs s @ [cur];
              s1 = s\<lparr>al_curbuff := firstBuffer l, al_buffs := buffsToWrite l\<rparr>;
              l1 = l\<lparr>firstBuffer := None, buffsToWrite := buffs\<rparr> in
          (case al_nextbuff s1 of
             None \<Rightarrow> Inr (s1\<lparr>al_nextbuff := secondBuffer l1,
                            al_phase := AtWrite (l1\<lparr>secondBuffer := None\<rparr>)\<rparr>)
           | Some _ \<Rightarrow> Inr (s1\<lparr>al_phase := AtWrite l1\<rparr>)))"

text \<open>
  The i-th append of a round reads the clock twice at most. The loop over the buffers starts with
  the append of that number.
\<close>

primrec write_loop ::
  "log_env \<Rightarrow> tid \<Rightarrow> (nat \<Rightarrow> int \<times> int) \<Rightarrow> nat \<Rightarrow> fixed_buffer list \<Rightarrow> log_file \<Rightarrow> log_file result" where
  "write_loop env tid clock i [] lf = Inr lf"
| "write_loop env tid clock i (b # bs) lf =
     bindE (LogFile_append env tid (fst (clock i)) (snd (clock i)) (FixedBuffer_asString b) lf)
       (write_loop env tid clock (i + 1) bs)"

text \<open>
  The message about dropped logs. The array has 256 characters, all of which are logged: the
  message, a zero byte and what the memory held before.
\<close>

definition drop_message :: "log_env \<Rightarrow> int \<times> int \<Rightarrow> string \<Rightarrow> nat \<Rightarrow> string result" where
  "drop_message env tv garbage n =
     bindE (Timestamp_now tv) (\<lambda>t.
       Inr (overwrite 0 (snprintf_chars 256 (''Drop some log at '' @ Timestamp_toFormatedString (le_gmtime env) t
              @ '', '' @ fmt_d False 0 (int (n - 2)))) garbage))"

text \<open>Taking a buffer back for reuse.\<close>

definition refill :: "fixed_buffer option \<Rightarrow> fixed_buffer list
    \<Rightarrow> (fixed_buffer option \<times> fixed_buffer list) result" where
  "refill buffer bufs =
     (case buffer of
        Some b \<Rightarrow> Inr (Some b, bufs)
      | None \<Rightarrow> assert_then (bufs \<noteq> []) (Inr (Some (FixedBuffer_reset (last bufs)), butlast bufs)))"

text \<open>The part of the loop body behind the critical section.\<close>

definition ThreadFunc_write ::
  "async_env \<Rightarrow> (nat \<Rightarrow> int \<times> int) \<Rightarrow> int \<times> int \<Rightarrow> string \<Rightarrow> async_locals \<Rightarrow> async_locals result" where
  "ThreadFunc_write env clock tv garbage l =
     (let bufs = buffsToWrite l in
      assert_then (length bufs > 0)
        (bindE (if length bufs > 25
                then bindE (drop_message (ae_log env) tv garbage (length bufs)) (\<lambda>temp.
                       bindE (LogFile_append (ae_log env) (ae_tid env) (fst (clock 0)) (snd (clock 0)) temp (logout l))
                         (\<lambda>lf. Inr (1, take 2 bufs, lf)))
                else Inr (0, bufs, logout l)) (\<lambda>(i, bufs, lf).
         bindE (write_loop (ae_log env) (ae_tid env) clock i bufs lf) (\<lambda>lf.
         let bufs = (if length bufs > 2 then take 2 bufs else bufs) in
         bindE (refill (firstBuffer l) bufs) (\<lambda>(first, bufs).
         bindE (refill (secondBuffer l) bufs) (\<lambda>(second, bufs).
         bindE (LogFile_flush (ae_tid env) lf) (\<lambda>lf.
           Inr \<lparr>logout = lf, firstBuffer = first, secondBuffer = second, buffsToWrite = []\<rparr>)))))))"

section \<open>Runs\<close>

datatype async_event =
    Append string
  | Start
  | Begin int "int \<times> int \<times> int \<times> int"
  | LoopTest
  | TakeLock
  | WaitReturn
  | Write "nat \<Rightarrow> int \<times> int" "int \<times> int" string
  | Stop

text \<open>
  A step that its phase does not allow is None. The thread that called start calls stop only after
  start has returned, that is, after the latch has been counted down.
\<close>

fun async_next :: "async_env \<Rightarrow> async_event \<Rightarrow> async \<Rightarrow> async result option" where
  "async_next env (Append logline) s = Some (AsyncLogging_append logline s)"
| "async_next env Start s = (if al_phase s = NotStarted then Some (Inr (AsyncLogging_start s)) else None)"
| "async_next env (Begin now garbage) s =
     (if al_phase s = Created then Some (ThreadFunc_begin env now garbage s) else None)"
| "async_next env LoopTest s =
     (case al_phase s of
        AtTest l \<Rightarrow>
          if al_running s then Some (Inr (s\<lparr>al_phase := AtLock l\<rparr>))
          else Some (bindE (LogFile_flush (ae_tid env) (logout l)) (\<lambda>lf. Inr (s\<lparr>al_phase := Finished lf\<rparr>)))
      | _ \<Rightarrow> None)"
| "async_next env TakeLock s =
     (case al_phase s of
        AtLock l \<Rightarrow>
          if al_buffs s = [] then Some (Inr (s\<lparr>al_phase := InWait l\<rparr>)) else Some (ThreadFunc_collect l s)
      | _ \<Rightarrow> None)"
| "async_next env WaitReturn s =
     (case al_phase s of InWait l \<Rightarrow> Some (ThreadFunc_collect l s) | _ \<Rightarrow> None)"
| "async_next env (Write clock tv garbage) s =
     (case al_phase s of
        AtWrite l \<Rightarrow> Some (bindE (ThreadFunc_write env clock tv garbage l) (\<lambda>l'. Inr (s\<lparr>al_phase := AtTest l'\<rparr>)))
      | _ \<Rightarrow> None)"
| "async_next env Stop s = (if al_latch s > 0 then None else Some (Inr (AsyncLogging_destroy s)))"

primrec async_run :: "async_env \<Rightarrow> async_event list \<Rightarrow> async \<Rightarrow> async result option" where
  "async_run env [] s = Some (Inr s)"
| "async_run env (e # es) s =
     (case async_next env e s of
        None \<Rightarrow> None
      | Some (Inl f) \<Rightarrow> Some (Inl f)
      | Some (Inr s') \<Rightarrow> async_run env es s')"

section \<open>Where the text is\<close>

definition buffer_texts :: "fixed_buffer list \<Rightarrow> string" where
  "buffer_texts bs = concat (map FixedBuffer_asString bs)"

lemma buffer_texts_simps [simp]:
  "buffer_texts [] = []" "buffer_texts (b # bs) = FixedBuffer_asString b @ buffer_texts bs"
  "buffer_texts (bs @ cs) = buffer_texts bs @ buffer_texts cs"
  by (simp_all add: buffer_texts_def)

text \<open>What the log files hold, and what waits in buffers, the oldest text first.\<close>

primrec phase_log :: "async_phase \<Rightarrow> string" where
  "phase_log NotStarted = []"
| "phase_log Created = []"
| "phase_log (AtTest l) = concat (lf_texts (logout l))"
| "phase_log (AtLock l) = concat (lf_texts (logout l))"
| "phase_log (InWait l) = concat (lf_texts (logout l))"
| "phase_log (AtWrite l) = concat (lf_texts (logout l))"
| "phase_log (Finished lf) = concat (lf_texts lf)"

definition log_text :: "async \<Rightarrow> string" where
  "log_text s = phase_log (al_phase s)"

fun phase_buffers :: "async_phase \<Rightarrow> fixed_buffer list" where
  "phase_buffers (AtWrite l) = buffsToWrite l"
| "phase_buffers _ = []"

definition pending_text :: "async \<Rightarrow> string" where
  "pending_text s = buffer_texts (phase_buffers (al_phase s) @ al_buffs s
     @ (case al_curbuff s of Some b \<Rightarrow> [b] | None \<Rightarrow> []))"

fun appended :: "async_event list \<Rightarrow> string list" where
  "appended [] = []"
| "appended (Append line # es) = line # appended es"
| "appended (_ # es) = appended es"

section \<open>The invariant\<close>

definition buf_ok :: "nat \<Rightarrow> fixed_buffer \<Rightarrow> bool" where
  "buf_ok sz b \<longleftrightarrow> fb_inv b \<and> length (m_buff b) = sz"

definition empty_buf :: "nat \<Rightarrow> fixed_buffer \<Rightarrow> bool" where
  "empty_buf sz b \<longleftrightarrow> buf_ok sz b \<and> m_cur b = 0"

text \<open>The logging thread between two rounds, and between the collection and the end of a round.\<close>

definition resting :: "nat \<Rightarrow> string \<Rightarrow> async_locals \<Rightarrow> bool" where
  "resting sz text l \<longleftrightarrow> (\<exists>lines. logged lines (logout l) \<and> concat lines = text)
     \<and> lf_mutexLock (logout l) = Some MutexLock_new
     \<and> (\<exists>b c. firstBuffer l = Some b \<and> secondBuffer l = Some c \<and> empty_buf sz b \<and> empty_buf sz c)
     \<and> buffsToWrite l = []"

definition writing :: "nat \<Rightarrow> string \<Rightarrow> async_locals \<Rightarrow> bool" where
  "writing sz text l \<longleftrightarrow> (\<exists>lines. logged lines (logout l) \<and> concat lines = text)
     \<and> lf_mutexLock (logout l) = Some MutexLock_new
     \<and> firstBuffer l = None \<and> list_all (buf_ok sz) (buffsToWrite l)
     \<and> (case secondBuffer l of Some c \<Rightarrow> empty_buf sz c \<and> length (buffsToWrite l) = 1
        | None \<Rightarrow> length (buffsToWrite l) = 2)"

definition spares :: "nat \<Rightarrow> fixed_buffer option \<Rightarrow> fixed_buffer list \<Rightarrow> bool" where
  "spares sz next buffs \<longleftrightarrow>
     (case next of Some c \<Rightarrow> empty_buf sz c \<and> buffs = []
      | None \<Rightarrow> length buffs = 1 \<and> list_all (buf_ok sz) buffs)"

definition frontend :: "nat \<Rightarrow> async \<Rightarrow> bool" where
  "frontend sz s \<longleftrightarrow> (\<exists>b. al_curbuff s = Some b \<and> buf_ok sz b) \<and> spares sz (al_nextbuff s) (al_buffs s)"

primrec backend :: "nat \<Rightarrow> string \<Rightarrow> bool \<Rightarrow> int \<Rightarrow> async_phase \<Rightarrow> bool" where
  "backend sz text running latch NotStarted = (text = [] \<and> latch = 1)"
| "backend sz text running latch Created = (text = [] \<and> latch = 1 \<and> running)"
| "backend sz text running latch (AtTest l) = resting sz text l"
| "backend sz text running latch (AtLock l) = resting sz text l"
| "backend sz text running latch (InWait l) = resting sz text l"
| "backend sz text running latch (AtWrite l) = writing sz text l"
| "backend sz text running latch (Finished lf) = (\<exists>lines. logged lines lf \<and> concat lines = text)"

definition async_inv :: "nat \<Rightarrow> string \<Rightarrow> async \<Rightarrow> bool" where
  "async_inv sz text s \<longleftrightarrow> frontend sz s \<and> backend sz (log_text s) (al_running s) (al_latch s) (al_phase s)
     \<and> log_text s @ pending_text s = text"

lemma spares_simps [simp]:
  "spares sz (Some c) buffs \<longleftrightarrow> empty_buf sz c \<and> buffs = []"
  "spares sz None buffs \<longleftrightarrow> length buffs = 1 \<and> list_all (buf_ok sz) buffs"
  by (simp_all add: spares_def)

lemma empty_buf_text: "empty_buf sz b \<Longrightarrow> FixedBuffer_asString b = []"
  by (simp add: empty_buf_def FixedBuffer_asString_def)

lemma buf_append_fits:
  assumes "buf_ok sz b" and "m_cur b + length line \<le> sz"
  shows "buf_ok sz (snd (FixedBuffer_append line b))
    \<and> FixedBuffer_asString (snd (FixedBuffer_append line b)) = FixedBuffer_asString b @ line"
proof -
  have "FixedBuffer_append line b = (length line,
      b\<lparr>m_buff := overwrite (m_cur b) line (m_buff b), m_cur := m_cur b + length line\<rparr>)"
    using assms by (intro FixedBuffer_append_fits) (auto simp: buf_ok_def)
  then show ?thesis using assms asString_overwrite [of b line] by (simp add: buf_ok_def fb_inv_def)
qed

lemma append_inv:
  assumes inv: "async_inv sz text s" and len: "length line \<le> sz"
  shows "AsyncLogging_append line s = Inl NullDeref
    \<or> (\<exists>s'. AsyncLogging_append line s = Inr s' \<and> async_inv sz (text @ line) s' \<and> al_phase s' = al_phase s)"
proof -
  obtain b where b: "al_curbuff s = Some b" "buf_ok sz b"
    using inv by (auto simp: async_inv_def frontend_def)
  consider (fits) "FixedBuffer_avail b > length line"
    | (swap) c where "\<not> FixedBuffer_avail b > length line" "al_nextbuff s = Some c"
    | (crash) "\<not> FixedBuffer_avail b > length line" "al_nextbuff s = None" by fastforce
  then show ?thesis
  proof cases
    case fits
    then have "m_cur b + length line \<le> sz" using b(2) fb_avail [of b] by (auto simp: buf_ok_def)
    then show ?thesis using inv b fits buf_append_fits [OF b(2)]
      by (auto simp: AsyncLogging_append_def async_inv_def frontend_def pending_text_def log_text_def)
  next
    case (swap c)
    then have "empty_buf sz c" "al_buffs s = []" using inv by (auto simp: async_inv_def frontend_def)
    moreover have "m_cur c + length line \<le> sz" "buf_ok sz c" "FixedBuffer_asString c = []"
      using \<open>empty_buf sz c\<close> len empty_buf_text by (auto simp: empty_buf_def)
    ultimately show ?thesis using inv b swap buf_append_fits [of sz c line]
      by (auto simp: AsyncLogging_append_def Let_def async_inv_def frontend_def pending_text_def log_text_def)
  next
    case crash
    then show ?thesis using b by (simp add: AsyncLogging_append_def Let_def)
  qed
qed

interpretation async_sink: text_sink AsyncLogging_append "\<lambda>line. line" "\<lambda>line. length line \<le> sz"
    "\<lambda>lines. async_inv sz (concat lines)" "{NullDeref}"
  for sz :: nat
  using append_inv by unfold_locales fastforce

text \<open>A burst of a client between two rounds of the logging thread.\<close>

lemma burst_inv:
  "async_inv sz text s \<Longrightarrow> list_all (\<lambda>line. length line \<le> sz) lines \<Longrightarrow>
    puts AsyncLogging_append lines s = Inl NullDeref
    \<or> (\<exists>s'. puts AsyncLogging_append lines s = Inr s' \<and> async_inv sz (text @ concat lines) s')"
  using async_sink.puts_step [of sz "[text]" s lines] by simp

lemma collect_inv:
  assumes "frontend sz s" and "resting sz text l"
  shows "\<exists>s'. ThreadFunc_collect l s = Inr s'
    \<and> async_inv sz (text @ buffer_texts (al_buffs s @ (case al_curbuff s of Some b \<Rightarrow> [b] | None \<Rightarrow> []))) s'"
proof -
  obtain b where b: "al_curbuff s = Some b" "buf_ok sz b" "spares sz (al_nextbuff s) (al_buffs s)"
    using assms(1) by (auto simp: frontend_def)
  note defs = ThreadFunc_collect_def Let_def frontend_def async_inv_def writing_def pending_text_def log_text_def
    empty_buf_text logged_text
  show ?thesis
  proof (cases "al_nextbuff s")
    case None
    then show ?thesis using b assms(2)
      by (cases "al_buffs s") (auto simp: defs resting_def empty_buf_def FixedBuffer_asString_def)
  next
    case (Some c)
    then show ?thesis using b assms(2) by (auto simp: defs resting_def empty_buf_def FixedBuffer_asString_def)
  qed
qed

text \<open>The calls of the loop over the buffers.\<close>

primrec timed :: "(nat \<Rightarrow> int \<times> int) \<Rightarrow> nat \<Rightarrow> fixed_buffer list \<Rightarrow> (int \<times> int \<times> string) list" where
  "timed clock i [] = []"
| "timed clock i (b # bs) = (fst (clock i), snd (clock i), FixedBuffer_asString b) # timed clock (i + 1) bs"

lemma write_loop_puts: "write_loop env tid clock i bs = puts (log_put env tid) (timed clock i bs)"
proof (induction bs arbitrary: i)
  case (Cons b bs)
  show ?case by (rule ext) (simp add: Cons.IH log_put_def)
qed (simp add: fun_eq_iff)

lemma timed_lines: "map (snd \<circ> snd) (timed clock i bs) = map FixedBuffer_asString bs"
  by (induction bs arbitrary: i) simp_all

lemma timed_short:
  "sz < size_mod \<Longrightarrow> list_all (buf_ok sz) bs \<Longrightarrow> list_all (\<lambda>c. length (snd (snd c)) < size_mod) (timed clock i bs)"
  by (induction bs arbitrary: i) (auto simp: buf_ok_def FixedBuffer_asString_def fb_inv_def)

lemma write_loop_step:
  assumes "reliable env" and "sz < size_mod"
    and "logged lines lf" and "lf_mutexLock lf = Some MutexLock_new" and "list_all (buf_ok sz) bs"
  shows "write_loop env tid clock i bs lf = Inl SelfDeadlock
    \<or> (\<exists>lf'. write_loop env tid clock i bs lf = Inr lf' \<and> lf_mutexLock lf' = Some MutexLock_new
        \<and> logged (lines @ map FixedBuffer_asString bs) lf')"
  using locked_log.puts_step [of env lines lf "timed clock i bs" tid] timed_short [OF assms(2,5)] assms(1,3,4)
  by (auto simp: write_loop_puts timed_lines)

lemma write_inv:
  assumes "reliable (ae_log env)" and "sz < size_mod" and "writing sz text l"
  shows "ThreadFunc_write env clock tv garbage l = Inl SelfDeadlock
    \<or> (\<exists>l'. ThreadFunc_write env clock tv garbage l = Inr l'
        \<and> resting sz (text @ buffer_texts (buffsToWrite l)) l')"
proof -
  obtain lines where l: "logged lines (logout l)" "concat lines = text"
      "lf_mutexLock (logout l) = Some MutexLock_new" "list_all (buf_ok sz) (buffsToWrite l)" "firstBuffer l = None"
    using assms(3) by (auto simp: writing_def)
  have len: "0 < length (buffsToWrite l)" "length (buffsToWrite l) \<le> 2"
    using assms(3) by (auto simp: writing_def split: option.splits)
  have reset: "empty_buf sz (FixedBuffer_reset b)" if "buf_ok sz b" for b
    using that by (auto simp: empty_buf_def buf_ok_def FixedBuffer_reset_def fb_inv_def)
  from write_loop_step [OF assms(1,2) l(1,3,4), of "ae_tid env" clock 0] show ?thesis
  proof (elim disjE exE conjE)
    fix lf
    assume lf: "write_loop (ae_log env) (ae_tid env) clock 0 (buffsToWrite l) (logout l) = Inr lf"
      "lf_mutexLock lf = Some MutexLock_new" "logged (lines @ map FixedBuffer_asString (buffsToWrite l)) lf"
    obtain lf' where lf': "LogFile_flush (ae_tid env) lf = Inr lf'" "lf_mutexLock lf' = Some MutexLock_new"
        "logged (lines @ map FixedBuffer_asString (buffsToWrite l)) lf'"
      using flush_mutex_step [OF lf(3,2)] by blast
    consider (one) b c where "buffsToWrite l = [b]" "secondBuffer l = Some c" "empty_buf sz c" "buf_ok sz b"
      | (two) b c where "buffsToWrite l = [b, c]" "secondBuffer l = None" "buf_ok sz b" "buf_ok sz c"
      using assms(3) by (auto simp: writing_def length_Suc_conv numeral_2_eq_2 split: option.splits)
    then show ?thesis
      using lf lf' l(2,5) reset
      by cases (auto simp: ThreadFunc_write_def Let_def refill_def resting_def intro!: exI [of _ "lines @ _"])
  qed (use len l(5) in \<open>simp add: ThreadFunc_write_def Let_def\<close>)
qed

section \<open>Every run keeps the invariant\<close>

text \<open>
  A line fits into an empty buffer, and the count of appends that the constructor of the log file
  finds in memory is not at the upper end of the type int.
\<close>

fun event_ok :: "nat \<Rightarrow> async_event \<Rightarrow> bool" where
  "event_ok sz (Append line) = (length line \<le> sz)"
| "event_ok sz (Begin now (_, _, _, count)) = (- (2 ^ 31) \<le> count \<and> count < 2 ^ 31 - 1)"
| "event_ok sz _ = True"

definition async_env_ok :: "nat \<Rightarrow> async_env \<Rightarrow> bool" where
  "async_env_ok sz env \<longleftrightarrow> reliable (ae_log env) \<and> (\<forall>i. length (ae_mem env i) = sz) \<and> sz < size_mod"

lemma new_buffer: "length mem = sz \<Longrightarrow> sz < size_mod \<Longrightarrow> empty_buf sz (FixedBuffer_new mem)
    \<and> empty_buf sz (FixedBuffer_bzero (FixedBuffer_new mem))"
  by (simp add: empty_buf_def buf_ok_def fb_inv_def FixedBuffer_new_def FixedBuffer_bzero_def FixedBuffer_setCookie_def)

lemma new_inv: "async_env_ok sz env \<Longrightarrow> async_inv sz [] (AsyncLogging_new env name rs fl)"
  using new_buffer [of "ae_mem env 0" sz] new_buffer [of "ae_mem env 1" sz]
  by (auto simp: async_env_ok_def async_inv_def AsyncLogging_new_def frontend_def log_text_def pending_text_def
      empty_buf_text) (simp add: empty_buf_def)

lemma begin_inv:
  assumes env: "async_env_ok sz env" and inv: "async_inv sz text s" and ph: "al_phase s = Created"
    and ok: "event_ok sz (Begin now garbage)"
  shows "\<exists>s'. ThreadFunc_begin env now garbage s = Inr s' \<and> async_inv sz text s'"
proof -
  obtain p f r c where g: "garbage = (p, f, r, c)" by (cases garbage) auto
  let ?lf = "LogFile_new (ae_log env) True (al_rollSize s) (al_basename s) (al_flushInterval s) kCheckEveryN garbage now"
  have "logged [] ?lf"
    using new_logged env ok unfolding g by (simp add: async_env_ok_def kCheckEveryN_def)
  moreover have "lf_mutexLock ?lf = Some MutexLock_new"
    by (simp add: g LogFile_new_def LogFile_rollFile_def Let_def)
  ultimately show ?thesis
    using inv ph new_buffer [of "ae_mem env 2" sz] new_buffer [of "ae_mem env 3" sz] env logged_text [of "[]" ?lf]
    by (auto simp: ThreadFunc_begin_def async_inv_def frontend_def log_text_def pending_text_def resting_def
        async_env_ok_def)
qed

lemma next_inv:
  assumes env: "async_env_ok sz env" and inv: "async_inv sz text s" and ok: "event_ok sz e"
    and step: "async_next env e s = Some r"
  shows "r = Inl NullDeref \<or> r = Inl SelfDeadlock
    \<or> (\<exists>s'. r = Inr s' \<and> async_inv sz (text @ concat (appended [e])) s')"
proof (cases e)
  case (Append line)
  then show ?thesis using append_inv [OF inv, of line] step ok by auto
next
  case Start
  then show ?thesis using inv step
    by (auto simp: AsyncLogging_start_def async_inv_def frontend_def log_text_def pending_text_def split: if_splits)
next
  case (Begin now garbage)
  then show ?thesis using begin_inv [OF env inv, of now garbage] ok step by (auto split: if_splits)
next
  case LoopTest
  then obtain l where l: "al_phase s = AtTest l" using step by (auto split: async_phase.splits)
  then obtain lines where lines: "logged lines (logout l)" "concat lines = log_text s"
      "lf_mutexLock (logout l) = Some MutexLock_new"
    using inv by (auto simp: async_inv_def resting_def)
  obtain lf where "LogFile_flush (ae_tid env) (logout l) = Inr lf" "logged lines lf" "lf_texts lf = lf_texts (logout l)"
    using flush_mutex_step [OF lines(1,3)] by blast
  then show ?thesis using LoopTest l step inv lines
    by (auto simp: async_inv_def frontend_def log_text_def pending_text_def split: if_splits)
next
  case TakeLock
  then obtain l where l: "al_phase s = AtLock l" using step by (auto split: async_phase.splits)
  have "frontend sz s" "resting sz (log_text s) l" "pending_text s
      = buffer_texts (al_buffs s @ (case al_curbuff s of Some b \<Rightarrow> [b] | None \<Rightarrow> []))"
    using inv l by (auto simp: async_inv_def pending_text_def)
  then have "\<exists>s'. ThreadFunc_collect l s = Inr s' \<and> async_inv sz text s'"
    using collect_inv [of sz s "log_text s" l] inv by (auto simp: async_inv_def)
  then show ?thesis using TakeLock l step inv
    by (cases "al_buffs s") (auto simp: async_inv_def frontend_def log_text_def pending_text_def)
next
  case WaitReturn
  then obtain l where l: "al_phase s = InWait l" using step by (auto split: async_phase.splits)
  have "frontend sz s" "resting sz (log_text s) l" "pending_text s
      = buffer_texts (al_buffs s @ (case al_curbuff s of Some b \<Rightarrow> [b] | None \<Rightarrow> []))"
    using inv l by (auto simp: async_inv_def pending_text_def)
  then show ?thesis using collect_inv [of sz s "log_text s" l] WaitReturn l step inv
    by (auto simp: async_inv_def)
next
  case (Write clock tv garbage)
  then obtain l where l: "al_phase s = AtWrite l" using step by (auto split: async_phase.splits)
  then have "writing sz (log_text s) l" using inv by (simp add: async_inv_def)
  from write_inv [OF _ _ this, of env clock tv garbage] env
  have "ThreadFunc_write env clock tv garbage l = Inl SelfDeadlock
      \<or> (\<exists>l'. ThreadFunc_write env clock tv garbage l = Inr l'
          \<and> resting sz (log_text s @ buffer_texts (buffsToWrite l)) l')"
    by (simp add: async_env_ok_def)
  then show ?thesis
  proof (elim disjE exE conjE)
    fix l'
    assume l': "ThreadFunc_write env clock tv garbage l = Inr l'"
      "resting sz (log_text s @ buffer_texts (buffsToWrite l)) l'"
    then have "concat (lf_texts (logout l')) = log_text s @ buffer_texts (buffsToWrite l)"
      by (auto simp: resting_def logged_text)
    then show ?thesis using l' Write l step inv
      by (auto simp: async_inv_def frontend_def log_text_def pending_text_def)
  qed (use Write l step in \<open>auto\<close>)
next
  case Stop
  then show ?thesis using inv step
    by (cases "al_phase s") (auto simp: AsyncLogging_destroy_def AsyncLogging_stop_def async_inv_def frontend_def
        log_text_def pending_text_def split: if_splits)
qed

lemma run_inv:
  assumes "async_env_ok sz env"
  shows "async_inv sz acc s \<Longrightarrow> list_all (event_ok sz) es \<Longrightarrow> async_run env es s = Some r \<Longrightarrow>
    r = Inl NullDeref \<or> r = Inl SelfDeadlock
    \<or> (\<exists>s'. r = Inr s' \<and> async_inv sz (acc @ concat (appended es)) s')"
proof (induction es arbitrary: acc s)
  case (Cons e es)
  obtain r1 where r1: "async_next env e s = Some r1" using Cons.prems(3) by (auto split: option.splits)
  have app: "concat (appended (e # es)) = concat (appended [e]) @ concat (appended es)" by (cases e) simp_all
  have ok: "event_ok sz e" "list_all (event_ok sz) es" using Cons.prems(2) by simp_all
  from next_inv [OF assms Cons.prems(1) ok(1) r1] show ?case
  proof (elim disjE exE conjE)
    fix s' assume "r1 = Inr s'" "async_inv sz (acc @ concat (appended [e])) s'"
    then show ?thesis using Cons.IH [of "acc @ concat (appended [e])" s'] Cons.prems(2,3) r1 app by simp
  qed (use Cons.prems r1 in \<open>auto\<close>)
qed auto

text \<open>
  C7. In every run of any number of clients and the logging thread: what the log files hold,
  followed by what waits in the buffers, is the appended text, nothing lost, doubled or reordered;
  at most one full buffer waits between two rounds and a round writes one or two buffers, so that
  the code that drops logs is dead; and the only faults are the null dereference of a client that
  finds no buffer and the deadlock of a flush, so that no assertion of ThreadFunc ever fails.
\<close>

theorem async_logging_invariant:
  assumes "async_env_ok sz env" and "list_all (event_ok sz) es"
    and "async_run env es (AsyncLogging_new env basename rollSize flushInterval) = Some r"
  shows "case r of
      Inl f \<Rightarrow> f = NullDeref \<or> f = SelfDeadlock
    | Inr s \<Rightarrow> log_text s @ pending_text s = concat (appended es) \<and> length (al_buffs s) \<le> 1
        \<and> (\<forall>l. al_phase s = AtWrite l \<longrightarrow> 1 \<le> length (buffsToWrite l) \<and> length (buffsToWrite l) \<le> 2)"
  using run_inv [OF assms(1) new_inv [OF assms(1)] assms(2,3)]
proof (elim disjE exE conjE)
  fix s assume "r = Inr s" "async_inv sz ([] @ concat (appended es)) s"
  then show ?thesis
    by (cases "al_nextbuff s") (auto simp: async_inv_def frontend_def writing_def split: option.splits)
qed simp_all

text \<open>A system for the witnesses, with buffers of four characters.\<close>

definition example_async :: async_env where
  "example_async = \<lparr>ae_log = example_env, ae_tid = 1, ae_mem = (\<lambda>_. ''wxyz'')\<rparr>"

lemma example_async_ok: "async_env_ok 4 example_async"
  by (simp add: async_env_ok_def example_async_def example_env_reliable size_mod_def)

lemmas async_eval_defs = AsyncLogging_new_def AsyncLogging_append_def AsyncLogging_start_def AsyncLogging_stop_def
  AsyncLogging_destroy_def ThreadFunc_begin_def ThreadFunc_collect_def Let_def FixedBuffer_new_def
  FixedBuffer_bzero_def FixedBuffer_setCookie_def FixedBuffer_avail_def FixedBuffer_append_def overwrite_def
  size_sub_def size_mod_def

lemmas log_eval_defs = ThreadFunc_write_def refill_def FixedBuffer_reset_def FixedBuffer_asString_def
  LogFile_append_def LogFile_append_unlocked_def LogFile_new_def LogFile_rollFile_def LogFile_flush_def with_lock_def
  MutexLock_lock_def MutexLock_new_def MutexLock_unlock_def MutexLock_unassgin_def MutexLock_assign_def
  WriteFile_new_def WriteFile_writeLine_def writeLine_loop.simps WriteFile_write_def WriteFile_flush_def
  WriteFile_WritenBytes_def example_env_def size_add_def checked32_def in_int32_def kCheckEveryN_def

theorem async_logging_invariant_witness:
  "\<exists>s. async_run example_async [Append ''abc'', Append ''de'', Start, Begin 50 (0, 0, 0, 0), LoopTest, TakeLock, Append ''f'',
      Write (\<lambda>_. (60, 60)) (60, 0) []]
      (AsyncLogging_new example_async ''log'' 100 3) = Some (Inr s)
    \<and> log_text s @ pending_text s = ''abcdef'' \<and> length (al_buffs s) \<le> 1"
proof -
  let ?es = "[Append ''abc'', Append ''de'', Start, Begin 50 (0, 0, 0, 0), LoopTest, TakeLock, Append ''f'',
      Write (\<lambda>_. (60, 60)) (60, 0) []]"
  have "\<exists>s. async_run example_async ?es (AsyncLogging_new example_async ''log'' 100 3) = Some (Inr s)"
    by (simp add: async_eval_defs example_async_def log_eval_defs)
  then obtain s where s: "async_run example_async ?es (AsyncLogging_new example_async ''log'' 100 3) = Some (Inr s)" ..
  show ?thesis using async_logging_invariant [OF example_async_ok _ s] s by auto
qed

section \<open>What is lost\<close>

lemma finished_next:
  "al_phase s = Finished lf \<Longrightarrow> async_next env e s = Some (Inr s') \<Longrightarrow> al_phase s' = Finished lf"
  by (cases e) (auto simp: AsyncLogging_append_def AsyncLogging_destroy_def AsyncLogging_stop_def Let_def
      split: option.splits if_splits)

lemma finished_run:
  "async_run env es s = Some (Inr s') \<Longrightarrow> al_phase s = Finished lf \<Longrightarrow> al_phase s' = Finished lf"
proof (induction es arbitrary: s)
  case (Cons e es)
  then show ?case using finished_next [of s lf env e] by (auto split: option.splits sum.splits)
qed simp

text \<open>When the thread is at the test of its loop after stop, or behind it, it only flushes.\<close>

definition stopped :: "string \<Rightarrow> async \<Rightarrow> bool" where
  "stopped text s \<longleftrightarrow> \<not> al_running s \<and> log_text s = text
     \<and> (case al_phase s of AtTest l \<Rightarrow> lf_mutexLock (logout l) = Some MutexLock_new | Finished _ \<Rightarrow> True | _ \<Rightarrow> False)"

lemma stopped_next:
  assumes "stopped text s" and "async_next env e s = Some (Inr s')"
  shows "stopped text s'"
proof (cases e)
  case LoopTest
  show ?thesis
  proof (cases "al_phase s")
    case (AtTest l)
    then show ?thesis using assms LoopTest
      by (auto simp: stopped_def log_text_def lf_texts_def LogFile_flush_def with_lock_def MutexLock_lock_def MutexLock_new_def
          WriteFile_flush_def split: if_splits)
  qed (use assms LoopTest in \<open>auto simp: stopped_def\<close>)
next
  case (Append line)
  then show ?thesis using assms
    by (auto simp: stopped_def log_text_def AsyncLogging_append_def Let_def split: option.splits if_splits)
next
  case Stop
  then show ?thesis using assms
    by (auto simp: stopped_def log_text_def AsyncLogging_destroy_def AsyncLogging_stop_def split: if_splits)
qed (use assms in \<open>auto simp: stopped_def split: async_phase.splits if_splits\<close>)

lemma stopped_run: "async_run env es s = Some (Inr s') \<Longrightarrow> stopped text s \<Longrightarrow> stopped text s'"
proof (induction es arbitrary: s)
  case (Cons e es)
  then show ?case using stopped_next [of _ s env e] by (auto split: option.splits sum.splits)
qed simp

lemma append_null:
  "AsyncLogging_append line s = Inl NullDeref \<longleftrightarrow> al_curbuff s = None
    \<or> al_nextbuff s = None \<and> (\<exists>cur. al_curbuff s = Some cur \<and> FixedBuffer_avail cur \<le> length line)"
  by (auto simp: AsyncLogging_append_def Let_def split: option.splits if_splits)

text \<open>
  C38. What can be lost, in a state that any run has reached. A client dereferences a null pointer exactly when its
  line does not fit into the current buffer and the second buffer has been used since the logging thread last
  collected; three lines are enough for that before the first collection, for all lines of such lengths.
  Once the logging thread is at the test of its loop and stop has been called, no continuation writes
  anything any more: what is in the buffers then, and what is appended later, stays there. A run that ends
  so, with the only line that was appended, exists for every line that fits. (When stop is
  called while the thread is inside its loop, the thread still finishes that round.)
\<close>

theorem async_logging_loss:
  assumes "async_env_ok sz env" and "list_all (event_ok sz) es"
    and run: "async_run env es (AsyncLogging_new env basename rollSize flushInterval) = Some (Inr s)"
  shows "(async_next env (Append line) s = Some (Inl NullDeref) \<longleftrightarrow>
      al_nextbuff s = None \<and> (\<exists>cur. al_curbuff s = Some cur \<and> FixedBuffer_avail cur \<le> length line))
    \<and> (length a < sz \<and> length b \<le> sz \<and> sz \<le> length a + length b \<and> sz \<le> length b + length c \<longrightarrow>
      async_run env [Append a, Append b, Append c] (AsyncLogging_new env basename rollSize flushInterval)
        = Some (Inl NullDeref))
    \<and> (al_phase s = AtTest l \<and> \<not> al_running s \<longrightarrow>
      (\<forall>es' s'. list_all (event_ok sz) es' \<and> async_run env es' s = Some (Inr s') \<longrightarrow>
        log_text s' = log_text s \<and> pending_text s' = pending_text s @ concat (appended es')))
    \<and> (length line < sz \<and> event_ok sz (Begin now garbage) \<longrightarrow>
      (\<exists>s. async_run env [Start, Begin now garbage, Append line, Stop, LoopTest]
            (AsyncLogging_new env basename rollSize flushInterval) = Some (Inr s)
         \<and> pending_text s = line
         \<and> (\<forall>es s'. async_run env es s = Some (Inr s') \<longrightarrow> log_text s' = [])))"
proof (intro conjI impI)
  let ?new = "AsyncLogging_new env basename rollSize flushInterval"
  have mem: "length (ae_mem env i) = sz" and sz: "sz < size_mod" for i
    using assms by (simp_all add: async_env_ok_def)
  have exact: "size_sub sz k = sz - k" if "k \<le> sz" for k using sz that by (intro size_sub_exact)
  have inv: "async_inv sz (concat (appended es)) s"
    using run_inv [OF assms(1) new_inv [OF assms(1)] assms(2) run] by auto
  then show "async_next env (Append line) s = Some (Inl NullDeref) \<longleftrightarrow>
      al_nextbuff s = None \<and> (\<exists>cur. al_curbuff s = Some cur \<and> FixedBuffer_avail cur \<le> length line)"
    by (auto simp: append_null async_inv_def frontend_def)
  show "\<forall>es' s'. list_all (event_ok sz) es' \<and> async_run env es' s = Some (Inr s') \<longrightarrow>
        log_text s' = log_text s \<and> pending_text s' = pending_text s @ concat (appended es')"
    if at: "al_phase s = AtTest l \<and> \<not> al_running s"
  proof (intro allI impI, elim conjE)
    fix es' s'
    assume ok: "list_all (event_ok sz) es'" and run': "async_run env es' s = Some (Inr s')"
    have "stopped (log_text s) s" using at inv by (auto simp: stopped_def async_inv_def resting_def)
    then have same: "log_text s' = log_text s" using stopped_run [OF run'] by (simp add: stopped_def)
    have "async_inv sz (concat (appended es) @ concat (appended es')) s'"
      using run_inv [OF assms(1) inv ok run'] by auto
    then show "log_text s' = log_text s \<and> pending_text s' = pending_text s @ concat (appended es')"
      using inv same unfolding async_inv_def by (metis append_assoc same_append_eq)
  qed
  show "async_run env [Append a, Append b, Append c] ?new = Some (Inl NullDeref)"
    if "length a < sz \<and> length b \<le> sz \<and> sz \<le> length a + length b \<and> sz \<le> length b + length c"
  proof -
    have "\<not> length b < sz - length a" "\<not> length c < sz - length b" "length a < sz" "length b \<le> sz"
      using that by auto
    then show ?thesis
      by (simp add: AsyncLogging_new_def AsyncLogging_append_def Let_def FixedBuffer_new_def FixedBuffer_bzero_def
          FixedBuffer_setCookie_def FixedBuffer_avail_def FixedBuffer_append_def mem exact)
  qed
  assume line: "length line < sz \<and> event_ok sz (Begin now garbage)"
  let ?es = "[Start, Begin now garbage, Append line, Stop, LoopTest]"
  have "\<exists>s lf. async_run env ?es ?new = Some (Inr s) \<and> al_phase s = Finished lf
      \<and> concat (lf_texts lf) = []"
    using line
    by (cases garbage) (simp add: lf_texts_def WriteFile_destroy_def WriteFile_new_def WriteFile_flush_def AsyncLogging_new_def AsyncLogging_append_def Let_def FixedBuffer_new_def
        FixedBuffer_bzero_def FixedBuffer_setCookie_def FixedBuffer_avail_def mem exact ThreadFunc_begin_def
        AsyncLogging_start_def AsyncLogging_stop_def AsyncLogging_destroy_def LogFile_flush_def with_lock_def
        LogFile_new_def LogFile_rollFile_def MutexLock_lock_def MutexLock_new_def)
  then obtain s lf where s: "async_run env ?es ?new = Some (Inr s)" "al_phase s = Finished lf"
      "concat (lf_texts lf) = []" by blast
  have "list_all (event_ok sz) ?es" using line by simp
  then have inv: "async_inv sz line s" using run_inv [OF assms(1) new_inv [OF assms(1)] _ s(1)] by auto
  then have "pending_text s = line" using s by (simp add: async_inv_def log_text_def)
  moreover have "log_text s' = []" if "async_run env es s = Some (Inr s')" for es s'
    using finished_run [OF that s(2)] s(3) by (simp add: log_text_def)
  ultimately show "\<exists>s. async_run env ?es ?new = Some (Inr s) \<and> pending_text s = line
      \<and> (\<forall>es s'. async_run env es s = Some (Inr s') \<longrightarrow> log_text s' = [])"
    using s(1) by blast
qed

theorem async_logging_loss_witness:
  "async_run example_async [Append ''abc'', Append ''de'', Append ''fg''] (AsyncLogging_new example_async ''log'' 100 3)
     = Some (Inl NullDeref)
   \<and> (\<exists>s. async_run example_async [Start, Begin 50 (0, 0, 0, 0), Append ''abc'', Stop]
        (AsyncLogging_new example_async ''log'' 100 3) = Some (Inr s) \<and> log_text s = [] \<and> pending_text s = ''abc''
      \<and> (\<forall>es' s'. list_all (event_ok 4) es' \<and> async_run example_async es' s = Some (Inr s') \<longrightarrow> log_text s' = []))"
proof -
  let ?es = "[Start, Begin 50 (0, 0, 0, 0), Append ''abc'', Stop]"
  have "\<exists>s l. async_run example_async ?es (AsyncLogging_new example_async ''log'' 100 3) = Some (Inr s)
      \<and> al_phase s = AtTest l \<and> \<not> al_running s \<and> log_text s = [] \<and> pending_text s = ''abc''"
    by (simp add: async_eval_defs example_async_def log_eval_defs log_text_def pending_text_def lf_texts_def buffer_texts_def
        WriteFile_destroy_def)
  then obtain s l where s: "async_run example_async ?es (AsyncLogging_new example_async ''log'' 100 3) = Some (Inr s)"
      "al_phase s = AtTest l" "\<not> al_running s" "log_text s = []" "pending_text s = ''abc''" by blast
  have "list_all (event_ok 4) ?es" by simp
  from async_logging_loss [OF example_async_ok this s(1), of "''abc''" "''abc''" "''de''" "''fg''" l 50 "(0, 0, 0, 0)"]
  show ?thesis using s by (simp del: async_run.simps)
qed

end
