(* ===== verification/LogPipeline.thy ===== *)
theory LogPipeline
  imports Logging AsyncLogging
begin

text \<open>
  The logging components put together, the way a server uses them: the output function of the
  loggers is AsyncLogging::append, several threads log, each with its own cached time and thread
  id, and the logging thread writes what they appended.
\<close>

section \<open>Log statements of several threads\<close>

record log_statement =
  st_time :: "int \<times> int"
  st_mem :: string
  st_level :: log_level
  st_errno :: "32 word"
  st_path :: string
  st_line :: "32 word"
  st_msg :: string

text \<open>LOG\_INFO << message and its like: the temporary logger, the message, the destructor.\<close>

definition run_statement ::
  "log_system \<Rightarrow> log_globals \<Rightarrow> log_statement \<Rightarrow> log_locals \<Rightarrow> (log_call list \<times> log_locals) result" where
  "run_statement sy g st lo =
     bindE (Impl_new sy g (st_time st) (st_mem st) (st_level st) (st_errno st) (SourceFile_literal (st_path st))
              (st_line st) lo) (\<lambda>(impl, lo').
     case Logger_destroy g (impl\<lparr>i_stream := LogStream_string (st_msg st) (i_stream impl)\<rparr>) of
       (calls, Inl f) \<Rightarrow> Inl f
     | (calls, Inr _) \<Rightarrow> Inr (calls, lo'))"

text \<open>The statements of the threads in the order of their output, with the locals of each thread.\<close>

fun run_program ::
  "(nat \<Rightarrow> log_system) \<Rightarrow> log_globals \<Rightarrow> (nat \<times> log_statement) list \<Rightarrow> (nat \<Rightarrow> log_locals) \<Rightarrow> log_call list result" where
  "run_program sys g [] locs = Inr []"
| "run_program sys g ((t, st) # prog) locs =
     bindE (run_statement (sys t) g st (locs t)) (\<lambda>(calls, lo).
     bindE (run_program sys g prog (locs(t := lo))) (\<lambda>rest. Inr (calls @ rest)))"

text \<open>What the output function has been given.\<close>

fun sent :: "output_func \<Rightarrow> log_call list \<Rightarrow> string list" where
  "sent out [] = []"
| "sent out (Output f str # calls) = (if f = out then str # sent out calls else sent out calls)"
| "sent out (Flush _ # calls) = sent out calls"

definition statement_text :: "log_system \<Rightarrow> log_globals \<Rightarrow> log_statement \<Rightarrow> string" where
  "statement_text sy g st =
     log_prefix sy g (st_time st) (st_level st) (st_errno st) @ st_msg st @ log_suffix (st_path st) (st_line st)"

definition statement_fits :: "log_system \<Rightarrow> log_globals \<Rightarrow> log_statement \<Rightarrow> log_locals \<Rightarrow> bool" where
  "statement_fits sy g st lo \<longleftrightarrow> st_level st \<noteq> FATAL
     \<and> statement_ok sy g (st_time st) (st_mem st) (st_level st) (st_errno st) (st_path st) (st_line st) (st_msg st) lo"

lemma run_statement_output:
  assumes "statement_fits sy g st lo"
  shows "\<exists>lo'. run_statement sy g st lo = Inr ([Output (g_output g) (statement_text sy g st)], lo')
    \<and> log_locals_ok sy g lo'"
  using assms
    statement_output [of sy g "st_time st" "st_mem st" "st_level st" "st_errno st" "st_path st" "st_line st" "st_msg st" lo]
  by (auto simp: run_statement_def statement_fits_def statement_text_def)

lemma fits_again: "statement_fits sy g st lo \<Longrightarrow> log_locals_ok sy g lo' \<Longrightarrow> statement_fits sy g st lo'"
  by (simp add: statement_fits_def statement_ok_def)

lemma fits_length: "statement_fits sy g st lo \<Longrightarrow> length (statement_text sy g st) \<le> kLargeBuffer"
  by (simp add: statement_fits_def statement_ok_def statement_text_def kSmallBuffer_def kLargeBuffer_def)

lemma run_program_output:
  "\<forall>(t, st) \<in> set prog. statement_fits (sys t) g st (locs t) \<Longrightarrow>
    \<exists>calls. run_program sys g prog locs = Inr calls
      \<and> sent (g_output g) calls = map (\<lambda>(t, st). statement_text (sys t) g st) prog"
proof (induction prog arbitrary: locs)
  case (Cons p prog)
  obtain t st where p: "p = (t, st)" by fastforce
  then obtain lo' where lo': "run_statement (sys t) g st (locs t)
      = Inr ([Output (g_output g) (statement_text (sys t) g st)], lo')" "log_locals_ok (sys t) g lo'"
    using run_statement_output [of "sys t" g st "locs t"] Cons.prems by auto
  have "statement_fits (sys u) g st' ((locs(t := lo')) u)" if "(u, st') \<in> set prog" for u st'
  proof -
    have "statement_fits (sys u) g st' (locs u)" using Cons.prems that by fastforce
    then show ?thesis using fits_again [OF _ lo'(2), of st' "locs t"] by (cases "u = t") simp_all
  qed
  then have "\<forall>(u, st') \<in> set prog. statement_fits (sys u) g st' ((locs(t := lo')) u)" by blast
  then obtain calls where "run_program sys g prog (locs(t := lo')) = Inr calls"
      "sent (g_output g) calls = map (\<lambda>(t, st). statement_text (sys t) g st) prog"
    using Cons.IH by blast
  then show ?case using p lo'(1) by simp
qed simp

lemma appended_ok:
  "(\<And>line. line \<in> set (appended es) \<Longrightarrow> length line \<le> sz) \<Longrightarrow>
    (\<And>now garbage. Begin now garbage \<in> set es \<Longrightarrow> event_ok sz (Begin now garbage)) \<Longrightarrow> list_all (event_ok sz) es"
proof (induction es)
  case (Cons e es)
  then show ?case by (cases e) auto
qed simp

end
