(* ===== verification/Channel.thy ===== *)
theory Channel
  imports Printf Timestamp
begin

text \<open>
  net/Channel.h and net/Channel.cc: the events a descriptor waits for and the dispatch of the
  events that have occurred. EventLoop has no declaration in the repository, so that what it is
  told is recorded in a list of calls, together with the callbacks and the messages; what it
  answers is an argument. A callback is a name; the function \<open>run\<close> says what calling it does to the
  channel. The weak pointer tie\_ is the number of the owner, and an argument says which owners
  still exist.
\<close>

definition POLLIN :: "32 word" where "POLLIN = 0x0001"

definition POLLPRI :: "32 word" where "POLLPRI = 0x0002"

definition POLLOUT :: "32 word" where "POLLOUT = 0x0004"

definition POLLERR :: "32 word" where "POLLERR = 0x0008"

definition POLLHUP :: "32 word" where "POLLHUP = 0x0010"

definition POLLNVAL :: "32 word" where "POLLNVAL = 0x0020"

definition POLLRDHUP :: "32 word" where "POLLRDHUP = 0x2000"

definition kNoneEvent :: "32 word" where
  "kNoneEvent = 0"

definition kReadEvent :: "32 word" where
  "kReadEvent = POLLIN OR POLLPRI"

definition kWriteEvent :: "32 word" where
  "kWriteEvent = POLLOUT"

record 'c channel =
  ch_fd :: int
  ch_index :: int
  ch_events :: "32 word"
  ch_revents :: "32 word"
  ch_logHup :: bool
  ch_tie :: "nat option"
  ch_tied :: bool
  ch_eventHandling :: bool
  ch_addedToLoop :: bool
  readCallback :: "'c option"
  writeCallback :: "'c option"
  closeCallback :: "'c option"
  errorCallback :: "'c option"

datatype 'c channel_call =
    UpdateChannel
  | RemoveChannel
  | LogTrace string
  | LogWarn string
  | CallClose 'c
  | CallError 'c
  | CallRead 'c timestamp
  | CallWrite 'c

section \<open>Construction and settings\<close>

definition Channel_new :: "int \<Rightarrow> 'c channel" where
  "Channel_new fd =
     \<lparr>ch_fd = fd, ch_index = - 1, ch_events = 0, ch_revents = 0, ch_logHup = True, ch_tie = None,
      ch_tied = False, ch_eventHandling = False, ch_addedToLoop = False, readCallback = None,
      writeCallback = None, closeCallback = None, errorCallback = None\<rparr>"

text \<open>The arguments: whether the thread is the loop's, and whether the loop still knows the channel.\<close>

definition Channel_destroy :: "bool \<Rightarrow> bool \<Rightarrow> 'c channel \<Rightarrow> unit result" where
  "Channel_destroy isInLoopThread hasChannel ch =
     assert_then (\<not> ch_eventHandling ch) (assert_then (\<not> ch_addedToLoop ch)
       (if isInLoopThread then assert_then (\<not> hasChannel) (Inr ()) else Inr ()))"

definition Channel_setReadCallback :: "'c option \<Rightarrow> 'c channel \<Rightarrow> 'c channel" where
  "Channel_setReadCallback cb ch = ch\<lparr>readCallback := cb\<rparr>"

definition Channel_setWriteCallback :: "'c option \<Rightarrow> 'c channel \<Rightarrow> 'c channel" where
  "Channel_setWriteCallback cb ch = ch\<lparr>writeCallback := cb\<rparr>"

definition Channel_setErrorCallback :: "'c option \<Rightarrow> 'c channel \<Rightarrow> 'c channel" where
  "Channel_setErrorCallback cb ch = ch\<lparr>errorCallback := cb\<rparr>"

definition Channel_setCloseCallback :: "'c option \<Rightarrow> 'c channel \<Rightarrow> 'c channel" where
  "Channel_setCloseCallback cb ch = ch\<lparr>closeCallback := cb\<rparr>"

text \<open>The overloads that take an rvalue move the callback instead of copying it; the channel has the same one then.\<close>

definition Channel_setReadCallback_move :: "'c option \<Rightarrow> 'c channel \<Rightarrow> 'c channel" where
  "Channel_setReadCallback_move cb ch = ch\<lparr>readCallback := cb\<rparr>"

definition Channel_setWriteCallback_move :: "'c option \<Rightarrow> 'c channel \<Rightarrow> 'c channel" where
  "Channel_setWriteCallback_move cb ch = ch\<lparr>writeCallback := cb\<rparr>"

definition Channel_setCloseCallback_move :: "'c option \<Rightarrow> 'c channel \<Rightarrow> 'c channel" where
  "Channel_setCloseCallback_move cb ch = ch\<lparr>closeCallback := cb\<rparr>"

definition Channel_setErrorCallback_move :: "'c option \<Rightarrow> 'c channel \<Rightarrow> 'c channel" where
  "Channel_setErrorCallback_move cb ch = ch\<lparr>errorCallback := cb\<rparr>"

definition Channel_tie :: "nat \<Rightarrow> 'c channel \<Rightarrow> 'c channel" where
  "Channel_tie obj ch = ch\<lparr>ch_tie := Some obj, ch_tied := True\<rparr>"

definition Channel_fd :: "'c channel \<Rightarrow> int" where
  "Channel_fd ch = ch_fd ch"

definition Channel_events :: "'c channel \<Rightarrow> 32 word" where
  "Channel_events ch = ch_events ch"

definition Channel_set_revents :: "32 word \<Rightarrow> 'c channel \<Rightarrow> 'c channel" where
  "Channel_set_revents revents ch = ch\<lparr>ch_revents := revents\<rparr>"

definition Channel_isNoneEvent :: "'c channel \<Rightarrow> bool" where
  "Channel_isNoneEvent ch = (ch_events ch = kNoneEvent)"

definition Channel_isWriting :: "'c channel \<Rightarrow> bool" where
  "Channel_isWriting ch = (ch_events ch AND kWriteEvent \<noteq> 0)"

definition Channel_index :: "'c channel \<Rightarrow> int" where
  "Channel_index ch = ch_index ch"

definition Channel_set_index :: "int \<Rightarrow> 'c channel \<Rightarrow> 'c channel" where
  "Channel_set_index idx ch = ch\<lparr>ch_index := idx\<rparr>"

definition Channel_doNotLogHup :: "'c channel \<Rightarrow> 'c channel" where
  "Channel_doNotLogHup ch = ch\<lparr>ch_logHup := False\<rparr>"

section \<open>Interest\<close>

definition Channel_update :: "'c channel \<Rightarrow> 'c channel_call list \<times> 'c channel" where
  "Channel_update ch = ([UpdateChannel], ch\<lparr>ch_addedToLoop := True\<rparr>)"

definition Channel_enableReading :: "'c channel \<Rightarrow> 'c channel_call list \<times> 'c channel" where
  "Channel_enableReading ch = Channel_update (ch\<lparr>ch_events := ch_events ch OR kReadEvent\<rparr>)"

definition Channel_disableReading :: "'c channel \<Rightarrow> 'c channel_call list \<times> 'c channel" where
  "Channel_disableReading ch = Channel_update (ch\<lparr>ch_events := ch_events ch OR NOT kReadEvent\<rparr>)"

definition Channel_enableWriting :: "'c channel \<Rightarrow> 'c channel_call list \<times> 'c channel" where
  "Channel_enableWriting ch = Channel_update (ch\<lparr>ch_events := ch_events ch OR kWriteEvent\<rparr>)"

definition Channel_disableWriting :: "'c channel \<Rightarrow> 'c channel_call list \<times> 'c channel" where
  "Channel_disableWriting ch = Channel_update (ch\<lparr>ch_events := ch_events ch OR NOT kWriteEvent\<rparr>)"

definition Channel_disableAll :: "'c channel \<Rightarrow> 'c channel_call list \<times> 'c channel" where
  "Channel_disableAll ch = Channel_update (ch\<lparr>ch_events := kNoneEvent\<rparr>)"

definition Channel_remove :: "'c channel \<Rightarrow> ('c channel_call list \<times> 'c channel) result" where
  "Channel_remove ch =
     assert_then (Channel_isNoneEvent ch) (Inr ([RemoveChannel], ch\<lparr>ch_addedToLoop := False\<rparr>))"

section \<open>Dispatch\<close>

definition Channel_reventsToString :: "'c channel \<Rightarrow> string" where
  "Channel_reventsToString ch =
     fmt_d False 0 (ch_fd ch) @ '': ''
       @ (if ch_revents ch AND POLLIN \<noteq> 0 then ''IN '' else [])
       @ (if ch_revents ch AND POLLPRI \<noteq> 0 then ''PRI '' else [])
       @ (if ch_revents ch AND POLLOUT \<noteq> 0 then ''OUT '' else [])
       @ (if ch_revents ch AND POLLHUP \<noteq> 0 then ''HUP '' else [])
       @ (if ch_revents ch AND POLLRDHUP \<noteq> 0 then ''RDHUP '' else [])
       @ (if ch_revents ch AND POLLERR \<noteq> 0 then ''ERR '' else [])
       @ (if ch_revents ch AND POLLNVAL \<noteq> 0 then ''NVAL '' else [])"

text \<open>Calling a callback that is set, after the calls so far.\<close>

definition call_set :: "('c \<Rightarrow> 'c channel \<Rightarrow> 'c channel) \<Rightarrow> ('c \<Rightarrow> 'c channel_call) \<Rightarrow> 'c option
    \<Rightarrow> 'c channel_call list \<times> 'c channel \<Rightarrow> 'c channel_call list \<times> 'c channel" where
  "call_set run label cb st =
     (case cb of Some c \<Rightarrow> (fst st @ [label c], run c (snd st)) | None \<Rightarrow> st)"

text \<open>The five tests of handleEventWithGuard, each on what the ones before it have left.\<close>

definition handle_hup :: "('c \<Rightarrow> 'c channel \<Rightarrow> 'c channel) \<Rightarrow> 'c channel_call list \<times> 'c channel
    \<Rightarrow> 'c channel_call list \<times> 'c channel" where
  "handle_hup run st =
     (if ch_revents (snd st) AND POLLHUP \<noteq> 0 \<and> \<not> ch_revents (snd st) AND POLLIN \<noteq> 0
      then call_set run CallClose (closeCallback (snd st))
             (fst st @ (if ch_logHup (snd st) then [LogWarn ''Channel::handle_event() POLLHUP''] else []), snd st)
      else st)"

definition handle_nval :: "'c channel_call list \<times> 'c channel \<Rightarrow> 'c channel_call list \<times> 'c channel" where
  "handle_nval st =
     (if ch_revents (snd st) AND POLLNVAL \<noteq> 0
      then (fst st @ [LogWarn ''Channel::handle_event() POLLNVAL''], snd st) else st)"

definition handle_error :: "('c \<Rightarrow> 'c channel \<Rightarrow> 'c channel) \<Rightarrow> 'c channel_call list \<times> 'c channel
    \<Rightarrow> 'c channel_call list \<times> 'c channel" where
  "handle_error run st =
     (if ch_revents (snd st) AND (POLLERR OR POLLNVAL) \<noteq> 0
      then call_set run CallError (errorCallback (snd st)) st else st)"

definition handle_read :: "('c \<Rightarrow> 'c channel \<Rightarrow> 'c channel) \<Rightarrow> timestamp \<Rightarrow> 'c channel_call list \<times> 'c channel
    \<Rightarrow> 'c channel_call list \<times> 'c channel" where
  "handle_read run receiveTime st =
     (if ch_revents (snd st) AND (POLLIN OR POLLPRI OR POLLRDHUP) \<noteq> 0
      then call_set run (\<lambda>c. CallRead c receiveTime) (readCallback (snd st)) st else st)"

definition handle_write :: "('c \<Rightarrow> 'c channel \<Rightarrow> 'c channel) \<Rightarrow> 'c channel_call list \<times> 'c channel
    \<Rightarrow> 'c channel_call list \<times> 'c channel" where
  "handle_write run st =
     (if ch_revents (snd st) AND POLLOUT \<noteq> 0
      then call_set run CallWrite (writeCallback (snd st)) st else st)"

definition Channel_handleEventWithGuard ::
  "('c \<Rightarrow> 'c channel \<Rightarrow> 'c channel) \<Rightarrow> bool \<Rightarrow> timestamp \<Rightarrow> 'c channel \<Rightarrow> 'c channel_call list \<times> 'c channel" where
  "Channel_handleEventWithGuard run trace receiveTime ch =
     (let ch = ch\<lparr>ch_eventHandling := True\<rparr>;
          st = (if trace then [LogTrace (Channel_reventsToString ch)] else [], ch);
          st = handle_write run (handle_read run receiveTime (handle_error run (handle_nval (handle_hup run st)))) in
      (fst st, (snd st)\<lparr>ch_eventHandling := False\<rparr>))"

definition Channel_handleEvent ::
  "('c \<Rightarrow> 'c channel \<Rightarrow> 'c channel) \<Rightarrow> bool \<Rightarrow> (nat \<Rightarrow> bool) \<Rightarrow> timestamp \<Rightarrow> 'c channel
     \<Rightarrow> 'c channel_call list \<times> 'c channel" where
  "Channel_handleEvent run trace alive receiveTime ch =
     (if ch_tied ch
      then if (case ch_tie ch of Some obj \<Rightarrow> alive obj | None \<Rightarrow> False)
           then Channel_handleEventWithGuard run trace receiveTime ch else ([], ch)
      else Channel_handleEventWithGuard run trace receiveTime ch)"

section \<open>Properties\<close>

text \<open>Callbacks that leave the events that occurred and the set callbacks alone.\<close>

definition same_events :: "'c channel \<Rightarrow> 'c channel \<Rightarrow> bool" where
  "same_events ch ch' \<longleftrightarrow> ch_revents ch' = ch_revents ch \<and> readCallback ch' = readCallback ch
     \<and> writeCallback ch' = writeCallback ch \<and> closeCallback ch' = closeCallback ch \<and> errorCallback ch' = errorCallback ch"

definition well_behaved :: "('c \<Rightarrow> 'c channel \<Rightarrow> 'c channel) \<Rightarrow> bool" where
  "well_behaved run \<longleftrightarrow> (\<forall>c ch. same_events ch (run c ch))"

text \<open>The callbacks that a set of occurred events asks for, in the order of their calls.\<close>

definition asked :: "'c channel \<Rightarrow> 32 word \<Rightarrow> bool" where
  "asked ch m \<longleftrightarrow> ch_revents ch AND m \<noteq> 0"

definition set_calls :: "('c \<Rightarrow> 'c channel_call) \<Rightarrow> 'c option \<Rightarrow> 'c channel_call list" where
  "set_calls label cb = (case cb of Some c \<Rightarrow> [label c] | None \<Rightarrow> [])"

definition callbacks_for :: "timestamp \<Rightarrow> 'c channel \<Rightarrow> 'c channel_call list" where
  "callbacks_for ts ch =
     (if asked ch POLLHUP \<and> \<not> asked ch POLLIN then set_calls CallClose (closeCallback ch) else [])
      @ (if asked ch POLLERR \<or> asked ch POLLNVAL then set_calls CallError (errorCallback ch) else [])
      @ (if asked ch POLLIN \<or> asked ch POLLPRI \<or> asked ch POLLRDHUP
         then set_calls (\<lambda>c. CallRead c ts) (readCallback ch) else [])
      @ (if asked ch POLLOUT then set_calls CallWrite (writeCallback ch) else [])"

fun is_callback :: "'c channel_call \<Rightarrow> bool" where
  "is_callback (CallClose _) = True"
| "is_callback (CallError _) = True"
| "is_callback (CallRead _ _) = True"
| "is_callback (CallWrite _) = True"
| "is_callback _ = False"

lemma asked_or: "asked ch (a OR b) \<longleftrightarrow> asked ch a \<or> asked ch b"
  unfolding asked_def by (metis (no_types, lifting) bit.conj_disj_distrib or_eq_0_iff)

text \<open>A stage adds its callbacks and keeps the events.\<close>

definition stage :: "'c channel_call list \<Rightarrow> 'c channel_call list \<times> 'c channel
    \<Rightarrow> 'c channel_call list \<times> 'c channel \<Rightarrow> bool" where
  "stage calls st st' \<longleftrightarrow> filter is_callback (fst st') = filter is_callback (fst st) @ calls
     \<and> same_events (snd st) (snd st')"

lemma stage_trans: "stage a st st1 \<Longrightarrow> stage b st1 st2 \<Longrightarrow> stage (a @ b) st st2"
  by (simp add: stage_def same_events_def)

lemma call_set_stage:
  "well_behaved run \<Longrightarrow> (\<And>c. is_callback (label c)) \<Longrightarrow> filter is_callback extra = []
    \<Longrightarrow> stage (set_calls label cb) st (call_set run label cb (fst st @ extra, snd st))"
  by (cases cb) (auto simp: stage_def call_set_def set_calls_def well_behaved_def same_events_def)

lemma stage_refl: "stage [] st st"
  by (simp add: stage_def same_events_def)

lemma stages:
  assumes "well_behaved run"
  shows "stage (if asked (snd st) POLLHUP \<and> \<not> asked (snd st) POLLIN then set_calls CallClose (closeCallback (snd st)) else [])
      st (handle_hup run st)"
    and "stage [] st (handle_nval st)"
    and "stage (if asked (snd st) POLLERR \<or> asked (snd st) POLLNVAL then set_calls CallError (errorCallback (snd st)) else [])
      st (handle_error run st)"
    and "stage (if asked (snd st) POLLIN \<or> asked (snd st) POLLPRI \<or> asked (snd st) POLLRDHUP
        then set_calls (\<lambda>c. CallRead c ts) (readCallback (snd st)) else []) st (handle_read run ts st)"
    and "stage (if asked (snd st) POLLOUT then set_calls CallWrite (writeCallback (snd st)) else []) st (handle_write run st)"
proof -
  note c = call_set_stage [OF assms]
  show "stage (if asked (snd st) POLLHUP \<and> \<not> asked (snd st) POLLIN then set_calls CallClose (closeCallback (snd st)) else [])
      st (handle_hup run st)"
    using c [of CallClose "if ch_logHup (snd st) then [LogWarn ''Channel::handle_event() POLLHUP''] else []"]
    by (simp add: stage_refl handle_hup_def asked_def)
  show "stage [] st (handle_nval st)"
    by (simp add: handle_nval_def stage_def same_events_def)
  show "stage (if asked (snd st) POLLERR \<or> asked (snd st) POLLNVAL then set_calls CallError (errorCallback (snd st)) else [])
      st (handle_error run st)"
    using c [of CallError "[]"] asked_or [of "snd st" POLLERR POLLNVAL]
    by (simp add: stage_refl handle_error_def asked_def)
  show "stage (if asked (snd st) POLLIN \<or> asked (snd st) POLLPRI \<or> asked (snd st) POLLRDHUP
        then set_calls (\<lambda>c. CallRead c ts) (readCallback (snd st)) else []) st (handle_read run ts st)"
    using c [of "\<lambda>c. CallRead c ts" "[]"] asked_or [of "snd st" POLLIN "POLLPRI OR POLLRDHUP"]
      asked_or [of "snd st" POLLPRI POLLRDHUP]
    by (simp add: stage_refl handle_read_def asked_def)
  show "stage (if asked (snd st) POLLOUT then set_calls CallWrite (writeCallback (snd st)) else []) st (handle_write run st)"
    using c [of CallWrite "[]"] by (simp add: stage_refl handle_write_def asked_def)
qed

lemma guarded_callbacks:
  fixes ch :: "'c channel"
  assumes run: "well_behaved run"
  shows "filter is_callback (fst (Channel_handleEventWithGuard run trace ts ch)) = callbacks_for ts ch
    \<and> \<not> ch_eventHandling (snd (Channel_handleEventWithGuard run trace ts ch))"
proof -
  define st :: "'c channel_call list \<times> 'c channel" where "st = (if trace then [LogTrace (Channel_reventsToString (ch\<lparr>ch_eventHandling := True\<rparr>))] else [],
    ch\<lparr>ch_eventHandling := True\<rparr>)"
  define st1 where "st1 = handle_hup run st"
  define st2 where "st2 = handle_nval st1"
  define st3 where "st3 = handle_error run st2"
  define st4 where "st4 = handle_read run ts st3"
  define st5 where "st5 = handle_write run st4"
  have "same_events ch (snd st)" "filter is_callback (fst st) = []" by (simp_all add: st_def same_events_def)
  moreover have "stage (if asked (snd st) POLLHUP \<and> \<not> asked (snd st) POLLIN
      then set_calls CallClose (closeCallback (snd st)) else []) st st1" "stage [] st1 st2"
    "stage (if asked (snd st2) POLLERR \<or> asked (snd st2) POLLNVAL then set_calls CallError (errorCallback (snd st2)) else []) st2 st3"
    "stage (if asked (snd st3) POLLIN \<or> asked (snd st3) POLLPRI \<or> asked (snd st3) POLLRDHUP
        then set_calls (\<lambda>c. CallRead c ts) (readCallback (snd st3)) else []) st3 st4"
    "stage (if asked (snd st4) POLLOUT then set_calls CallWrite (writeCallback (snd st4)) else []) st4 st5"
    unfolding st1_def st2_def st3_def st4_def st5_def by (rule stages [OF run])+
  moreover have "Channel_handleEventWithGuard run trace ts ch = (fst st5, (snd st5)\<lparr>ch_eventHandling := False\<rparr>)"
    by (simp add: Channel_handleEventWithGuard_def Let_def st_def st1_def st2_def st3_def st4_def st5_def)
  ultimately show ?thesis
    unfolding stage_def same_events_def callbacks_for_def asked_def by simp
qed

text \<open>What a word keeps of a mask after bits outside it have been set.\<close>

lemma or_not_mask:
  fixes x m :: "32 word"
  shows "(x OR NOT m) AND m = x AND m" and "n AND m = 0 \<Longrightarrow> (x OR NOT m) AND n = n"
proof -
  show "(x OR NOT m) AND m = x AND m" by (rule bit_word_eqI) (auto simp: bit_simps)
  assume nm: "n AND m = 0"
  show "(x OR NOT m) AND n = n"
  proof (rule bit_word_eqI)
    fix i assume "i < LENGTH(32)"
    have "bit (n AND m) i = False" using nm by simp
    then show "bit ((x OR NOT m) AND n) i = bit n i" using \<open>i < LENGTH(32)\<close> by (auto simp: bit_simps)
  qed
qed



end
