(* ===== verification/Sockets.thy ===== *)
theory Sockets
  imports Endian Printf
begin

text \<open>
  net/SocketsOps.h, net/SocketsOps.cc, net/Socket.h, net/Socket.cc, net/InetAddress.h and
  net/InetAddress.cc, in the configuration that the build selects (no VALGRIND, accept4 present),
  with the functions that VALGRIND and NO\_ACCEPT4 change modelled beside them.
  The kernel is a parameter: a function from a system call and the kernel's state to the result
  and the next state. inet\_ntop is written out; inet\_pton is a parameter.
\<close>

section \<open>The kernel\<close>

record sockaddr_in =
  sin_family :: "16 word"
  sin_port :: "16 word"
  sin_addr :: "32 word"

datatype sock_option = TCP_NODELAY | SO_KEEPALIVE | SO_REUSEADDR | SO_REUSEPORT

datatype sys_call =
    Sys_socket
  | Sys_bind int sockaddr_in
  | Sys_listen int nat
  | Sys_accept int
  | Sys_accept4 int
  | Sys_connect int sockaddr_in
  | Sys_read int nat
  | Sys_readv int "nat list"
  | Sys_write int "byte list"
  | Sys_close int
  | Sys_shutdown_wr int
  | Sys_setsockopt int sock_option int
  | Sys_getsockopt_error int
  | Sys_getsockname int
  | Sys_getpeername int
  | Sys_open_dev_null
  | Sys_socket_plain
  | Sys_fcntl_getfl int
  | Sys_fcntl_setfl int int
  | Sys_fcntl_getfd int
  | Sys_fcntl_setfd int int

text \<open>
  The return value, errno after the call, the bytes stored by a reading call, and the address or
  the int stored through a pointer when one is stored.
\<close>

record sys_result =
  sr_ret :: int
  sr_errno :: int
  sr_bytes :: "byte list"
  sr_addr :: "sockaddr_in option"
  sr_value :: int

type_synonym 'k kernel = "sys_call \<Rightarrow> 'k \<Rightarrow> sys_result \<times> 'k"

definition AF_INET :: "16 word" where
  "AF_INET = 2"

definition INET_ADDRSTRLEN :: nat where
  "INET_ADDRSTRLEN = 16"

definition SOMAXCONN :: nat where
  "SOMAXCONN = 128"

text \<open>A zeroed address.\<close>

definition sockaddr_zero :: sockaddr_in where
  "sockaddr_zero = \<lparr>sin_family = 0, sin_port = 0, sin_addr = 0\<rparr>"

section \<open>SocketsOps\<close>

text \<open>Errors of the calls behind the functions called OrDie are ignored by the code.\<close>

definition sockets_createNonBlockingOrDie :: "'k kernel \<Rightarrow> 'k \<Rightarrow> int \<times> 'k" where
  "sockets_createNonBlockingOrDie sys k = (let (r, k') = sys Sys_socket k in (sr_ret r, k'))"

text \<open>
  Without accept4 the two flags are set by fcntl; its results are used unchecked. CLOEXEC in the source is
  not a macro of the system and is read as FD\_CLOEXEC. The result is errno after the last call.
\<close>

definition O_NONBLOCK :: int where
  "O_NONBLOCK = 2048"

definition FD_CLOEXEC :: int where
  "FD_CLOEXEC = 1"

definition sockets_setNonBlockAndCloseOnExec :: "'k kernel \<Rightarrow> int \<Rightarrow> 'k \<Rightarrow> int \<times> 'k" where
  "sockets_setNonBlockAndCloseOnExec sys sockfd k =
     (let (flags, k) = sys (Sys_fcntl_getfl sockfd) k;
          (_, k) = sys (Sys_fcntl_setfl sockfd (sr_ret flags OR O_NONBLOCK)) k;
          (flags, k) = sys (Sys_fcntl_getfd sockfd) k;
          (ret, k) = sys (Sys_fcntl_setfd sockfd (sr_ret flags OR FD_CLOEXEC)) k in
      (sr_errno ret, k))"

definition sockets_createNonBlockingOrDie_valgrind :: "'k kernel \<Rightarrow> 'k \<Rightarrow> int \<times> 'k" where
  "sockets_createNonBlockingOrDie_valgrind sys k =
     (let (r, k) = sys Sys_socket_plain k; (_, k) = sockets_setNonBlockAndCloseOnExec sys (sr_ret r) k in (sr_ret r, k))"

definition sockets_bindOrDie :: "'k kernel \<Rightarrow> int \<Rightarrow> sockaddr_in \<Rightarrow> 'k \<Rightarrow> 'k" where
  "sockets_bindOrDie sys sockfd addr k = snd (sys (Sys_bind sockfd addr) k)"

definition sockets_listenOrDie :: "'k kernel \<Rightarrow> int \<Rightarrow> 'k \<Rightarrow> 'k" where
  "sockets_listenOrDie sys sockfd k = snd (sys (Sys_listen sockfd SOMAXCONN) k)"

text \<open>
  accept: the descriptor, the address after the call, and errno. The branch for an error assigns
  to errno what it has read from it.
\<close>

definition sockets_accept :: "'k kernel \<Rightarrow> int \<Rightarrow> sockaddr_in \<Rightarrow> 'k \<Rightarrow> (int \<times> sockaddr_in \<times> int) \<times> 'k" where
  "sockets_accept sys sockfd addr k =
     (let (r, k') = sys (Sys_accept4 sockfd) k in
      ((sr_ret r, (case sr_addr r of Some a \<Rightarrow> a | None \<Rightarrow> addr), sr_errno r), k'))"

definition sockets_accept_no_accept4 ::
  "'k kernel \<Rightarrow> int \<Rightarrow> sockaddr_in \<Rightarrow> 'k \<Rightarrow> (int \<times> sockaddr_in \<times> int) \<times> 'k" where
  "sockets_accept_no_accept4 sys sockfd addr k =
     (let (r, k) = sys (Sys_accept sockfd) k;
          (errno, k) = sockets_setNonBlockAndCloseOnExec sys (sr_ret r) k in
      ((sr_ret r, (case sr_addr r of Some a \<Rightarrow> a | None \<Rightarrow> addr), errno), k))"

text \<open>
  A failed accept of this kind hides its errno: fcntl on -1 sets EBADF, so that the caller's test for EMFILE,
  on which its spare descriptor depends, never succeeds.
\<close>

lemma accept_hides_errno:
  assumes "sr_ret (fst (sys (Sys_accept sockfd) k)) = - 1"
    and "\<forall>flags k. sr_errno (fst (sys (Sys_fcntl_setfd (- 1) flags) k)) = 9"
  shows "fst (fst (sockets_accept_no_accept4 sys sockfd addr k)) = - 1
    \<and> snd (snd (fst (sockets_accept_no_accept4 sys sockfd addr k))) = 9"
  using assms by (auto simp: sockets_accept_no_accept4_def sockets_setNonBlockAndCloseOnExec_def Let_def
      split: prod.split) (metis fst_conv)

definition sockets_connect :: "'k kernel \<Rightarrow> int \<Rightarrow> sockaddr_in \<Rightarrow> 'k \<Rightarrow> (int \<times> int) \<times> 'k" where
  "sockets_connect sys sockfd addr k =
     (let (r, k') = sys (Sys_connect sockfd addr) k in ((sr_ret r, sr_errno r), k'))"

definition sockets_read :: "'k kernel \<Rightarrow> int \<Rightarrow> nat \<Rightarrow> 'k \<Rightarrow> sys_result \<times> 'k" where
  "sockets_read sys sockfd count k = sys (Sys_read sockfd count) k"

definition sockets_readv :: "'k kernel \<Rightarrow> int \<Rightarrow> nat list \<Rightarrow> 'k \<Rightarrow> sys_result \<times> 'k" where
  "sockets_readv sys sockfd iov k = sys (Sys_readv sockfd iov) k"

definition sockets_write :: "'k kernel \<Rightarrow> int \<Rightarrow> byte list \<Rightarrow> 'k \<Rightarrow> sys_result \<times> 'k" where
  "sockets_write sys sockfd buf k = sys (Sys_write sockfd buf) k"

definition sockets_close :: "'k kernel \<Rightarrow> int \<Rightarrow> 'k \<Rightarrow> 'k" where
  "sockets_close sys sockfd k = snd (sys (Sys_close sockfd) k)"

definition sockets_shutdownWrite :: "'k kernel \<Rightarrow> int \<Rightarrow> 'k \<Rightarrow> 'k" where
  "sockets_shutdownWrite sys sockfd k = snd (sys (Sys_shutdown_wr sockfd) k)"

text \<open>
  inet\_ntop for AF\_INET: the text of the four bytes that its pointer points to, if it fits with
  its terminator; otherwise nothing is stored.
\<close>

definition dotted :: "byte list \<Rightarrow> string" where
  "dotted bs = nat_chars (unat (bs ! 0)) @ ''.'' @ nat_chars (unat (bs ! 1)) @ ''.''
     @ nat_chars (unat (bs ! 2)) @ ''.'' @ nat_chars (unat (bs ! 3))"

definition inet_ntop :: "byte list \<Rightarrow> nat \<Rightarrow> string \<Rightarrow> string" where
  "inet_ntop mem n buf =
     (if length (dotted mem) < n then overwrite 0 (dotted mem @ [CHR 0x00]) buf else buf)"

text \<open>The bytes of an address object in memory, which is what sockaddr\_cast leads to.\<close>

definition sockaddr_memory :: "byte_order \<Rightarrow> sockaddr_in \<Rightarrow> byte list" where
  "sockaddr_memory ho addr =
     memory_image ho (sin_family addr) @ memory_image ho (sin_port addr) @ memory_image ho (sin_addr addr)
       @ replicate 8 0"

definition sockets_toIp :: "byte_order \<Rightarrow> string \<Rightarrow> nat \<Rightarrow> sockaddr_in \<Rightarrow> string result" where
  "sockets_toIp ho buf n addr =
     assert_then (n > INET_ADDRSTRLEN) (Inr (inet_ntop (sockaddr_memory ho addr) n buf))"

definition sockets_toIpPort :: "byte_order \<Rightarrow> string \<Rightarrow> nat \<Rightarrow> sockaddr_in \<Rightarrow> string result" where
  "sockets_toIpPort ho buf n addr =
     assert_then (n \<ge> INET_ADDRSTRLEN)
       (let buf = inet_ntop (sockaddr_memory ho addr) n buf;
            last = length (c_string buf);
            port = networkToHost16 ho (sin_port addr) in
        assert_then (n > last)
          (Inr (overwrite last (snprintf_chars (n - last) ('':'' @ nat_chars (unat port))) buf)))"

text \<open>inet\_pton gives the four bytes it stores, or None when the text is not an address.\<close>

definition sockets_fromIpPort ::
  "byte_order \<Rightarrow> (string \<Rightarrow> byte list option) \<Rightarrow> string \<Rightarrow> 16 word \<Rightarrow> sockaddr_in \<Rightarrow> sockaddr_in" where
  "sockets_fromIpPort ho inet_pton ip port addr =
     (let addr' = addr\<lparr>sin_family := AF_INET, sin_port := hostToNetwork16 ho port\<rparr> in
      case inet_pton ip of Some bs \<Rightarrow> addr'\<lparr>sin_addr := memory_load ho bs\<rparr> | None \<Rightarrow> addr')"

definition sockets_getSocketError :: "'k kernel \<Rightarrow> int \<Rightarrow> 'k \<Rightarrow> int \<times> 'k" where
  "sockets_getSocketError sys sockfd k =
     (let (r, k') = sys (Sys_getsockopt_error sockfd) k in
      (if sr_ret r < 0 then sr_errno r else sr_value r, k'))"

definition sockets_getLocalAddr :: "'k kernel \<Rightarrow> int \<Rightarrow> 'k \<Rightarrow> sockaddr_in \<times> 'k" where
  "sockets_getLocalAddr sys sockfd k =
     (let (r, k') = sys (Sys_getsockname sockfd) k in
      (case sr_addr r of Some a \<Rightarrow> a | None \<Rightarrow> sockaddr_zero, k'))"

definition sockets_getPeerAddr :: "'k kernel \<Rightarrow> int \<Rightarrow> 'k \<Rightarrow> sockaddr_in \<times> 'k" where
  "sockets_getPeerAddr sys sockfd k =
     (let (r, k') = sys (Sys_getpeername sockfd) k in
      (case sr_addr r of Some a \<Rightarrow> a | None \<Rightarrow> sockaddr_zero, k'))"

definition sockets_isSelfConnect :: "'k kernel \<Rightarrow> int \<Rightarrow> 'k \<Rightarrow> bool \<times> 'k" where
  "sockets_isSelfConnect sys sockfd k =
     (let (local, k1) = sockets_getLocalAddr sys sockfd k;
          (peer, k2) = sockets_getPeerAddr sys sockfd k1 in
      (sin_addr local = sin_addr peer \<and> sin_port local = sin_port peer, k2))"

section \<open>InetAddress\<close>

type_synonym inet_address = sockaddr_in

definition INADDR_ANY :: "32 word" where
  "INADDR_ANY = 0"

definition INADDR_LOOPBACK :: "32 word" where
  "INADDR_LOOPBACK = 0x7f000001"

definition InetAddress_ip_port :: "byte_order \<Rightarrow> (string \<Rightarrow> byte list option) \<Rightarrow> string \<Rightarrow> 16 word \<Rightarrow> inet_address" where
  "InetAddress_ip_port ho inet_pton ip_addr port = sockets_fromIpPort ho inet_pton ip_addr port sockaddr_zero"

definition InetAddress_port :: "byte_order \<Rightarrow> 16 word \<Rightarrow> bool \<Rightarrow> inet_address" where
  "InetAddress_port ho port loopbackonly =
     sockaddr_zero\<lparr>sin_family := AF_INET, sin_port := hostToNetwork16 ho port,
       sin_addr := (if loopbackonly then hostToNetwork32 ho INADDR_LOOPBACK else hostToNetwork32 ho INADDR_ANY)\<rparr>"

definition InetAddress_addr :: "sockaddr_in \<Rightarrow> inet_address" where
  "InetAddress_addr addr = addr"

definition InetAddress_getSockAddrInet :: "inet_address \<Rightarrow> sockaddr_in" where
  "InetAddress_getSockAddrInet a = a"

definition InetAddress_setSockAddrInet :: "sockaddr_in \<Rightarrow> inet_address \<Rightarrow> inet_address" where
  "InetAddress_setSockAddrInet addr a = addr"

definition InetAddress_ipNetEndian :: "inet_address \<Rightarrow> 32 word" where
  "InetAddress_ipNetEndian a = sin_addr a"

definition InetAddress_portNetEndian :: "inet_address \<Rightarrow> 16 word" where
  "InetAddress_portNetEndian a = sin_port a"

definition InetAddress_toIp :: "byte_order \<Rightarrow> inet_address \<Rightarrow> string result" where
  "InetAddress_toIp ho a =
     bindE (sockets_toIp ho (replicate 32 (CHR 0x00)) 32 a) (\<lambda>buf. Inr (c_string buf))"

definition InetAddress_toIpPort :: "byte_order \<Rightarrow> inet_address \<Rightarrow> string result" where
  "InetAddress_toIpPort ho a =
     bindE (sockets_toIpPort ho (replicate 32 (CHR 0x00)) 32 a) (\<lambda>buf. Inr (c_string buf))"

definition InetAddress_toPort :: "byte_order \<Rightarrow> inet_address \<Rightarrow> 16 word" where
  "InetAddress_toPort ho a = networkToHost16 ho (sin_port a)"

section \<open>Socket\<close>

record Socket =
  so_fd :: int

definition Socket_new :: "int \<Rightarrow> Socket" where
  "Socket_new sockfd = \<lparr>so_fd = sockfd\<rparr>"

definition Socket_destroy :: "'k kernel \<Rightarrow> Socket \<Rightarrow> 'k \<Rightarrow> 'k" where
  "Socket_destroy sys s k = sockets_close sys (so_fd s) k"

definition Socket_fd :: "Socket \<Rightarrow> int" where
  "Socket_fd s = so_fd s"

definition Socket_bindAddress :: "'k kernel \<Rightarrow> inet_address \<Rightarrow> Socket \<Rightarrow> 'k \<Rightarrow> 'k" where
  "Socket_bindAddress sys localaddr s k =
     sockets_bindOrDie sys (so_fd s) (InetAddress_getSockAddrInet localaddr) k"

definition Socket_listen :: "'k kernel \<Rightarrow> Socket \<Rightarrow> 'k \<Rightarrow> 'k" where
  "Socket_listen sys s k = sockets_listenOrDie sys (so_fd s) k"

text \<open>The address of the peer is set only when the descriptor is positive.\<close>

definition Socket_accept :: "'k kernel \<Rightarrow> inet_address \<Rightarrow> Socket \<Rightarrow> 'k \<Rightarrow> (int \<times> inet_address \<times> int) \<times> 'k" where
  "Socket_accept sys peeraddr s k =
     (let ((connfd, addr, errno), k') = sockets_accept sys (so_fd s) sockaddr_zero k in
      ((connfd, if connfd > 0 then InetAddress_setSockAddrInet addr peeraddr else peeraddr, errno), k'))"

definition Socket_shutdownWrite :: "'k kernel \<Rightarrow> Socket \<Rightarrow> 'k \<Rightarrow> 'k" where
  "Socket_shutdownWrite sys s k = sockets_shutdownWrite sys (so_fd s) k"

definition Socket_setTcpNoDelay :: "'k kernel \<Rightarrow> bool \<Rightarrow> Socket \<Rightarrow> 'k \<Rightarrow> 'k" where
  "Socket_setTcpNoDelay sys on s k =
     (let flag = (if on then 1 else 0) in snd (sys (Sys_setsockopt (so_fd s) TCP_NODELAY flag) k))"

definition Socket_setKeepAlive :: "'k kernel \<Rightarrow> bool \<Rightarrow> Socket \<Rightarrow> 'k \<Rightarrow> 'k" where
  "Socket_setKeepAlive sys on s k =
     (let flag = (if on then 1 else 0) in snd (sys (Sys_setsockopt (so_fd s) SO_KEEPALIVE flag) k))"

definition Socket_setReuseAddr :: "'k kernel \<Rightarrow> bool \<Rightarrow> Socket \<Rightarrow> 'k \<Rightarrow> 'k" where
  "Socket_setReuseAddr sys on s k =
     (let flag = (if on then 1 else 0) in snd (sys (Sys_setsockopt (so_fd s) SO_REUSEADDR flag) k))"

definition Socket_setReusePort :: "'k kernel \<Rightarrow> bool \<Rightarrow> Socket \<Rightarrow> 'k \<Rightarrow> 'k" where
  "Socket_setReusePort sys on s k =
     (let flag = (if on then 1 else 0) in snd (sys (Sys_setsockopt (so_fd s) SO_REUSEPORT flag) k))"

section \<open>Descriptors\<close>

text \<open>A call that opens a descriptor, in terms of the set of the open ones: it returns a new one or -1.\<close>

definition opens :: "('k \<Rightarrow> int set) \<Rightarrow> 'k \<Rightarrow> sys_result \<times> 'k \<Rightarrow> bool" where
  "opens fds k res \<longleftrightarrow>
     (if sr_ret (fst res) \<ge> 0 then sr_ret (fst res) \<notin> fds k \<and> fds (snd res) = insert (sr_ret (fst res)) (fds k)
      else sr_ret (fst res) = - 1 \<and> fds (snd res) = fds k)"

section \<open>Addresses as text\<close>

lemma dotted_length: "length (dotted bs) \<le> 15"
proof -
  have "length (nat_chars (unat (b :: byte))) \<le> 3" for b
    using unsigned_less [of b, where ?'a = nat] by (intro nat_chars_length) simp_all
  from this [of "bs ! 0"] this [of "bs ! 1"] this [of "bs ! 2"] this [of "bs ! 3"]
  show ?thesis by (simp add: dotted_def)
qed

lemma dotted_no_nul: "CHR 0x00 \<notin> set (dotted bs)"
  by (simp add: dotted_def nat_chars_not_special)

lemma c_string_prefix: "CHR 0x00 \<notin> set str \<Longrightarrow> c_string (str @ CHR 0x00 # mem) = str"
  unfolding c_string_def by (subst takeWhile_append2) auto

lemma port_length: "length (nat_chars (unat (p :: 16 word))) \<le> 5"
  using unsigned_less [of p, where ?'a = nat] by (intro nat_chars_length) simp_all

lemma toIp_text: "InetAddress_toIp ho a = Inr (dotted (sockaddr_memory ho a))"
  using dotted_length [of "sockaddr_memory ho a"] dotted_no_nul [of "sockaddr_memory ho a"]
  by (simp add: InetAddress_toIp_def sockets_toIp_def INET_ADDRSTRLEN_def inet_ntop_def overwrite_def c_string_prefix)

lemma toIpPort_text:
  "InetAddress_toIpPort ho a = Inr (dotted (sockaddr_memory ho a) @ '':'' @ nat_chars (unat (InetAddress_toPort ho a)))"
proof -
  let ?ip = "dotted (sockaddr_memory ho a)" and ?port = "'':'' @ nat_chars (unat (networkToHost16 ho (sin_port a)))"
  have len: "length ?ip \<le> 15" "length ?port \<le> 6"
    using dotted_length port_length [of "networkToHost16 ho (sin_port a)"] by simp_all
  have nul: "CHR 0x00 \<notin> set (?ip @ ?port)" by (simp add: dotted_no_nul nat_chars_not_special)
  have "inet_ntop (sockaddr_memory ho a) 32 (replicate 32 (CHR 0x00)) = ?ip @ CHR 0x00 # replicate (31 - length ?ip) (CHR 0x00)"
    using len by (simp add: inet_ntop_def overwrite_def)
  moreover have "snprintf_chars (32 - length ?ip) ?port = ?port @ [CHR 0x00]"
    using len by (simp add: snprintf_chars_def)
  ultimately have "sockets_toIpPort ho (replicate 32 (CHR 0x00)) 32 a
      = Inr ((?ip @ ?port) @ CHR 0x00 # drop (length ?ip + length (?port @ [CHR 0x00]))
          (?ip @ CHR 0x00 # replicate (31 - length ?ip) (CHR 0x00)))"
    using len dotted_no_nul [of "sockaddr_memory ho a"]
    by (simp add: sockets_toIpPort_def INET_ADDRSTRLEN_def Let_def c_string_prefix overwrite_def)
  then show ?thesis
    using c_string_prefix [OF nul] by (simp add: InetAddress_toIpPort_def InetAddress_toPort_def)
qed

text \<open>The first four bytes of an address object: its family and its port.\<close>

definition family_port_text :: "byte_order \<Rightarrow> 16 word \<Rightarrow> string" where
  "family_port_text ho p =
     (case ho of LittleEndian \<Rightarrow> ''2.0.'' | BigEndian \<Rightarrow> ''0.2.'')
       @ nat_chars (unat p div 256) @ ''.'' @ nat_chars (unat p mod 256)"

lemma nat_chars_small: "n < 10 \<Longrightarrow> nat_chars n = [dec_char n]"
  by (simp add: nat_chars_def pf.loop_small)

lemma dotted_address:
  assumes "sin_family a = AF_INET" and "sin_port a = hostToNetwork16 ho p"
  shows "dotted (sockaddr_memory ho a) = family_port_text ho p"
proof -
  have "unat p div 256 < 256" using unsigned_less [of p, where ?'a = nat] by (intro less_mult_imp_div_less) simp
  then have hi: "unat (of_nat (unat p div 256) :: byte) = unat p div 256" by (simp add: unat_of_nat)
  have lo: "unat (ucast p :: byte) = unat p mod 256" by (simp add: unsigned_ucast_eq take_bit_eq_mod)
  have port: "memory_image ho (sin_port a) = [of_nat (unat p div 256), ucast p]"
    using memory_image_htobe [of 2, where x = p and ho = ho] by (simp add: assms(2) hostToNetwork16_def be_bytes_def)
  have "dec_char 0 = CHR ''0''" "dec_char 2 = CHR ''2''" by (simp_all add: dec_char_def)
  moreover have "memory_image ho (sin_family a) = (case ho of LittleEndian \<Rightarrow> [2, 0] | BigEndian \<Rightarrow> [0, 2])"
    by (cases ho) (simp_all add: memory_image_def be_bytes_def assms(1) AF_INET_def)
  ultimately show ?thesis using port
    by (cases ho) (simp_all add: dotted_def sockaddr_memory_def hi lo family_port_text_def nat_chars_small)
qed

text \<open>
  C34. The port of an address survives the round trip through network byte order, and toIp and
  toIpPort fail no assertion and overrun no buffer. The text they return is not the one of the
  address: inet\_ntop gets a pointer to the whole object and prints the family and the port as if
  they were the four bytes of the address, so that all addresses with one port print alike.
\<close>

theorem inet_address_text:
  "let a = (case how of Inl ip \<Rightarrow> InetAddress_ip_port ho pton ip p | Inr loopback \<Rightarrow> InetAddress_port ho p loopback) in
     InetAddress_toPort ho a = p
     \<and> InetAddress_toIp ho a = Inr (family_port_text ho p)
     \<and> InetAddress_toIpPort ho a = Inr (family_port_text ho p @ '':'' @ nat_chars (unat p))"
proof -
  let ?a = "case how of Inl ip \<Rightarrow> InetAddress_ip_port ho pton ip p | Inr loopback \<Rightarrow> InetAddress_port ho p loopback"
  have a: "sin_family ?a = AF_INET" "sin_port ?a = hostToNetwork16 ho p"
    by (auto simp: InetAddress_ip_port_def InetAddress_port_def sockets_fromIpPort_def Let_def
        split: sum.split option.split)
  have port: "InetAddress_toPort ho ?a = p"
    using betoh_htobe [of 2, where x = p and ho = ho] by (simp add: InetAddress_toPort_def a(2) networkToHost16_def hostToNetwork16_def)
  show ?thesis unfolding Let_def toIp_text toIpPort_text dotted_address [OF a] port by simp
qed

end
