(* ===== verification/Acceptor.thy ===== *)
theory Acceptor
  imports Channel Sockets
begin

text \<open>
  net/Acceptor.h and net/Acceptor.cc: the listening socket, its channel, and the spare descriptor
  that lets a process without free descriptors turn a connection away. The check that the thread
  is the loop's is an argument, since EventLoop is not in the repository; what the channel tells
  the loop is a list of calls. The message of handleRead is left out, and errno is what accept has
  set, as the code expects. A callback is called by its name; the function \<open>run\<close> is what it does to
  the kernel.
\<close>

definition EMFILE :: int where
  "EMFILE = 24"

datatype handler = HandleRead

record 'c acceptor =
  acceptSocket :: Socket
  acceptChannel :: "handler channel"
  newConnectionCallback :: "'c option"
  listenning :: bool
  idleFd :: int

definition sys_open_idle :: "'k kernel \<Rightarrow> 'k \<Rightarrow> int \<times> 'k" where
  "sys_open_idle sys k = (let (r, k') = sys Sys_open_dev_null k in (sr_ret r, k'))"

definition Acceptor_new :: "'k kernel \<Rightarrow> inet_address \<Rightarrow> bool \<Rightarrow> 'k \<Rightarrow> ('c acceptor \<times> 'k) result" where
  "Acceptor_new sys listenAddr reuseport k =
     (let (fd, k) = sockets_createNonBlockingOrDie sys k;
          sock = Socket_new fd;
          channel = Channel_new (Socket_fd sock);
          (idle, k) = sys_open_idle sys k in
      assert_then (idle \<ge> 0)
        (let k = Socket_setReuseAddr sys True sock k;
             k = Socket_setReusePort sys reuseport sock k;
             k = Socket_bindAddress sys listenAddr sock k in
         Inr (\<lparr>acceptSocket = sock, acceptChannel = Channel_setReadCallback (Some HandleRead) channel,
               newConnectionCallback = None, listenning = False, idleFd = idle\<rparr>, k)))"

definition Acceptor_setNewConnectionCallback :: "'c option \<Rightarrow> 'c acceptor \<Rightarrow> 'c acceptor" where
  "Acceptor_setNewConnectionCallback cb a = a\<lparr>newConnectionCallback := cb\<rparr>"

definition Acceptor_listenning :: "'c acceptor \<Rightarrow> bool" where
  "Acceptor_listenning a = listenning a"

text \<open>
  The destructor's body and then the members: the channel, whose destructor asks whether the
  thread is the loop's and whether the loop has it, and the socket.
\<close>

definition Acceptor_destroy ::
  "'k kernel \<Rightarrow> bool \<Rightarrow> bool \<Rightarrow> 'c acceptor \<Rightarrow> 'k \<Rightarrow> (handler channel_call list \<times> 'k) result" where
  "Acceptor_destroy sys isInLoopThread hasChannel a k =
     (let (calls1, ch) = Channel_disableAll (acceptChannel a) in
      bindE (Channel_remove ch) (\<lambda>(calls2, ch).
        let k = snd (sys (Sys_close (idleFd a)) k) in
        bindE (Channel_destroy isInLoopThread hasChannel ch) (\<lambda>_.
          Inr (calls1 @ calls2, Socket_destroy sys (acceptSocket a) k))))"

definition Acceptor_listen ::
  "'k kernel \<Rightarrow> bool \<Rightarrow> 'c acceptor \<Rightarrow> 'k \<Rightarrow> (handler channel_call list \<times> 'c acceptor \<times> 'k) result" where
  "Acceptor_listen sys isInLoopThread a k =
     assert_then isInLoopThread
       (let a = a\<lparr>listenning := True\<rparr>;
            k = Socket_listen sys (acceptSocket a) k;
            (calls, ch) = Channel_enableReading (acceptChannel a) in
        Inr (calls, a\<lparr>acceptChannel := ch\<rparr>, k))"

text \<open>The result lists the call of the callback with the descriptor and the address of the peer.\<close>

definition Acceptor_handleRead ::
  "'k kernel \<Rightarrow> ('c \<Rightarrow> int \<Rightarrow> inet_address \<Rightarrow> 'k \<Rightarrow> 'k) \<Rightarrow> bool \<Rightarrow> inet_address \<Rightarrow> 'c acceptor \<Rightarrow> 'k
     \<Rightarrow> (('c \<times> int \<times> inet_address) list \<times> 'c acceptor \<times> 'k) result" where
  "Acceptor_handleRead sys run isInLoopThread garbage a k =
     assert_then isInLoopThread
       (let ((connfd, peerAddr, errno), k) = Socket_accept sys garbage (acceptSocket a) k in
        if connfd \<ge> 0
        then (case newConnectionCallback a of
                Some cb \<Rightarrow> Inr ([(cb, connfd, peerAddr)], a, run cb connfd peerAddr k)
              | None \<Rightarrow> Inr ([], a, sockets_close sys connfd k))
        else if errno = EMFILE
        then let k = snd (sys (Sys_close (idleFd a)) k);
                 (r, k) = sys (Sys_accept (Socket_fd (acceptSocket a))) k;
                 k = snd (sys (Sys_close (sr_ret r)) k);
                 (idle, k) = sys_open_idle sys k in
             Inr ([], a\<lparr>idleFd := idle\<rparr>, k)
        else Inr ([], a, k))"

section \<open>Descriptors\<close>

text \<open>
  The documented effect of the calls on the set of open descriptors: accept and open return a new
  descriptor or -1, close removes its argument, and nothing else changes the set. Descriptors are
  not negative.
\<close>

definition fd_kernel :: "'k kernel \<Rightarrow> ('k \<Rightarrow> int set) \<Rightarrow> bool" where
  "fd_kernel sys fds \<longleftrightarrow> (\<forall>k fd. opens fds k (sys (Sys_accept4 fd) k) \<and> opens fds k (sys (Sys_accept fd) k)
     \<and> opens fds k (sys Sys_open_dev_null k) \<and> fds (snd (sys (Sys_close fd) k)) = fds k - {fd} \<and> - 1 \<notin> fds k)"

lemma fd_kernelD:
  assumes "fd_kernel sys fds"
  shows "opens fds k (sys (Sys_accept4 fd) k)" "opens fds k (sys (Sys_accept fd) k)"
    "opens fds k (sys Sys_open_dev_null k)" "fds (snd (sys (Sys_close fd) k)) = fds k - {fd}" "- 1 \<notin> fds k"
  using assms unfolding fd_kernel_def by blast+

text \<open>The dance with the spare descriptor.\<close>

lemma spare_descriptor:
  assumes K: "fd_kernel sys fds" and k1: "k1 = snd (sys (Sys_close idle) k)"
    and acc: "sys (Sys_accept fd) k1 = (r, k2)" and k3: "k3 = snd (sys (Sys_close (sr_ret r)) k2)"
    and op: "sys_open_idle sys k3 = (idle', k4)"
  shows "fds k4 - {idle'} = fds k - {idle} \<and> (idle' = - 1 \<or> idle' \<in> fds k4)"
proof -
  have 1: "fds k1 = fds k - {idle}" using fd_kernelD(4) [OF K] k1 by simp
  have 2: "opens fds k1 (r, k2)" using fd_kernelD(2) [OF K, of k1 fd] acc by simp
  have 3: "fds k3 = fds k2 - {sr_ret r}" using fd_kernelD(4) [OF K] k3 by simp
  have "- 1 \<notin> fds k1" using fd_kernelD(5) [OF K] .
  then have 13: "fds k3 = fds k1" using 2 3 by (auto simp: opens_def split: if_splits)
  obtain r' where r': "sys Sys_open_dev_null k3 = (r', k4)" "idle' = sr_ret r'"
    using op by (auto simp: sys_open_idle_def split: prod.splits)
  then have "opens fds k3 (r', k4)" using fd_kernelD(3) [OF K, of k3] by simp
  moreover have "- 1 \<notin> fds k3" using fd_kernelD(5) [OF K] .
  ultimately show ?thesis using 1 13 r'(2) by (auto simp: opens_def split: if_splits)
qed

lemma handleRead_fds:
  assumes "fd_kernel sys fds" and "idleFd a \<in> fds k \<or> idleFd a = - 1" and run: "\<forall>c fd addr k. fds (run c fd addr k) = fds k"
  shows "\<exists>calls a' k'. Acceptor_handleRead sys run True garbage a k = Inr (calls, a', k')
    \<and> fds k' - {idleFd a'} = (fds k - {idleFd a}) \<union> set (map (\<lambda>(c, fd, addr). fd) calls)
    \<and> (idleFd a' \<in> fds k' \<or> idleFd a' = - 1)
    \<and> (newConnectionCallback a = None \<longrightarrow> calls = [])
    \<and> (\<forall>c addr. (c, 0, addr) \<in> set calls \<longrightarrow> addr = garbage)
    \<and> (\<forall>(c, fd, addr) \<in> set calls. fd \<notin> fds k \<and> fd \<ge> 0) \<and> length calls \<le> 1
    \<and> acceptSocket a' = acceptSocket a \<and> acceptChannel a' = acceptChannel a
    \<and> newConnectionCallback a' = newConnectionCallback a"
proof -
  obtain r k1 where acc: "sys (Sys_accept4 (so_fd (acceptSocket a))) k = (r, k1)" by fastforce
  have o: "opens fds k (r, k1)" using fd_kernelD(1) [OF assms(1), of k "so_fd (acceptSocket a)"] acc by simp
  obtain peer where s: "Socket_accept sys garbage (acceptSocket a) k = ((sr_ret r, peer, sr_errno r), k1)"
      "sr_ret r = 0 \<longrightarrow> peer = garbage"
    by (cases "sr_addr r") (auto simp: Socket_accept_def sockets_accept_def acc Let_def)
  have neg: "- 1 \<notin> fds k" using fd_kernelD(5) [OF assms(1)] .
  consider (callback) c where "sr_ret r \<ge> 0" "newConnectionCallback a = Some c"
    | (close) "sr_ret r \<ge> 0" "newConnectionCallback a = None"
    | (full) "\<not> sr_ret r \<ge> 0" "sr_errno r = EMFILE" | (error) "\<not> sr_ret r \<ge> 0" "sr_errno r \<noteq> EMFILE" by fastforce
  then show ?thesis
  proof cases
    case callback
    then show ?thesis using s o assms(2) neg
      by (auto simp: Acceptor_handleRead_def run opens_def split: if_splits)
  next
    case close
    have "fds (snd (sys (Sys_close (sr_ret r)) k1)) = fds k" using fd_kernelD(4) [OF assms(1), of "sr_ret r" k1] o close
      by (simp add: opens_def)
    then show ?thesis using close s assms(2)
      by (auto simp: Acceptor_handleRead_def sockets_close_def)
  next
    case full
    define k2 where "k2 = snd (sys (Sys_close (idleFd a)) k1)"
    obtain r3 k3 where r3: "sys (Sys_accept (so_fd (acceptSocket a))) k2 = (r3, k3)" by fastforce
    define k4 where "k4 = snd (sys (Sys_close (sr_ret r3)) k3)"
    obtain idle' k5 where i: "sys_open_idle sys k4 = (idle', k5)" by fastforce
    have "fds k5 - {idle'} = fds k1 - {idleFd a} \<and> (idle' = - 1 \<or> idle' \<in> fds k5)"
      by (rule spare_descriptor [OF assms(1) k2_def r3 k4_def i])
    moreover have "fds k1 = fds k" using o full(1) by (simp add: opens_def)
    moreover have "Acceptor_handleRead sys run True garbage a k = Inr ([], a\<lparr>idleFd := idle'\<rparr>, k5)"
      using full s(1) r3 i by (simp add: Acceptor_handleRead_def Let_def k2_def k4_def Socket_fd_def)
    ultimately show ?thesis by auto
  next
    case error
    then show ?thesis using s o assms(2) by (auto simp: Acceptor_handleRead_def opens_def)
  qed
qed

text \<open>
  handleRead leaks no descriptor, on any kernel: beside the spare one, the open descriptors
  afterwards are those of before and the one handed to the callback; without a callback, after an
  error, and when the process has run out of descriptors, none is added (the callback itself opens and closes nothing), and in the last case a
  new spare one is opened or there is none. The address handed to the callback with the descriptor
  0 is not the peer's but what the variable held.
\<close>

theorem acceptor_no_leak:
  assumes "fd_kernel sys fds" and "idleFd a \<in> fds k \<or> idleFd a = - 1" and "\<forall>c fd addr k. fds (run c fd addr k) = fds k"
  shows "\<exists>calls a' k'. Acceptor_handleRead sys run True garbage a k = Inr (calls, a', k')
    \<and> fds k' - {idleFd a'} = (fds k - {idleFd a}) \<union> set (map (\<lambda>(c, fd, addr). fd) calls)
    \<and> (idleFd a' \<in> fds k' \<or> idleFd a' = - 1)
    \<and> (newConnectionCallback a = None \<longrightarrow> calls = [])
    \<and> (\<forall>c addr. (c, 0, addr) \<in> set calls \<longrightarrow> addr = garbage)"
  using handleRead_fds [OF assms, of garbage] by (elim exE conjE) (intro exI conjI; assumption)

text \<open>
  A kernel for the witness: its state is the set of the open descriptors, of which there are at
  most 3, 4 and 5; its calls are those of a process that has no other descriptor to give.
\<close>

definition small_kernel :: "int set kernel" where
  "small_kernel call fds =
     (let free = (if 3 \<notin> fds then 3 else if 4 \<notin> fds then 4 else if 5 \<notin> fds then 5 else - 1);
          new = (\<lparr>sr_ret = free, sr_errno = EMFILE, sr_bytes = [], sr_addr = None, sr_value = 0\<rparr>,
                 if free = - 1 then fds else insert free fds);
          none = (\<lparr>sr_ret = 0, sr_errno = 0, sr_bytes = [], sr_addr = None, sr_value = 0\<rparr>, fds) in
      case call of
        Sys_socket \<Rightarrow> new
      | Sys_accept4 fd \<Rightarrow> new
      | Sys_accept fd \<Rightarrow> new
      | Sys_open_dev_null \<Rightarrow> new
      | Sys_close fd \<Rightarrow> (fst none, fds - {fd})
      | _ \<Rightarrow> none)"

theorem acceptor_no_leak_witness:
  "\<exists>calls a' k'. Acceptor_handleRead small_kernel (\<lambda>_ _ _ k. k) True sockaddr_zero
      \<lparr>acceptSocket = Socket_new 3, acceptChannel = Channel_new 3, newConnectionCallback = Some (),
       listenning = True, idleFd = 4\<rparr> {3, 4, 5} = Inr (calls, a', k')
    \<and> k' - {idleFd a'} = {3, 5} \<union> set (map (\<lambda>(c, fd, addr). fd) calls)"
proof -
  define fds :: "int set \<Rightarrow> int set" where "fds = (\<lambda>k. k - {- 1})"
  have "fd_kernel small_kernel fds"
    by (auto simp: fd_kernel_def opens_def small_kernel_def Let_def fds_def)
  then show ?thesis
    using acceptor_no_leak [of small_kernel fds "\<lparr>acceptSocket = Socket_new 3, acceptChannel = Channel_new 3,
        newConnectionCallback = Some (), listenning = True, idleFd = 4\<rparr>" "{3, 4, 5}" "\<lambda>_ _ _ k. k" sockaddr_zero]
    by (auto simp: fds_def Acceptor_handleRead_def Socket_accept_def sockets_accept_def small_kernel_def Let_def
        Socket_new_def EMFILE_def sys_open_idle_def)
qed

end
