(* ===== verification/Connector.thy ===== *)
theory Connector
  imports Channel Sockets
begin

text \<open>
  net/Connector.h and net/Connector.cc: the client side of a connection, as far as the source has
  bodies for it. The functions connecting, retry, restart, handleWrite, handleError and
  removeAndResetChannel are declared but not defined in the repository: what start, stop and
  connect do is the list of the calls they make to them, to the kernel and to the loop.
\<close>

datatype connector_state = kDisconnected | kConnecting | kConnected

record connector =
  serverAddr :: inet_address
  connect_flag :: bool
  cn_state :: connector_state
  cn_channel :: bool
  retryDelayMs :: int

definition kMaxRetryDelayMs :: int where
  "kMaxRetryDelayMs = 30 * 1000"

definition kInitRetryDelayMs :: int where
  "kInitRetryDelayMs = 500"

datatype connector_call =
    RunInLoop_startInLoop
  | QueueInLoop_stopInLoop
  | Connecting int
  | Retry int
  | RemoveAndResetChannel
  | CloseSocket int
  | LogError int

definition Connector_new :: "inet_address \<Rightarrow> connector" where
  "Connector_new addr =
     \<lparr>serverAddr = addr, connect_flag = False, cn_state = kDisconnected, cn_channel = False,
      retryDelayMs = kInitRetryDelayMs\<rparr>"

definition Connector_destroy :: "connector \<Rightarrow> unit result" where
  "Connector_destroy c = assert_then (\<not> cn_channel c) (Inr ())"

definition Connector_serverAddress :: "connector \<Rightarrow> inet_address" where
  "Connector_serverAddress c = serverAddr c"

definition Connector_setState :: "connector_state \<Rightarrow> connector \<Rightarrow> connector" where
  "Connector_setState st c = c\<lparr>cn_state := st\<rparr>"

definition Connector_start :: "connector \<Rightarrow> connector_call list \<times> connector" where
  "Connector_start c = ([RunInLoop_startInLoop], c\<lparr>connect_flag := True\<rparr>)"

definition Connector_stop :: "connector \<Rightarrow> connector_call list \<times> connector" where
  "Connector_stop c = ([QueueInLoop_stopInLoop], c\<lparr>connect_flag := False\<rparr>)"

text \<open>The values of errno on Linux.\<close>

definition going_on :: "int list" where
  "going_on = [0, 115, 4, 106]"

definition worth_retrying :: "int list" where
  "worth_retrying = [11, 98, 99, 111, 101]"

definition hopeless :: "int list" where
  "hopeless = [13, 1, 97, 114, 9, 14, 88]"

definition Connector_connect :: "'k kernel \<Rightarrow> connector \<Rightarrow> 'k \<Rightarrow> connector_call list \<times> 'k" where
  "Connector_connect sys c k =
     (let (sockfd, k) = sockets_createNonBlockingOrDie sys k;
          ((ret, errno), k) = sockets_connect sys sockfd (InetAddress_getSockAddrInet (serverAddr c)) k;
          savedErrno = (if ret = 0 then 0 else errno) in
      if savedErrno \<in> set going_on then ([Connecting sockfd], k)
      else if savedErrno \<in> set worth_retrying then ([Retry sockfd], k)
      else if savedErrno \<in> set hopeless
      then ([LogError savedErrno, CloseSocket sockfd], sockets_close sys sockfd k)
      else ([LogError savedErrno, CloseSocket sockfd], sockets_close sys sockfd k))"

definition Connector_startInLoop ::
  "'k kernel \<Rightarrow> bool \<Rightarrow> connector \<Rightarrow> 'k \<Rightarrow> (connector_call list \<times> 'k) result" where
  "Connector_startInLoop sys isInLoopThread c k =
     assert_then isInLoopThread
       (assert_then (cn_state c = kDisconnected)
         (if connect_flag c then Inr (Connector_connect sys c k) else Inr ([], k)))"

text \<open>The number of the socket that removeAndResetChannel returns is an argument.\<close>

definition Connector_stopInLoop :: "bool \<Rightarrow> int \<Rightarrow> connector \<Rightarrow> (connector_call list \<times> connector) result" where
  "Connector_stopInLoop isInLoopThread sockfd c =
     assert_then isInLoopThread
       (if cn_state c = kConnected
        then Inr ([RemoveAndResetChannel, Retry sockfd], Connector_setState kDisconnected c)
        else Inr ([], c))"

text \<open>connect creates one socket and gives it to exactly one place: it is watched, retried or closed.\<close>

definition socket_goes_to :: "int \<Rightarrow> connector_call \<Rightarrow> bool" where
  "socket_goes_to fd call = (call = Connecting fd \<or> call = Retry fd \<or> call = CloseSocket fd)"

lemma connect_one_place:
  "length (filter (socket_goes_to (sr_ret (fst (sys Sys_socket k)))) (fst (Connector_connect sys c k))) = 1"
  by (simp add: Connector_connect_def sockets_createNonBlockingOrDie_def sockets_connect_def Let_def
      socket_goes_to_def split: prod.split)

text \<open>stop during a connection attempt does nothing: only the state kConnected leads to a retry.\<close>

lemma stop_while_connecting:
  "cn_state c \<noteq> kConnected \<Longrightarrow> Connector_stopInLoop True fd (snd (Connector_stop c)) = Inr ([], snd (Connector_stop c))"
  by (simp add: Connector_stopInLoop_def Connector_stop_def)

text \<open>
  C27. connect accounts for its socket, on any kernel in which socket() gives a new descriptor or fails with -1,
  connect() opens and closes none and answers EBADF for -1, and close() removes its descriptor. It makes one socket and calls connect on it; by the errno of
  that call (0 if it succeeds) it watches the socket (success, EINPROGRESS, EINTR, EISCONN), hands it to retry (the
  five errors that may pass) or reports this errno and closes it, and which of the three happens is decided by the
  errno alone; only in the first two cases a descriptor is left open, which is the new one. When the
  socket cannot be made, the number -1 is used all the same, and the error that is reported is not that of
  socket() but EBADF, that of connecting -1.
\<close>

theorem connect_accounts:
  assumes "opens fds k (sys Sys_socket k)" and "- 1 \<notin> fds k"
    and "\<forall>k fd addr. fds (snd (sys (Sys_connect fd addr) k)) = fds k"
    and "\<forall>k fd. fds (snd (sys (Sys_close fd) k)) = fds k - {fd}"
    and "\<forall>k addr. sr_ret (fst (sys (Sys_connect (- 1) addr) k)) = - 1 \<and> sr_errno (fst (sys (Sys_connect (- 1) addr) k)) = 9"
    and sock: "sys Sys_socket k = (r, k1)" and conn: "sys (Sys_connect (sr_ret r) (serverAddr c)) k1 = (r2, k2)"
    and run: "Connector_connect sys c k = (calls, k')"
  shows "let fd = sr_ret r; e = (if sr_ret r2 = 0 then 0 else sr_errno r2) in
    fd \<notin> fds k
    \<and> (if e \<in> {0, 115, 4, 106} then calls = [Connecting fd] \<and> 0 \<le> fd \<and> fds k' = insert fd (fds k)
       else if e \<in> {11, 98, 99, 111, 101} then calls = [Retry fd] \<and> 0 \<le> fd \<and> fds k' = insert fd (fds k)
       else calls = [LogError e, CloseSocket fd] \<and> fds k' = fds k)
    \<and> (fd = - 1 \<longrightarrow> e = 9)"
proof -
  let ?fd = "sr_ret r" and ?e = "if sr_ret r2 = 0 then 0 else sr_errno r2"
  have o: "opens fds k (r, k1)" using assms(1) sock by simp
  have k2: "fds k2 = fds k1" using assms(3) conn by (metis snd_conv)
  have bad: "?fd = - 1 \<Longrightarrow> ?e = 9" using assms(5) conn by (metis fst_conv one_neq_neg_one zero_neq_neg_one)
  have cl: "fds (sockets_close sys ?fd k2) = fds k"
    using assms(4) o k2 assms(2) by (auto simp: sockets_close_def opens_def split: if_splits)
  have fresh: "?fd \<notin> fds k" using o assms(2) by (auto simp: opens_def split: if_splits)
  have "Connector_connect sys c k =
      (if ?e \<in> set going_on then ([Connecting ?fd], k2)
       else if ?e \<in> set worth_retrying then ([Retry ?fd], k2)
       else ([LogError ?e, CloseSocket ?fd], sockets_close sys ?fd k2))"
    by (simp add: Connector_connect_def sockets_createNonBlockingOrDie_def sockets_connect_def sock conn Let_def
        InetAddress_getSockAddrInet_def)
  note calls = this [unfolded run]
  have nonneg: "?e \<in> set going_on \<union> set worth_retrying \<Longrightarrow> 0 \<le> ?fd \<and> fds k2 = insert ?fd (fds k)"
    using bad o k2 by (auto simp: going_on_def worth_retrying_def opens_def split: if_splits)
  have sets: "set going_on = {0, 115, 4, 106}" "set worth_retrying = {11, 98, 99, 111, 101}"
    by (simp_all add: going_on_def worth_retrying_def)
  consider "?e \<in> set going_on" | "?e \<notin> set going_on" "?e \<in> set worth_retrying"
    | "?e \<notin> set going_on" "?e \<notin> set worth_retrying" by blast
  then show ?thesis
    unfolding Let_def sets [symmetric] using calls fresh nonneg cl bad by cases simp_all
qed

text \<open>A kernel whose peer refuses every connection.\<close>

definition refusing_kernel :: "int set kernel" where
  "refusing_kernel call fds =
     (let res = (\<lambda>r e. \<lparr>sr_ret = r, sr_errno = e, sr_bytes = [], sr_addr = None, sr_value = 0\<rparr>) in
      case call of
        Sys_socket \<Rightarrow> (res 3 0, insert 3 fds)
      | Sys_connect fd addr \<Rightarrow> (res (- 1) (if fd = - 1 then 9 else 111), fds)
      | Sys_close fd \<Rightarrow> (res 0 0, fds - {fd})
      | _ \<Rightarrow> (res 0 0, fds))"

theorem connect_accounts_witness:
  "\<exists>k'. Connector_connect refusing_kernel (Connector_new sockaddr_zero) {} = ([Retry 3], k') \<and> k' = {3}"
proof -
  let ?r = "\<lambda>n e. \<lparr>sr_ret = n, sr_errno = e, sr_bytes = [], sr_addr = None, sr_value = 0\<rparr>"
  obtain calls k' where run: "Connector_connect refusing_kernel (Connector_new sockaddr_zero) {} = (calls, k')"
    by fastforce
  have "refusing_kernel Sys_socket {} = (?r 3 0, {3})"
    "refusing_kernel (Sys_connect (sr_ret (?r 3 0)) (serverAddr (Connector_new sockaddr_zero))) {3} = (?r (- 1) 111, {3})"
    by (simp_all add: refusing_kernel_def)
  then show ?thesis
    using connect_accounts [of "\<lambda>k. k" "{}" refusing_kernel "?r 3 0" "{3}" "Connector_new sockaddr_zero"
        "?r (- 1) 111" "{3}" calls k', OF _ _ _ _ _ _ _ run]
    by (simp add: run) (simp add: refusing_kernel_def opens_def Let_def)
qed

end
