(* ===== verification/ProcessInfo.thy ===== *)
theory ProcessInfo
  imports FileUtil Thread "HOL-Library.Multiset"
begin

text \<open>
  base/ProcessInfo.h and base/ProcessInfo.cc: what the library asks the system about its process,
  with the parsing of the texts under /proc. The system is an argument: the answers of its calls
  and, for the files under /proc, the opening, stat and reading that readFile needs.
  Thread ids and counts are in the range of int, which atoi does not check.
\<close>

section \<open>The system\<close>

record 's proc_system =
  ps_pid :: int
  ps_uid :: int
  ps_euid :: int
  ps_getpwuid :: "int \<Rightarrow> string option"
  ps_gethostname :: "string option"
  ps_open :: "string \<Rightarrow> int + int"
  ps_fstat :: "string \<Rightarrow> int + file_stat"
  ps_read :: "'s read"
  ps_offset :: 's
  ps_readlink :: "string option"
  ps_scandir :: "string \<Rightarrow> (string list) option"
  ps_getrlimit :: "(64 word) option"
  ps_times :: "(int \<times> int) option"
  ps_start :: timestamp
  ps_ticks :: int
  ps_page :: int
  ps_garbage :: string

definition ProcInfo_pid :: "'s proc_system \<Rightarrow> int" where
  "ProcInfo_pid ps = ps_pid ps"

definition ProcInfo_pidStrng :: "'s proc_system \<Rightarrow> string" where
  "ProcInfo_pidStrng ps = snprintf_string 32 (fmt_d False 0 (ProcInfo_pid ps))"

definition ProcInfo_uid :: "'s proc_system \<Rightarrow> int" where
  "ProcInfo_uid ps = ps_uid ps"

definition ProcInfo_username :: "'s proc_system \<Rightarrow> string" where
  "ProcInfo_username ps =
     (case ps_getpwuid ps (ProcInfo_uid ps) of Some name \<Rightarrow> name | None \<Rightarrow> ''unknownuser'')"

definition ProcInfo_euid :: "'s proc_system \<Rightarrow> int" where
  "ProcInfo_euid ps = ps_euid ps"

text \<open>gethostname fills the array of 256 characters, or fails.\<close>

definition ProcInfo_hostname :: "'s proc_system \<Rightarrow> string" where
  "ProcInfo_hostname ps =
     (case ps_gethostname ps of Some name \<Rightarrow> c_string (name[255 := CHR 0x00]) | None \<Rightarrow> ''unknownhost'')"

definition ProcInfo_startTime :: "'s proc_system \<Rightarrow> timestamp" where
  "ProcInfo_startTime ps = ps_start ps"

definition ProcInfo_clockTicksPerSecond :: "'s proc_system \<Rightarrow> int" where
  "ProcInfo_clockTicksPerSecond ps = ps_ticks ps"

definition ProcInfo_pagesize :: "'s proc_system \<Rightarrow> int" where
  "ProcInfo_pagesize ps = ps_page ps"

definition ProcInfo_isDebugBuild :: "bool \<Rightarrow> bool" where
  "ProcInfo_isDebugBuild ndebug = (if ndebug then False else True)"

section \<open>Files under /proc\<close>

text \<open>readFile with its three pointers left null.\<close>

definition read_proc_file :: "'s proc_system \<Rightarrow> string \<Rightarrow> string result" where
  "read_proc_file ps filename =
     bindE (readFile (ps_open ps) (ps_garbage ps) (ps_read ps) (ps_offset ps) (ps_fstat ps filename) filename 65536
              [] False False False)
       (\<lambda>r. Inr (rs_data r))"

definition ProcInfo_procStatus :: "'s proc_system \<Rightarrow> string result" where
  "ProcInfo_procStatus ps = read_proc_file ps ''/proc/self/status''"

definition ProcInfo_procStat :: "'s proc_system \<Rightarrow> string result" where
  "ProcInfo_procStat ps = read_proc_file ps ''/proc/self/stat''"

definition ProcInfo_threadStat :: "'s proc_system \<Rightarrow> int \<Rightarrow> string result" where
  "ProcInfo_threadStat ps tid =
     read_proc_file ps (snprintf_string 64 (''/proc/self/task/'' @ fmt_d False 0 tid @ ''/stat''))"

text \<open>readlink: the characters it stores, at most 1024, or None for an error.\<close>

definition ProcInfo_exePath :: "'s proc_system \<Rightarrow> string" where
  "ProcInfo_exePath ps = (case ps_readlink ps of Some buf \<Rightarrow> take 1024 buf | None \<Rightarrow> [])"

text \<open>std::string::find for a character and for a text; npos is None.\<close>

definition string_find_char :: "string \<Rightarrow> char \<Rightarrow> nat option" where
  "string_find_char str c = (if c \<in> set str then Some (length (takeWhile (\<lambda>x. x \<noteq> c) str)) else None)"

definition string_find :: "string \<Rightarrow> string \<Rightarrow> nat option" where
  "string_find str pat = (let p = std_search pat str in if p < length str then Some p else None)"

definition ProcInfo_procname_of :: "string \<Rightarrow> string" where
  "ProcInfo_procname_of stat =
     (case (string_find_char stat (CHR ''(''), string_find_char stat (CHR '')'')) of
        (Some lp, Some rp) \<Rightarrow> if lp < rp then take (rp - lp - 1) (drop (lp + 1) stat) else []
      | _ \<Rightarrow> [])"

definition ProcInfo_procname :: "'s proc_system \<Rightarrow> string result" where
  "ProcInfo_procname ps = bindE (ProcInfo_procStat ps) (\<lambda>stat. Inr (ProcInfo_procname_of stat))"

definition numThreads_of :: "string \<Rightarrow> int" where
  "numThreads_of status =
     (case string_find status ''Threads:'' of Some pos \<Rightarrow> atoi (drop (pos + 8) status) | None \<Rightarrow> 0)"

definition ProcInfo_numThreads :: "'s proc_system \<Rightarrow> int result" where
  "ProcInfo_numThreads ps = bindE (ProcInfo_procStatus ps) (\<lambda>status. Inr (numThreads_of status))"

section \<open>Directories under /proc\<close>

text \<open>
  scandir calls the filter for the entries of the directory in turn; the filters here keep a count
  or a list in a variable of the thread and select nothing, so that the list of names stays null.
  The state of the filter is threaded through the entries; None is a directory that cannot be read.
\<close>

definition fdDirFilter :: "string \<Rightarrow> int \<Rightarrow> int \<times> int" where
  "fdDirFilter d_name t_numOpenedFiles =
     (0, if d_name \<noteq> [] \<and> is_digit (hd d_name) then t_numOpenedFiles + 1 else t_numOpenedFiles)"

definition taskDirFilter :: "string \<Rightarrow> int list \<Rightarrow> int \<times> int list" where
  "taskDirFilter d_name t_pids =
     (0, if d_name \<noteq> [] \<and> is_digit (hd d_name) then t_pids @ [atoi d_name] else t_pids)"

text \<open>The entries that were selected, and the state of the filter.\<close>

fun scandir_entries :: "(string \<Rightarrow> 'v \<Rightarrow> int \<times> 'v) \<Rightarrow> string list \<Rightarrow> 'v \<Rightarrow> string list \<times> 'v" where
  "scandir_entries flt [] v = ([], v)"
| "scandir_entries flt (d # ds) v =
     (let (keep, v') = flt d v; (names, v'') = scandir_entries flt ds v' in
      (if keep \<noteq> 0 then d # names else names, v''))"

definition ProcInfo_scanDir ::
  "'s proc_system \<Rightarrow> string \<Rightarrow> (string \<Rightarrow> 'v \<Rightarrow> int \<times> 'v) \<Rightarrow> 'v \<Rightarrow> (int \<times> 'v) result" where
  "ProcInfo_scanDir ps dirpath flt v =
     (case ps_scandir ps dirpath of
        None \<Rightarrow> Inr (- 1, v)
      | Some entries \<Rightarrow>
          let (namelist, v') = scandir_entries flt entries v in
          assert_then (namelist = []) (Inr (int (length namelist), v')))"

definition ProcInfo_openedFiles :: "'s proc_system \<Rightarrow> int result" where
  "ProcInfo_openedFiles ps =
     bindE (ProcInfo_scanDir ps ''/proc/self/fd'' fdDirFilter 0) (\<lambda>(_, t_numOpenedFiles). Inr t_numOpenedFiles)"

text \<open>The limit is a 64-bit value that is cast to int.\<close>

definition ProcInfo_maxOpenFiles :: "'s proc_system \<Rightarrow> int result" where
  "ProcInfo_maxOpenFiles ps =
     (case ps_getrlimit ps of None \<Rightarrow> ProcInfo_openedFiles ps | Some cur \<Rightarrow> Inr (sint (ucast cur :: 32 word)))"

definition ProcInfo_cputime ::
  "(int \<Rightarrow> 'd) \<Rightarrow> ('d \<Rightarrow> 'd \<Rightarrow> 'd) \<Rightarrow> 's proc_system \<Rightarrow> 'd \<times> 'd" where
  "ProcInfo_cputime to_double fdiv ps =
     (case ps_times ps of
        Some (utime, stime) \<Rightarrow>
          let hz = to_double (ProcInfo_clockTicksPerSecond ps) in
          (fdiv (to_double utime) hz, fdiv (to_double stime) hz)
      | None \<Rightarrow> (to_double 0, to_double 0))"

definition ProcInfo_threads :: "'s proc_system \<Rightarrow> (int list) result" where
  "ProcInfo_threads ps =
     bindE (ProcInfo_scanDir ps ''/proc/self/task'' taskDirFilter []) (\<lambda>(_, result). Inr (sort result))"

section \<open>Parsing\<close>

lemma find_char_split:
  assumes "c \<notin> set xs"
  shows "string_find_char (xs @ c # ys) c = Some (length xs)"
proof -
  have "takeWhile (\<lambda>x. x \<noteq> c) (xs @ c # ys) = xs"
    using assms by (subst takeWhile_append2) auto
  then show ?thesis by (simp add: string_find_char_def)
qed

lemma takeWhile_split: "c \<notin> set xs \<Longrightarrow> takeWhile (\<lambda>x. x \<noteq> c) (xs @ c # ys) = xs"
  by (subst takeWhile_append2) auto

lemma procname_cut:
  assumes "CHR ''('' \<notin> set pre" and "CHR '')'' \<notin> set pre" and "CHR '')'' \<notin> set name"
  shows "ProcInfo_procname_of (pre @ CHR ''('' # name @ CHR '')'' # rest) = name"
proof -
  have "string_find_char ((pre @ CHR ''('' # name) @ CHR '')'' # rest) (CHR '')'') = Some (length (pre @ CHR ''('' # name))"
    using assms by (intro find_char_split) auto
  moreover have "string_find_char (pre @ CHR ''('' # name @ CHR '')'' # rest) (CHR ''('') = Some (length pre)"
    using assms by (intro find_char_split) auto
  ultimately show ?thesis by (simp add: ProcInfo_procname_of_def)
qed

lemma procname_of_spec:
  assumes "CHR ''('' \<notin> set pre" and "CHR '')'' \<notin> set pre"
  shows "ProcInfo_procname_of (pre @ ''('' @ name @ '')'' @ rest) = takeWhile (\<lambda>c. c \<noteq> CHR '')'') name"
proof (cases "CHR '')'' \<in> set name")
  case True
  then obtain xs ys where name: "name = xs @ CHR '')'' # ys" "CHR '')'' \<notin> set xs"
    using split_list_first [OF True] by blast
  show ?thesis using procname_cut [OF assms name(2), of "ys @ '')'' @ rest"] takeWhile_split [OF name(2), of ys]
    by (simp add: name(1))
next
  case False
  have "\<forall>c \<in> set name. c \<noteq> CHR '')''" using False by blast
  then have "takeWhile (\<lambda>c. c \<noteq> CHR '')'') name = name" by (simp only: takeWhile_eq_all_conv)
  then show ?thesis using procname_cut [OF assms False, of rest] by (simp only: append.simps)
qed

lemma dec_char_digit: "d < 10 \<Longrightarrow> is_digit (dec_char d)"
  by (drule less_10_cases) (auto simp: dec_char_def is_digit_def)

lemma nat_chars_all_digits: "c \<in> set (nat_chars n) \<Longrightarrow> is_digit c"
  using nat_chars_digits dec_char_digit by blast

lemma nat_chars_nonempty: "nat_chars n \<noteq> []"
  unfolding nat_chars_def by (subst nat_loop.simps) simp

lemma digit_not_other: "is_digit c \<Longrightarrow> \<not> is_space c \<and> c \<noteq> CHR ''-'' \<and> c \<noteq> CHR ''+''"
  by (auto simp: is_digit_def is_space_def)

lemma atoi_nat_chars:
  assumes "rest = [] \<or> \<not> is_digit (hd rest)" and "list_all is_space blanks"
  shows "atoi (blanks @ nat_chars n @ rest) = int n"
proof -
  have head: "is_digit (hd (nat_chars n))" by (rule nat_chars_all_digits [of _ n]) (simp add: nat_chars_nonempty)
  have "dropWhile is_space (blanks @ nat_chars n @ rest) = dropWhile is_space (nat_chars n @ rest)"
    using assms(2) by (simp add: dropWhile_append2 list_all_iff)
  also have "\<dots> = nat_chars n @ rest"
    using digit_not_other [OF head] nat_chars_nonempty [of n] by (cases "nat_chars n") auto
  finally have skip: "dropWhile is_space (blanks @ nat_chars n @ rest) = nat_chars n @ rest" .
  have "takeWhile is_digit (nat_chars n @ rest) = nat_chars n"
    using assms(1) nat_chars_all_digits by (cases rest) (simp_all add: takeWhile_append2 takeWhile_tail)
  then show ?thesis
    using skip digit_not_other [OF head] nat_chars_nonempty [of n] digits_value_nat_chars [of n]
    by (cases "nat_chars n") (auto simp: atoi_def)
qed

lemma numThreads_spec:
  "string_find (s1 @ ''Threads:'' @ s2) ''Threads:'' = Some (length s1) \<Longrightarrow>
    numThreads_of (s1 @ ''Threads:'' @ s2) = atoi s2"
  unfolding numThreads_of_def by (simp only: option.case) simp

lemma scandir_task:
  "scandir_entries taskDirFilter ds v = ([], v @ map atoi (filter (\<lambda>d. d \<noteq> [] \<and> is_digit (hd d)) ds))"
  by (induction ds arbitrary: v) (auto simp: taskDirFilter_def Let_def)

lemma scandir_fd:
  "scandir_entries fdDirFilter ds v = ([], v + int (length (filter (\<lambda>d. d \<noteq> [] \<and> is_digit (hd d)) ds)))"
  by (induction ds arbitrary: v) (auto simp: fdDirFilter_def Let_def)

lemma task_ids:
  assumes "mset tasks = mset (map nat_chars tids) + mset others" and "list_all (\<lambda>d. d \<noteq> [] \<longrightarrow> \<not> is_digit (hd d)) others"
  shows "sort (map atoi (filter (\<lambda>d. d \<noteq> [] \<and> is_digit (hd d)) tasks)) = sort (map int tids)"
proof -
  let ?P = "\<lambda>d. d \<noteq> [] \<and> is_digit (hd d)"
  have others: "filter ?P others = []" using assms(2) by (auto simp: list_all_iff filter_empty_conv)
  have numbers: "filter ?P (map nat_chars tids) = map nat_chars tids"
    using nat_chars_nonempty nat_chars_all_digits [OF hd_in_set] by (auto simp: filter_id_conv)
  have "mset (filter ?P tasks) = mset (filter ?P (map nat_chars tids @ others))"
    using assms(1) by (metis mset_append mset_filter)
  then have "mset (map atoi (filter ?P tasks)) = mset (map atoi (map nat_chars tids))"
    using others numbers by (simp only: mset_map filter_append append_Nil2)
  moreover have "atoi (nat_chars t) = int t" for t using atoi_nat_chars [of "[]" "[]" t] by simp
  ultimately have "mset (map atoi (filter ?P tasks)) = mset (map int tids)" by (simp add: comp_def)
  then show ?thesis by (metis mset_sort properties_for_sort sorted_sort)
qed

lemma read_proc_empty: "read_proc_file ps filename = Inr []"
  by (cases "ps_fstat ps filename")
    (auto simp: read_proc_file_def readFile_def ReadSmallFile_readToString_def Let_def split: sum.split)

text \<open>
  C33. What the parsers make of the kernel's texts. The process name is what stands between the first
  parenthesis and the first closing one, so that it is the true name if and only if the name has no closing
  parenthesis (the kernel escapes none); the number of threads is the one behind Threads:. The directory scans
  fail no assertion, count the numeric entries, and give the thread ids sorted whatever the order
  of the directory. But the files under /proc are never read, because readFile is called without a
  pointer for the size: the process has no name and 0 threads, on every system.
\<close>

theorem procinfo_parsers:
  assumes "CHR ''('' \<notin> set pre" and "CHR '')'' \<notin> set pre"
    and "ps_scandir ps ''/proc/self/task'' = Some tasks" and "ps_scandir ps ''/proc/self/fd'' = Some fds"
    and "mset tasks = mset (map nat_chars tids) + mset others" and "list_all (\<lambda>d. d \<noteq> [] \<longrightarrow> \<not> is_digit (hd d)) others"
    and "\<not> is_digit (hd after)" and "string_find (status1 @ ''Threads:'' @ status2) ''Threads:'' = Some (length status1)"
    and "status2 = CHR 0x09 # nat_chars n @ after"
  shows "ProcInfo_procname_of (pre @ ''('' @ name @ '')'' @ rest) = takeWhile (\<lambda>c. c \<noteq> CHR '')'') name
    \<and> (ProcInfo_procname_of (pre @ ''('' @ name @ '')'' @ rest) = name \<longleftrightarrow> CHR '')'' \<notin> set name)
    \<and> numThreads_of (status1 @ ''Threads:'' @ status2) = int n
    \<and> ProcInfo_threads ps = Inr (sort (map int tids))
    \<and> ProcInfo_openedFiles ps = Inr (int (length (filter (\<lambda>d. d \<noteq> [] \<and> is_digit (hd d)) fds)))
    \<and> ProcInfo_procname ps = Inr [] \<and> ProcInfo_numThreads ps = Inr 0"
proof (intro conjI)
  show "ProcInfo_procname_of (pre @ ''('' @ name @ '')'' @ rest) = takeWhile (\<lambda>c. c \<noteq> CHR '')'') name"
    by (rule procname_of_spec [OF assms(1,2)])
  then show "ProcInfo_procname_of (pre @ ''('' @ name @ '')'' @ rest) = name \<longleftrightarrow> CHR '')'' \<notin> set name"
    by (auto simp: takeWhile_eq_all_conv)
  show "numThreads_of (status1 @ ''Threads:'' @ status2) = int n"
    using numThreads_spec [OF assms(8)] atoi_nat_chars [of "after" "[CHR 0x09]" n] assms(7,9)
    by (simp add: is_space_def)
  show "ProcInfo_threads ps = Inr (sort (map int tids))"
    using task_ids [OF assms(5,6)] by (simp add: ProcInfo_threads_def ProcInfo_scanDir_def assms(3) scandir_task Let_def)
  show "ProcInfo_openedFiles ps = Inr (int (length (filter (\<lambda>d. d \<noteq> [] \<and> is_digit (hd d)) fds)))"
    by (simp add: ProcInfo_openedFiles_def ProcInfo_scanDir_def assms(4) scandir_fd Let_def)
  show "ProcInfo_procname ps = Inr []"
    by (simp add: ProcInfo_procname_def ProcInfo_procStat_def read_proc_empty ProcInfo_procname_of_def string_find_char_def)
  show "ProcInfo_numThreads ps = Inr 0"
    by (simp add: ProcInfo_numThreads_def ProcInfo_procStatus_def read_proc_empty numThreads_of_def string_find_def)
qed

definition example_proc :: "unit proc_system" where
  "example_proc = \<lparr>ps_pid = 7, ps_uid = 0, ps_euid = 0, ps_getpwuid = (\<lambda>_. None), ps_gethostname = None,
     ps_open = (\<lambda>_. Inr 3), ps_fstat = (\<lambda>_. Inr \<lparr>st_isreg = True, st_isdir = False, st_size = 0, st_mtime = 0, st_ctime = 0\<rparr>),
     ps_read = (\<lambda>s n. (ReadOk [], s)), ps_offset = (), ps_readlink = None,
     ps_scandir = (\<lambda>path. if path = ''/proc/self/task'' then Some [''.'', nat_chars 12, ''..'', nat_chars 7]
                          else Some [''.'', ''..'', ''0'', ''1'', ''2'']),
     ps_getrlimit = None, ps_times = None, ps_start = Timestamp 0, ps_ticks = 100, ps_page = 4096, ps_garbage = ''x''\<rparr>"

theorem procinfo_parsers_witness:
  "ProcInfo_procname_of (''7 '' @ ''('' @ ''a(b)c'' @ '')'' @ '' S 1'') = ''a(b''
    \<and> numThreads_of (''Pid: 7 '' @ ''Threads:'' @ CHR 0x09 # nat_chars 4 @ '' '') = 4
    \<and> ProcInfo_threads example_proc = Inr [7, 12] \<and> ProcInfo_numThreads example_proc = Inr 0"
proof -
  have "string_find (''Pid: 7 '' @ ''Threads:'' @ CHR 0x09 # nat_chars 4 @ '' '') ''Threads:'' = Some (length ''Pid: 7 '')"
    by (simp add: string_find_def)
  then show ?thesis
    using procinfo_parsers [of "''7 ''" example_proc "[''.'', nat_chars 12, ''..'', nat_chars 7]"
        "[''.'', ''..'', ''0'', ''1'', ''2'']" "[12, 7]" "[''.'', ''..'']" "'' ''" "''Pid: 7 ''"
        "CHR 0x09 # nat_chars 4 @ '' ''" 4 "''a(b)c''" "'' S 1''"]
    by (simp add: example_proc_def is_digit_def)
qed

end
