(* ===== verification/Lifetime.thy ===== *)
theory Lifetime
  imports Prelude
begin

text \<open>
  base/Singleton.h, base/ThreadLocal.h and base/ThreadLocalSingleton.h: the owners of objects that live as long as the process or as a thread. An
  object of the template's type T is its number in the order of creation; the objects that have
  been deleted are listed in the order of their deletion. pthread\_once, atexit and the
  thread-specific data of pthreads, with their documented behaviour, are part of the model. The check
  that T is complete is written the wrong way round in all three headers (a negative array size
  for every T) and is left out.
\<close>

record objects =
  o_next :: nat
  o_deleted :: "nat list"

definition objects_init :: objects where
  "objects_init = \<lparr>o_next = 0, o_deleted = []\<rparr>"

definition new_object :: "objects \<Rightarrow> nat \<times> objects" where
  "new_object ob = (o_next ob, ob\<lparr>o_next := o_next ob + 1\<rparr>)"

definition delete_object :: "nat \<Rightarrow> objects \<Rightarrow> objects" where
  "delete_object v ob = ob\<lparr>o_deleted := o_deleted ob @ [v]\<rparr>"

text \<open>Each object is owned or has been deleted once.\<close>

definition accounted :: "nat set \<Rightarrow> objects \<Rightarrow> bool" where
  "accounted owned ob \<longleftrightarrow> distinct (o_deleted ob) \<and> owned \<inter> set (o_deleted ob) = {}
     \<and> owned \<union> set (o_deleted ob) = {..<o_next ob}"

section \<open>Singleton\<close>

text \<open>The static members, and how often the exit of the process will call Destroy.\<close>

record singleton =
  sg_ponce :: bool
  sg_value :: "nat option"
  sg_atexit :: nat

definition singleton_static :: singleton where
  "singleton_static = \<lparr>sg_ponce = False, sg_value = None, sg_atexit = 0\<rparr>"

definition Singleton_Init :: "singleton \<times> objects \<Rightarrow> singleton \<times> objects" where
  "Singleton_Init = (\<lambda>(s, ob).
     let (v, ob') = new_object ob in (s\<lparr>sg_value := Some v, sg_atexit := sg_atexit s + 1\<rparr>, ob'))"

text \<open>pthread\_once: the first call runs Init, all others wait for its end and do nothing.\<close>

definition Singleton_instance :: "singleton \<times> objects \<Rightarrow> (nat \<times> singleton \<times> objects) result" where
  "Singleton_instance = (\<lambda>(s, ob).
     let (s', ob') = (if sg_ponce s then (s, ob) else Singleton_Init (s\<lparr>sg_ponce := True\<rparr>, ob)) in
     case sg_value s' of Some v \<Rightarrow> Inr (v, s', ob') | None \<Rightarrow> Inl NullDeref)"

definition Singleton_Destroy :: "singleton \<times> objects \<Rightarrow> singleton \<times> objects" where
  "Singleton_Destroy = (\<lambda>(s, ob). case sg_value s of Some v \<Rightarrow> (s, delete_object v ob) | None \<Rightarrow> (s, ob))"

text \<open>What exit does with the registered calls.\<close>

definition Singleton_exit :: "singleton \<times> objects \<Rightarrow> singleton \<times> objects" where
  "Singleton_exit st = (Singleton_Destroy ^^ sg_atexit (fst st)) st"

primrec instances :: "nat \<Rightarrow> singleton \<times> objects \<Rightarrow> (nat list \<times> singleton \<times> objects) result" where
  "instances 0 st = Inr ([], st)"
| "instances (Suc n) st =
     bindE (Singleton_instance st) (\<lambda>(v, st).
     bindE (instances n st) (\<lambda>(vs, st). Inr (v # vs, st)))"

lemma instances_again:
  "sg_ponce s \<Longrightarrow> sg_value s = Some v \<Longrightarrow> instances n (s, ob) = Inr (replicate n v, s, ob)"
  by (induction n) (simp_all add: Singleton_instance_def)

lemma instances_first:
  "instances (Suc n) (singleton_static, objects_init)
    = Inr (replicate (Suc n) 0, \<lparr>sg_ponce = True, sg_value = Some 0, sg_atexit = 1\<rparr>, \<lparr>o_next = 1, o_deleted = []\<rparr>)"
  using instances_again [of "\<lparr>sg_ponce = True, sg_value = Some 0, sg_atexit = 1\<rparr>" 0 n]
  by (simp add: Singleton_instance_def Singleton_Init_def singleton_static_def objects_init_def new_object_def)

section \<open>ThreadLocal\<close>

text \<open>
  The key's number, whether the key exists, and the value it has in each thread. Exiting, a thread sets its
  value to null and calls the destructor of the key; deleting a key calls no destructor, and deleting a
  number that is no key does nothing. The destructor of the class deletes the number that the address of m\_pkey is
  converted to, which is its argument: it is the key itself only by chance.
\<close>

record thread_local =
  tl_key :: nat
  tl_pkey :: bool
  tl_values :: "nat \<Rightarrow> nat option"

definition ThreadLocal_new :: "nat \<Rightarrow> thread_local" where
  "ThreadLocal_new key = \<lparr>tl_key = key, tl_pkey = True, tl_values = (\<lambda>_. None)\<rparr>"

definition ThreadLocal_destroy :: "nat \<Rightarrow> thread_local \<Rightarrow> thread_local" where
  "ThreadLocal_destroy address l = (if address = tl_key l then l\<lparr>tl_pkey := False\<rparr> else l)"

definition ThreadLocal_value :: "nat \<Rightarrow> thread_local \<times> objects \<Rightarrow> nat \<times> thread_local \<times> objects" where
  "ThreadLocal_value t = (\<lambda>(l, ob).
     case tl_values l t of
       Some v \<Rightarrow> (v, l, ob)
     | None \<Rightarrow> let (v, ob') = new_object ob in (v, l\<lparr>tl_values := (tl_values l)(t \<mapsto> v)\<rparr>, ob'))"

definition ThreadLocal_destructor :: "nat \<Rightarrow> objects \<Rightarrow> objects" where
  "ThreadLocal_destructor v ob = delete_object v ob"

definition ThreadLocal_threadExit :: "nat \<Rightarrow> thread_local \<times> objects \<Rightarrow> thread_local \<times> objects" where
  "ThreadLocal_threadExit t = (\<lambda>(l, ob).
     case tl_values l t of
       Some v \<Rightarrow> (l\<lparr>tl_values := (tl_values l)(t := None)\<rparr>, if tl_pkey l then ThreadLocal_destructor v ob else ob)
     | None \<Rightarrow> (l, ob))"

section \<open>ThreadLocalSingleton\<close>

text \<open>
  The variable of each thread, and the thread-specific data of the deleter's key. Its destructor, too, passes
  the address of m\_pkey.
\<close>

record thread_local_singleton =
  ts_value :: "nat \<Rightarrow> nat option"
  ts_key :: nat
  ts_pkey :: bool
  ts_specific :: "nat \<Rightarrow> nat option"

definition Deleter_new :: "nat \<Rightarrow> thread_local_singleton" where
  "Deleter_new key = \<lparr>ts_value = (\<lambda>_. None), ts_key = key, ts_pkey = True, ts_specific = (\<lambda>_. None)\<rparr>"

definition Deleter_destroy :: "nat \<Rightarrow> thread_local_singleton \<Rightarrow> thread_local_singleton" where
  "Deleter_destroy address s = (if address = ts_key s then s\<lparr>ts_pkey := False\<rparr> else s)"

definition Deleter_set :: "nat \<Rightarrow> nat \<Rightarrow> thread_local_singleton \<Rightarrow> thread_local_singleton result" where
  "Deleter_set t v s =
     assert_then (ts_specific s t = None) (Inr (s\<lparr>ts_specific := (ts_specific s)(t \<mapsto> v)\<rparr>))"

definition ThreadLocalSingleton_instance ::
  "nat \<Rightarrow> thread_local_singleton \<times> objects \<Rightarrow> (nat \<times> thread_local_singleton \<times> objects) result" where
  "ThreadLocalSingleton_instance t = (\<lambda>(s, ob).
     case ts_value s t of
       Some v \<Rightarrow> Inr (v, s, ob)
     | None \<Rightarrow>
         let (v, ob') = new_object ob in
         bindE (Deleter_set t v (s\<lparr>ts_value := (ts_value s)(t \<mapsto> v)\<rparr>)) (\<lambda>s'. Inr (v, s', ob')))"

definition ThreadLocalSingleton_pointer :: "nat \<Rightarrow> thread_local_singleton \<Rightarrow> nat option" where
  "ThreadLocalSingleton_pointer t s = ts_value s t"

definition ThreadLocalSingleton_destructor ::
  "nat \<Rightarrow> nat \<Rightarrow> thread_local_singleton \<Rightarrow> objects \<Rightarrow> objects result" where
  "ThreadLocalSingleton_destructor t v s ob =
     assert_then (ts_value s t = Some v) (Inr (delete_object v ob))"

definition ThreadLocalSingleton_threadExit ::
  "nat \<Rightarrow> thread_local_singleton \<times> objects \<Rightarrow> (thread_local_singleton \<times> objects) result" where
  "ThreadLocalSingleton_threadExit t = (\<lambda>(s, ob).
     case ts_specific s t of
       Some v \<Rightarrow>
         let s' = s\<lparr>ts_specific := (ts_specific s)(t := None)\<rparr> in
         if ts_pkey s then bindE (ThreadLocalSingleton_destructor t v s' ob) (\<lambda>ob'. Inr (s', ob')) else Inr (s', ob)
     | None \<Rightarrow> Inr (s, ob))"

section \<open>Threads that use and exit\<close>

datatype thread_event = Use nat | ThreadExit nat

primrec tl_run :: "thread_event list \<Rightarrow> thread_local \<times> objects \<Rightarrow> nat list \<times> thread_local \<times> objects" where
  "tl_run [] st = ([], st)"
| "tl_run (e # es) st =
     (case e of
        Use t \<Rightarrow>
          let (v, st) = ThreadLocal_value t st; (vs, st) = tl_run es st in (v # vs, st)
      | ThreadExit t \<Rightarrow> tl_run es (ThreadLocal_threadExit t st))"

primrec tls_run ::
  "thread_event list \<Rightarrow> thread_local_singleton \<times> objects \<Rightarrow> (nat list \<times> thread_local_singleton \<times> objects) result" where
  "tls_run [] st = Inr ([], st)"
| "tls_run (e # es) st =
     (case e of
        Use t \<Rightarrow>
          bindE (ThreadLocalSingleton_instance t st) (\<lambda>(v, st).
          bindE (tls_run es st) (\<lambda>(vs, st). Inr (v # vs, st)))
      | ThreadExit t \<Rightarrow> bindE (ThreadLocalSingleton_threadExit t st) (tls_run es))"

text \<open>A thread does nothing after its exit.\<close>

primrec orderly :: "nat set \<Rightarrow> thread_event list \<Rightarrow> bool" where
  "orderly gone [] = True"
| "orderly gone (e # es) =
     (case e of Use t \<Rightarrow> t \<notin> gone \<and> orderly gone es | ThreadExit t \<Rightarrow> t \<notin> gone \<and> orderly (insert t gone) es)"

definition one_owner :: "(nat \<Rightarrow> nat option) \<Rightarrow> bool" where
  "one_owner f \<longleftrightarrow> (\<forall>t u v. f t = Some v \<and> f u = Some v \<longrightarrow> t = u)"

lemma one_owner_upd: "one_owner f \<Longrightarrow> v \<notin> ran f \<Longrightarrow> one_owner (f(t \<mapsto> v))"
  by (auto simp: one_owner_def ran_def)

lemma one_owner_none: "one_owner f \<Longrightarrow> one_owner (f(t := None))"
  by (auto simp: one_owner_def)

definition tl_inv :: "thread_local \<times> objects \<Rightarrow> bool" where
  "tl_inv = (\<lambda>(l, ob). tl_pkey l \<and> one_owner (tl_values l) \<and> accounted (ran (tl_values l)) ob)"

lemma tl_inv_new: "tl_inv (ThreadLocal_new key, objects_init)"
  by (auto simp: tl_inv_def ThreadLocal_new_def objects_init_def accounted_def one_owner_def ran_def)

lemma value_inv:
  assumes "tl_inv st" and "ThreadLocal_value t st = (v, st')"
  shows "tl_inv st'" "tl_values (fst st') t = Some v" "v \<notin> set (o_deleted (snd st'))"
    and "\<And>u. u \<noteq> t \<Longrightarrow> tl_values (fst st') u = tl_values (fst st) u"
proof -
  obtain l ob where st: "st = (l, ob)" by fastforce
  have acc: "tl_pkey l" "one_owner (tl_values l)" "accounted (ran (tl_values l)) ob"
    using assms(1) st by (simp_all add: tl_inv_def)
  have "tl_inv st' \<and> tl_values (fst st') t = Some v \<and> v \<notin> set (o_deleted (snd st'))
      \<and> (\<forall>u. u \<noteq> t \<longrightarrow> tl_values (fst st') u = tl_values (fst st) u)"
  proof (cases "tl_values l t")
    case None
    have st': "st' = (l\<lparr>tl_values := (tl_values l)(t \<mapsto> v)\<rparr>, ob\<lparr>o_next := o_next ob + 1\<rparr>)" "v = o_next ob"
      using assms(2) st None by (auto simp: ThreadLocal_value_def new_object_def)
    have fresh: "o_next ob \<notin> ran (tl_values l)" "o_next ob \<notin> set (o_deleted ob)"
      using acc(3) by (auto simp: accounted_def)
    then have "one_owner ((tl_values l)(t \<mapsto> v))" using acc(2) st'(2) by (intro one_owner_upd) simp_all
    moreover have "accounted (ran ((tl_values l)(t \<mapsto> v))) (ob\<lparr>o_next := o_next ob + 1\<rparr>)"
      using acc(3) fresh None st'(2) by (auto simp: accounted_def)
    ultimately show ?thesis using st' st acc(1) fresh by (simp add: tl_inv_def)
  next
    case (Some w)
    then have "w \<notin> set (o_deleted ob)" using acc(3) ranI [of "tl_values l" t w] unfolding accounted_def by blast
    moreover have "st' = (l, ob)" "v = w" using assms(2) st Some by (simp_all add: ThreadLocal_value_def)
    ultimately show ?thesis using Some assms(1) st by simp
  qed
  then show "tl_inv st'" "tl_values (fst st') t = Some v" "v \<notin> set (o_deleted (snd st'))"
    "\<And>u. u \<noteq> t \<Longrightarrow> tl_values (fst st') u = tl_values (fst st) u"
    by blast+
qed

lemma exit_inv:
  assumes "tl_inv st"
  shows "tl_inv (ThreadLocal_threadExit t st)"
proof -
  obtain l ob where st: "st = (l, ob)" by fastforce
  show ?thesis
  proof (cases "tl_values l t")
    case (Some v)
    have acc: "tl_pkey l" "one_owner (tl_values l)" "accounted (ran (tl_values l)) ob"
      using assms st by (simp_all add: tl_inv_def)
    have inj: "tl_values l u = Some v \<Longrightarrow> u = t" for u
      using acc(2) Some by (simp add: one_owner_def)
    have ran: "ran ((tl_values l)(t := None)) = ran (tl_values l) - {v}"
    proof (intro set_eqI iffI)
      fix w assume "w \<in> ran ((tl_values l)(t := None))"
      then obtain u where "u \<noteq> t" "tl_values l u = Some w" by (auto simp: ran_def split: if_splits)
      then show "w \<in> ran (tl_values l) - {v}" using inj [of u] by (auto intro: ranI)
    next
      fix w assume "w \<in> ran (tl_values l) - {v}"
      then obtain u where "tl_values l u = Some w" "w \<noteq> v" by (auto simp: ran_def)
      then show "w \<in> ran ((tl_values l)(t := None))" using Some by (intro ranI [of _ u]) auto
    qed
    have "v \<in> ran (tl_values l)" using Some by (rule ranI)
    have "one_owner ((tl_values l)(t := None))" using acc(2) by (rule one_owner_none)
    moreover have "accounted (ran ((tl_values l)(t := None))) (delete_object v ob)"
      using acc(3) ran \<open>v \<in> ran (tl_values l)\<close> by (auto simp: accounted_def delete_object_def)
    ultimately show ?thesis using st Some acc(1)
      by (simp add: ThreadLocal_threadExit_def ThreadLocal_destructor_def tl_inv_def)
  qed (use assms st in \<open>simp add: ThreadLocal_threadExit_def\<close>)
qed

lemma run_tl_inv: "tl_inv st \<Longrightarrow> tl_run es st = (vs, st') \<Longrightarrow> tl_inv st'"
proof (induction es arbitrary: st vs)
  case (Cons e es)
  show ?case
  proof (cases e)
    case (Use t)
    then show ?thesis using Cons.IH Cons.prems by (auto dest: value_inv(1) split: prod.splits)
  next
    case (ThreadExit t)
    then show ?thesis using Cons.IH [OF exit_inv [OF Cons.prems(1)]] Cons.prems(2) by auto
  qed
qed simp

text \<open>A thread that has not exited keeps its object.\<close>

lemma tl_run_keeps:
  "tl_inv st \<Longrightarrow> tl_values (fst st) t = Some v \<Longrightarrow> ThreadExit t \<notin> set es \<Longrightarrow> tl_run es st = (vs, st')
    \<Longrightarrow> tl_values (fst st') t = Some v"
proof (induction es arbitrary: st vs)
  case (Cons e es)
  show ?case
  proof (cases e)
    case (Use u)
    obtain w st1 where st1: "ThreadLocal_value u st = (w, st1)" by (rule prod.exhaust)
    have "tl_values (fst st1) t = Some v"
    proof (cases "u = t")
      case True
      then show ?thesis using st1 Cons.prems(2) by (cases st) (auto simp: ThreadLocal_value_def)
    qed (use value_inv(4) [OF Cons.prems(1) st1, of t] Cons.prems(2) in simp)
    then show ?thesis using Cons.IH [OF value_inv(1) [OF Cons.prems(1) st1]] Cons.prems(3,4) st1 Use
      by (auto split: prod.splits)
  next
    case (ThreadExit u)
    have "tl_values (fst (ThreadLocal_threadExit u st)) t = Some v"
      using Cons.prems(2,3) ThreadExit
      by (cases st) (auto simp: ThreadLocal_threadExit_def split: option.splits)
    then show ?thesis using Cons.IH [OF exit_inv [OF Cons.prems(1)]] Cons.prems(3,4) ThreadExit by auto
  qed
qed simp

text \<open>The two classes for values per thread agree while the threads are orderly.\<close>

definition agree :: "nat set \<Rightarrow> thread_local \<Rightarrow> thread_local_singleton \<Rightarrow> bool" where
  "agree gone l s \<longleftrightarrow> tl_pkey l \<and> ts_pkey s \<and> ts_specific s = tl_values l
     \<and> (\<forall>t. t \<notin> gone \<longrightarrow> ts_value s t = tl_values l t)"

lemma runs_agree:
  "agree gone l s \<Longrightarrow> orderly gone es \<Longrightarrow> tl_run es (l, ob) = (vs, l', ob') \<Longrightarrow>
    \<exists>s'. tls_run es (s, ob) = Inr (vs, s', ob')"
proof (induction es arbitrary: gone l s ob vs)
  case (Cons e es)
  show ?case
  proof (cases e)
    case (Use t)
    have t: "ts_value s t = tl_values l t" "ts_specific s t = tl_values l t" "orderly gone es"
      using Cons.prems(1,2) Use by (auto simp: agree_def)
    show ?thesis
    proof (cases "tl_values l t")
      case None
      let ?v = "o_next ob" and ?ob = "ob\<lparr>o_next := o_next ob + 1\<rparr>"
      let ?l = "l\<lparr>tl_values := (tl_values l)(t \<mapsto> ?v)\<rparr>"
      let ?s = "s\<lparr>ts_value := (ts_value s)(t \<mapsto> ?v), ts_specific := (ts_specific s)(t \<mapsto> ?v)\<rparr>"
      obtain vs1 where vs1: "tl_run es (?l, ?ob) = (vs1, l', ob')" "vs = ?v # vs1"
        using Cons.prems(3) Use None by (auto simp: ThreadLocal_value_def new_object_def split: prod.splits)
      have "agree gone ?l ?s" using Cons.prems(1) by (auto simp: agree_def)
      from Cons.IH [OF this t(3) vs1(1)] obtain s' where "tls_run es (?s, ?ob) = Inr (vs1, s', ob')" by blast
      then show ?thesis using Use None t vs1(2)
        by (simp add: ThreadLocalSingleton_instance_def new_object_def Deleter_set_def)
    next
      case (Some v)
      obtain vs1 where vs1: "tl_run es (l, ob) = (vs1, l', ob')" "vs = v # vs1"
        using Cons.prems(3) Use Some by (auto simp: ThreadLocal_value_def split: prod.splits)
      from Cons.IH [OF Cons.prems(1) t(3) vs1(1)] obtain s' where "tls_run es (s, ob) = Inr (vs1, s', ob')" by blast
      then show ?thesis using Use Some t vs1(2) by (simp add: ThreadLocalSingleton_instance_def)
    qed
  next
    case (ThreadExit t)
    have t: "ts_value s t = tl_values l t" "ts_specific s t = tl_values l t" "orderly (insert t gone) es"
      using Cons.prems(1,2) ThreadExit by (auto simp: agree_def)
    show ?thesis
    proof (cases "tl_values l t")
      case None
      have "agree (insert t gone) l s" using Cons.prems(1) by (auto simp: agree_def)
      from Cons.IH [OF this t(3)] show ?thesis using Cons.prems(3) ThreadExit None t
        by (simp add: ThreadLocal_threadExit_def ThreadLocalSingleton_threadExit_def)
    next
      case (Some v)
      let ?l = "l\<lparr>tl_values := (tl_values l)(t := None)\<rparr>"
      let ?s = "s\<lparr>ts_specific := (ts_specific s)(t := None)\<rparr>"
      have "agree (insert t gone) ?l ?s" "tl_pkey l" "ts_pkey s" using Cons.prems(1) by (auto simp: agree_def)
      then show ?thesis using Cons.IH [of "insert t gone" ?l ?s "delete_object v ob" vs] Cons.prems(3) ThreadExit Some t
        by (simp add: ThreadLocal_threadExit_def ThreadLocal_destructor_def ThreadLocalSingleton_threadExit_def
            ThreadLocalSingleton_destructor_def)
    qed
  qed
qed simp

lemma agree_new: "agree {} (ThreadLocal_new key) (Deleter_new key')"
  by (simp add: agree_def ThreadLocal_new_def Deleter_new_def)

text \<open>Nothing is deleted any more when the key is gone; while it is there, an exit deletes the thread's object.\<close>

lemma exits_after_destroy:
  "\<not> tl_pkey l \<Longrightarrow> o_deleted (snd (snd (tl_run (map ThreadExit ts) (l, ob)))) = o_deleted ob"
proof (induction ts arbitrary: l)
  case (Cons t ts)
  then show ?case by (auto simp: ThreadLocal_threadExit_def split: option.splits)
qed simp

lemma exits_with_key:
  "tl_pkey l \<Longrightarrow> tl_values l t = Some v \<Longrightarrow> t \<in> set ts \<or> v \<in> set (o_deleted ob) \<Longrightarrow>
    v \<in> set (o_deleted (snd (snd (tl_run (map ThreadExit ts) (l, ob)))))"
proof (induction ts arbitrary: l ob)
  case (Cons u ts)
  show ?case
  proof (cases "u = t")
    case True
    let ?l = "l\<lparr>tl_values := (tl_values l)(t := None)\<rparr>" and ?ob = "ThreadLocal_destructor v ob"
    have gone: "v \<in> set (o_deleted ob') \<Longrightarrow> v \<in> set (o_deleted (snd (snd (tl_run (map ThreadExit ts) (l', ob')))))"
      for l' ob'
      by (induction ts arbitrary: l' ob')
        (auto simp: ThreadLocal_threadExit_def ThreadLocal_destructor_def delete_object_def split: option.splits)
    show ?thesis using True Cons.prems gone [of ?ob ?l]
      by (simp add: ThreadLocal_threadExit_def ThreadLocal_destructor_def delete_object_def)
  next
    case False
    obtain l1 ob1 where e: "ThreadLocal_threadExit u (l, ob) = (l1, ob1)" by (rule prod.exhaust)
    have "tl_pkey l1" "tl_values l1 t = Some v" "v \<in> set (o_deleted ob) \<longrightarrow> v \<in> set (o_deleted ob1)"
      using e False Cons.prems
      by (auto simp: ThreadLocal_threadExit_def ThreadLocal_destructor_def delete_object_def split: option.splits if_splits)
    then show ?thesis using Cons.IH [of l1 ob1] Cons.prems(3) e False by auto
  qed
qed auto

lemma tl_run_key: "tl_run es st = (vs, st') \<Longrightarrow> tl_key (fst st') = tl_key (fst st)"
proof (induction es arbitrary: st vs)
  case (Cons e es)
  show ?case
  proof (cases e)
    case (Use t)
    obtain v st1 where st1: "ThreadLocal_value t st = (v, st1)" by (rule prod.exhaust)
    have "tl_key (fst st1) = tl_key (fst st)"
      using st1 by (cases st) (auto simp: ThreadLocal_value_def new_object_def split: option.splits)
    then show ?thesis using Cons.IH [of st1] Cons.prems Use st1 by (auto split: prod.splits)
  next
    case (ThreadExit t)
    have "tl_key (fst (ThreadLocal_threadExit t st)) = tl_key (fst st)"
      by (cases st) (auto simp: ThreadLocal_threadExit_def split: option.splits)
    then show ?thesis using Cons.IH Cons.prems ThreadExit by auto
  qed
qed simp

text \<open>
  C35. The owners of objects. However often and in whatever threads instance is called, a Singleton
  is one object, deleted once at exit; later calls return the deleted object. In every run of
  threads that use a ThreadLocal and exit, no two threads share an object, a thread keeps its
  object until it exits, each object is owned by one thread or has been deleted exactly once, and
  what value returns is not deleted. The destructor of a ThreadLocal deletes no object. It passes the address of
  its key: unless that number happens to be the key, the key stays and a thread that exits later still
  deletes its object; if it is the key, the objects of the threads that outlive the ThreadLocal are
  never deleted. A ThreadLocalSingleton fails no assertion and hands out and deletes the same
  objects, as long as no thread uses it after its exit.
\<close>

theorem objects_owned_once:
  assumes "orderly {} es" and run: "tl_run es (ThreadLocal_new key, objects_init) = (vs, l, ob)"
  shows "(\<exists>s ob1. instances (Suc n) (singleton_static, objects_init) = Inr (replicate (Suc n) 0, s, ob1)
      \<and> o_next ob1 = 1 \<and> o_deleted ob1 = []
      \<and> o_deleted (snd (Singleton_exit (s, ob1))) = [0]
      \<and> (\<exists>st. Singleton_instance (Singleton_exit (s, ob1)) = Inr (0, st)))
    \<and> (\<forall>t u v. tl_values l t = Some v \<and> tl_values l u = Some v \<longrightarrow> t = u)
    \<and> accounted (ran (tl_values l)) ob
    \<and> (\<forall>t v l1 ob1 es' vs' l2 ob2. ThreadLocal_value t (l, ob) = (v, l1, ob1) \<and> ThreadExit t \<notin> set es'
        \<and> tl_run es' (l1, ob1) = (vs', l2, ob2) \<longrightarrow>
        v \<notin> set (o_deleted ob2) \<and> ThreadLocal_value t (l2, ob2) = (v, l2, ob2))
    \<and> (\<forall>address ts. let ob' = snd (snd (tl_run (map ThreadExit ts) (ThreadLocal_destroy address l, ob))) in
        if address = key then o_deleted ob' = o_deleted ob
        else \<forall>t \<in> set ts. \<forall>v. tl_values l t = Some v \<longrightarrow> v \<in> set (o_deleted ob'))
    \<and> (\<exists>s. tls_run es (Deleter_new key', objects_init) = Inr (vs, s, ob))"
proof (intro conjI)
  show "\<exists>s ob1. instances (Suc n) (singleton_static, objects_init) = Inr (replicate (Suc n) 0, s, ob1)
      \<and> o_next ob1 = 1 \<and> o_deleted ob1 = [] \<and> o_deleted (snd (Singleton_exit (s, ob1))) = [0]
      \<and> (\<exists>st. Singleton_instance (Singleton_exit (s, ob1)) = Inr (0, st))"
    unfolding instances_first
    by (auto simp: Singleton_exit_def Singleton_Destroy_def delete_object_def Singleton_instance_def)
  have inv: "tl_inv (l, ob)" using run_tl_inv [OF tl_inv_new run] .
  then show "\<forall>t u v. tl_values l t = Some v \<and> tl_values l u = Some v \<longrightarrow> t = u"
    by (simp add: tl_inv_def one_owner_def)
  show "accounted (ran (tl_values l)) ob" using inv by (simp add: tl_inv_def)
  show "\<forall>t v l1 ob1 es' vs' l2 ob2. ThreadLocal_value t (l, ob) = (v, l1, ob1) \<and> ThreadExit t \<notin> set es'
        \<and> tl_run es' (l1, ob1) = (vs', l2, ob2) \<longrightarrow>
        v \<notin> set (o_deleted ob2) \<and> ThreadLocal_value t (l2, ob2) = (v, l2, ob2)"
  proof (intro allI impI, elim conjE)
    fix t v l1 ob1 es' vs' l2 ob2
    assume val: "ThreadLocal_value t (l, ob) = (v, l1, ob1)" and stay: "ThreadExit t \<notin> set es'"
      and run': "tl_run es' (l1, ob1) = (vs', l2, ob2)"
    have inv1: "tl_inv (l1, ob1)" using value_inv(1) [OF inv val] .
    have "tl_values l2 t = Some v"
      using tl_run_keeps [OF inv1 _ stay run'] value_inv(2) [OF inv val] by simp
    then have same: "ThreadLocal_value t (l2, ob2) = (v, l2, ob2)" by (simp add: ThreadLocal_value_def)
    have "v \<notin> set (o_deleted ob2)" using value_inv(3) [OF run_tl_inv [OF inv1 run'] same] by simp
    then show "v \<notin> set (o_deleted ob2) \<and> ThreadLocal_value t (l2, ob2) = (v, l2, ob2)" using same by simp
  qed
  have "tl_key l = key" using tl_run_key [OF run] by (simp add: ThreadLocal_new_def)
  then show "\<forall>address ts. let ob' = snd (snd (tl_run (map ThreadExit ts) (ThreadLocal_destroy address l, ob))) in
        if address = key then o_deleted ob' = o_deleted ob
        else \<forall>t \<in> set ts. \<forall>v. tl_values l t = Some v \<longrightarrow> v \<in> set (o_deleted ob')"
    using exits_after_destroy exits_with_key [of l] inv by (auto simp: ThreadLocal_destroy_def tl_inv_def Let_def)
  show "\<exists>s. tls_run es (Deleter_new key', objects_init) = Inr (vs, s, ob)"
    using runs_agree [OF agree_new assms] .
qed

theorem objects_owned_once_witness:
  "\<exists>vs l ob s. tl_run [Use 1, Use 2, ThreadExit 1, Use 2] (ThreadLocal_new 5, objects_init) = (vs, l, ob)
     \<and> accounted (ran (tl_values l)) ob
     \<and> tls_run [Use 1, Use 2, ThreadExit 1, Use 2] (Deleter_new 6, objects_init) = Inr (vs, s, ob)"
proof -
  obtain vs l ob where run: "tl_run [Use 1, Use 2, ThreadExit 1, Use 2] (ThreadLocal_new 5, objects_init) = (vs, l, ob)"
    using prod_cases3 by blast
  show ?thesis using objects_owned_once [OF _ run] run by simp
qed

end
