(* ===== verification/AcceptMutex.thy ===== *)
theory AcceptMutex
  imports Prelude
begin

text \<open>
  The upper half of time-sem.c: the mutual exclusion of processes, in the six configurations that
  its comment compiles. The static variables and the kernel's side of the lock are one record, of which
  each configuration uses its part. What the system calls answer is an argument; a call that waits
  while another process has the lock is not enabled. Process 0 is the parent, its children are
  numbered from 1. The name of an open file description is the number of the process that opened it.
\<close>

section \<open>The lock and the processes that share it\<close>

datatype lock_config = FCNTL | FLOCK | SYSVSEM | SYSVSEM2 | PTHREAD | USLOCK

type_synonym pid = nat

datatype lock_call =
    C_open
  | C_mmap
  | C_mutexattr_init
  | C_setpshared
  | C_mutex_init
  | C_semget
  | C_semctl
  | C_usconfig nat
  | C_usinit
  | C_usnewlock
  | C_sigprocmask
  | C_lock
  | C_unlock

datatype answer = Done | Interrupted | Failed

type_synonym lock_system = "lock_call \<Rightarrow> answer"

text \<open>
  \<open>lk_owner\<close>: who has the lock (for FLOCK the file description that has it). \<open>lk_value\<close>, \<open>lk_adj\<close>: the
  semaphore and what the exit of a process adds to it. \<open>lk_fds\<close>: who has which file description open;
  \<open>lk_fd\<close>: the variable flock\_fd of each process. \<open>lk_mask\<close>, \<open>lk_prev\<close>: whether a process has the
  signals of accept\_block\_mask blocked (all but HUP, TERM and USR1), and whether its
  accept\_previous\_mask has. \<open>lk_file\<close>: whether the lock file is in the current directory; an open of a
  child after its removal is one that the system answers with Failed.
\<close>

record lock_state =
  lk_owner :: "pid option"
  lk_value :: int
  lk_adj :: "pid \<Rightarrow> int"
  lk_fds :: "(pid \<times> pid) list"
  lk_fd :: "pid \<Rightarrow> pid"
  lk_mask :: "pid \<Rightarrow> bool"
  lk_prev :: "pid \<Rightarrow> bool"
  lk_file :: bool

definition lock_static :: lock_state where
  "lock_static = \<lparr>lk_owner = None, lk_value = 0, lk_adj = (\<lambda>_. 0), lk_fds = [], lk_fd = (\<lambda>_. 0),
     lk_mask = (\<lambda>_. False), lk_prev = (\<lambda>_. False), lk_file = False\<rparr>"

text \<open>A call returns, is repeated by the loop around it, ends the process, or waits.\<close>

datatype outcome = Continue lock_state | Again lock_state | ExitWith int lock_state | Waits

definition check_call :: "lock_system \<Rightarrow> lock_call \<Rightarrow> int \<Rightarrow> lock_state \<Rightarrow> outcome \<Rightarrow> outcome" where
  "check_call sys c code lk rest = (if sys c = Done then rest else ExitWith code lk)"

section \<open>USE\_FCNTL\_SERIALIZED\_ACCEPT\<close>

text \<open>The file is removed as soon as it is open.\<close>

definition fcntl_mutex_init :: "lock_system \<Rightarrow> lock_state \<Rightarrow> outcome" where
  "fcntl_mutex_init sys lk = check_call sys C_open 1 lk (Continue lk)"

definition fcntl_mutex_on :: "lock_system \<Rightarrow> pid \<Rightarrow> lock_state \<Rightarrow> outcome" where
  "fcntl_mutex_on sys p lk =
     (case sys C_lock of
        Done \<Rightarrow> if lk_owner lk = None \<or> lk_owner lk = Some p then Continue (lk\<lparr>lk_owner := Some p\<rparr>) else Waits
      | Interrupted \<Rightarrow> Again lk
      | Failed \<Rightarrow> ExitWith 1 lk)"

definition fcntl_mutex_off :: "lock_system \<Rightarrow> pid \<Rightarrow> lock_state \<Rightarrow> outcome" where
  "fcntl_mutex_off sys p lk =
     check_call sys C_unlock 1 lk
       (Continue (lk\<lparr>lk_owner := (if lk_owner lk = Some p then None else lk_owner lk)\<rparr>))"

section \<open>USE\_FLOCK\_SERIALIZED\_ACCEPT\<close>

definition flock_mutex_init :: "lock_system \<Rightarrow> lock_state \<Rightarrow> outcome" where
  "flock_mutex_init sys lk =
     check_call sys C_open 1 lk
       (Continue (lk\<lparr>lk_fds := lk_fds lk @ [(0, 0)], lk_fd := (lk_fd lk)(0 := 0), lk_file := True\<rparr>))"

definition flock_mutex_child_init :: "lock_system \<Rightarrow> pid \<Rightarrow> lock_state \<Rightarrow> outcome" where
  "flock_mutex_child_init sys p lk =
     check_call sys C_open 1 lk (Continue (lk\<lparr>lk_fds := lk_fds lk @ [(p, p)], lk_fd := (lk_fd lk)(p := p)\<rparr>))"

definition flock_mutex_on :: "lock_system \<Rightarrow> pid \<Rightarrow> lock_state \<Rightarrow> outcome" where
  "flock_mutex_on sys p lk =
     (case sys C_lock of
        Done \<Rightarrow>
          if lk_owner lk = None \<or> lk_owner lk = Some (lk_fd lk p)
          then Continue (lk\<lparr>lk_owner := Some (lk_fd lk p)\<rparr>) else Waits
      | Interrupted \<Rightarrow> Again lk
      | Failed \<Rightarrow> ExitWith 1 lk)"

definition flock_mutex_off :: "lock_system \<Rightarrow> pid \<Rightarrow> lock_state \<Rightarrow> outcome" where
  "flock_mutex_off sys p lk =
     check_call sys C_unlock 1 lk
       (Continue (lk\<lparr>lk_owner := (if lk_owner lk = Some (lk_fd lk p) then None else lk_owner lk)\<rparr>))"

definition flock_mutex_cleanup :: "lock_state \<Rightarrow> lock_state" where
  "flock_mutex_cleanup lk = lk\<lparr>lk_file := False\<rparr>"

section \<open>USE\_SYSVSEM\_SERIALIZED\_ACCEPT\<close>

text \<open>The argument no\_undo is the macro NO\_SEM\_UNDO.\<close>

definition sem_mutex_init :: "lock_system \<Rightarrow> lock_state \<Rightarrow> outcome" where
  "sem_mutex_init sys lk =
     check_call sys C_semget 1 lk (check_call sys C_semctl 1 lk (Continue (lk\<lparr>lk_value := 1\<rparr>)))"

definition block_signals :: "pid \<Rightarrow> lock_state \<Rightarrow> lock_state" where
  "block_signals p lk = lk\<lparr>lk_prev := (lk_prev lk)(p := lk_mask lk p), lk_mask := (lk_mask lk)(p := True)\<rparr>"

definition restore_signals :: "pid \<Rightarrow> lock_state \<Rightarrow> lock_state" where
  "restore_signals p lk = lk\<lparr>lk_mask := (lk_mask lk)(p := lk_prev lk p)\<rparr>"

definition semop :: "lock_system \<Rightarrow> lock_call \<Rightarrow> int \<Rightarrow> bool \<Rightarrow> pid \<Rightarrow> lock_state \<Rightarrow> outcome" where
  "semop sys c sem_op undo p lk =
     check_call sys c 1 lk
       (if lk_value lk + sem_op < 0 then Waits
        else Continue (lk\<lparr>lk_value := lk_value lk + sem_op,
                          lk_adj := (if undo then (lk_adj lk)(p := lk_adj lk p - sem_op) else lk_adj lk)\<rparr>))"

definition sem_mutex_on :: "bool \<Rightarrow> lock_system \<Rightarrow> pid \<Rightarrow> lock_state \<Rightarrow> outcome" where
  "sem_mutex_on no_undo sys p lk =
     (if no_undo
      then check_call sys C_sigprocmask 1 lk (semop sys C_lock (- 1) False p (block_signals p lk))
      else semop sys C_lock (- 1) True p lk)"

definition sem_mutex_off :: "bool \<Rightarrow> lock_system \<Rightarrow> pid \<Rightarrow> lock_state \<Rightarrow> outcome" where
  "sem_mutex_off no_undo sys p lk =
     (case semop sys C_unlock 1 (\<not> no_undo) p lk of
        Continue lk' \<Rightarrow>
          if no_undo then check_call sys C_sigprocmask 1 lk' (Continue (restore_signals p lk')) else Continue lk'
      | out \<Rightarrow> out)"

section \<open>USE\_PTHREAD\_SERIALIZED\_ACCEPT\<close>

definition pthread_mutex_init_shared :: "lock_system \<Rightarrow> lock_state \<Rightarrow> outcome" where
  "pthread_mutex_init_shared sys lk =
     check_call sys C_open 1 lk (check_call sys C_mmap 1 lk (check_call sys C_mutexattr_init 1 lk
       (check_call sys C_setpshared 1 lk (check_call sys C_mutex_init 1 lk (Continue lk)))))"

definition pthread_mutex_on :: "lock_system \<Rightarrow> pid \<Rightarrow> lock_state \<Rightarrow> outcome" where
  "pthread_mutex_on sys p lk =
     check_call sys C_sigprocmask 1 lk
       (let lk' = block_signals p lk in
        check_call sys C_lock 1 lk'
          (if lk_owner lk' = None then Continue (lk'\<lparr>lk_owner := Some p\<rparr>) else Waits))"

definition pthread_mutex_off :: "lock_system \<Rightarrow> pid \<Rightarrow> lock_state \<Rightarrow> outcome" where
  "pthread_mutex_off sys p lk =
     check_call sys C_unlock 1 lk
       (let lk' = lk\<lparr>lk_owner := None\<rparr> in
        check_call sys C_sigprocmask 1 lk' (Continue (restore_signals p lk')))"

section \<open>USE\_USLOCK\_SERIALIZED\_ACCEPT\<close>

definition uslock_mutex_init :: "lock_system \<Rightarrow> lock_state \<Rightarrow> outcome" where
  "uslock_mutex_init sys lk =
     check_call sys (C_usconfig 0) (- 1) lk (check_call sys (C_usconfig 1) (- 1) lk
       (check_call sys (C_usconfig 2) (- 1) lk (check_call sys C_usinit (- 1) lk
         (check_call sys C_usnewlock (- 1) lk (Continue lk)))))"

text \<open>ussetlock answers 1, 0 or -1: the last two end the process.\<close>

definition uslock_mutex_on :: "lock_system \<Rightarrow> pid \<Rightarrow> lock_state \<Rightarrow> outcome" where
  "uslock_mutex_on sys p lk =
     check_call sys C_lock (- 1) lk
       (if lk_owner lk = None then Continue (lk\<lparr>lk_owner := Some p\<rparr>) else Waits)"

definition uslock_mutex_off :: "lock_system \<Rightarrow> pid \<Rightarrow> lock_state \<Rightarrow> outcome" where
  "uslock_mutex_off sys p lk = check_call sys C_unlock (- 1) lk (Continue (lk\<lparr>lk_owner := None\<rparr>))"

section \<open>What the program calls\<close>

definition accept_mutex_init :: "lock_config \<Rightarrow> lock_system \<Rightarrow> lock_state \<Rightarrow> outcome" where
  "accept_mutex_init cfg sys lk =
     (case cfg of
        FCNTL \<Rightarrow> fcntl_mutex_init sys lk | FLOCK \<Rightarrow> flock_mutex_init sys lk
      | SYSVSEM \<Rightarrow> sem_mutex_init sys lk | SYSVSEM2 \<Rightarrow> sem_mutex_init sys lk
      | PTHREAD \<Rightarrow> pthread_mutex_init_shared sys lk | USLOCK \<Rightarrow> uslock_mutex_init sys lk)"

text \<open>Only FLOCK has more than an empty macro.\<close>

definition accept_mutex_child_init :: "lock_config \<Rightarrow> lock_system \<Rightarrow> pid \<Rightarrow> lock_state \<Rightarrow> outcome" where
  "accept_mutex_child_init cfg sys p lk =
     (if cfg = FLOCK then flock_mutex_child_init sys p lk else Continue lk)"

definition accept_mutex_on :: "lock_config \<Rightarrow> lock_system \<Rightarrow> pid \<Rightarrow> lock_state \<Rightarrow> outcome" where
  "accept_mutex_on cfg sys p lk =
     (case cfg of
        FCNTL \<Rightarrow> fcntl_mutex_on sys p lk | FLOCK \<Rightarrow> flock_mutex_on sys p lk
      | SYSVSEM \<Rightarrow> sem_mutex_on False sys p lk | SYSVSEM2 \<Rightarrow> sem_mutex_on True sys p lk
      | PTHREAD \<Rightarrow> pthread_mutex_on sys p lk | USLOCK \<Rightarrow> uslock_mutex_on sys p lk)"

definition accept_mutex_off :: "lock_config \<Rightarrow> lock_system \<Rightarrow> pid \<Rightarrow> lock_state \<Rightarrow> outcome" where
  "accept_mutex_off cfg sys p lk =
     (case cfg of
        FCNTL \<Rightarrow> fcntl_mutex_off sys p lk | FLOCK \<Rightarrow> flock_mutex_off sys p lk
      | SYSVSEM \<Rightarrow> sem_mutex_off False sys p lk | SYSVSEM2 \<Rightarrow> sem_mutex_off True sys p lk
      | PTHREAD \<Rightarrow> pthread_mutex_off sys p lk | USLOCK \<Rightarrow> uslock_mutex_off sys p lk)"

definition accept_mutex_cleanup :: "lock_config \<Rightarrow> lock_state \<Rightarrow> lock_state" where
  "accept_mutex_cleanup cfg lk = (if cfg = FLOCK then flock_mutex_cleanup lk else lk)"

section \<open>What fork and exit do to the lock\<close>

text \<open>A child inherits the descriptors and the signal mask; locks and semaphore adjustments are not inherited.\<close>

definition lock_fork :: "pid \<Rightarrow> lock_state \<Rightarrow> lock_state" where
  "lock_fork child lk =
     lk\<lparr>lk_fds := lk_fds lk @ map (\<lambda>(_, d). (child, d)) (filter (\<lambda>(p, _). p = 0) (lk_fds lk)),
        lk_fd := (lk_fd lk)(child := lk_fd lk 0),
        lk_mask := (lk_mask lk)(child := lk_mask lk 0), lk_prev := (lk_prev lk)(child := lk_prev lk 0)\<rparr>"

text \<open>
  The kernel releases the record locks of a process that exits, closes its descriptors (a lock of
  flock goes with the last descriptor of its file description), and undoes semaphore operations; a
  pthread mutex and a uslock stay locked.
\<close>

definition lock_exit :: "lock_config \<Rightarrow> pid \<Rightarrow> lock_state \<Rightarrow> lock_state" where
  "lock_exit cfg p lk =
     (case cfg of
        FCNTL \<Rightarrow> lk\<lparr>lk_owner := (if lk_owner lk = Some p then None else lk_owner lk)\<rparr>
      | FLOCK \<Rightarrow>
          let fds = filter (\<lambda>(q, _). q \<noteq> p) (lk_fds lk) in
          lk\<lparr>lk_fds := fds,
             lk_owner := (case lk_owner lk of
                            Some d \<Rightarrow> if d \<in> snd ` set fds then Some d else None | None \<Rightarrow> None)\<rparr>
      | SYSVSEM \<Rightarrow> lk\<lparr>lk_value := lk_value lk + lk_adj lk p, lk_adj := (lk_adj lk)(p := 0)\<rparr>
      | _ \<Rightarrow> lk)"

section \<open>The contract\<close>

text \<open>
  The locks of all configurations keep the same promises. \<open>promise lk h R\<close> says that the process h has
  the lock (or nobody), where R are the processes that are ready to use it. A calm system answers no
  call with an error that ends the process.
\<close>

text \<open>
  Where a process is: not yet using the lock, ready but outside of the critical section, inside, or
  gone. In a strict state nobody has gone with the lock.
\<close>

datatype mode = Unborn | Outside | Inside | Gone

definition ready :: "(pid \<Rightarrow> mode) \<Rightarrow> pid set" where
  "ready m = {p. m p = Outside \<or> m p = Inside}"

lemma ready_upd [simp]:
  "ready (m(p := Outside)) = insert p (ready m)" "ready (m(p := Inside)) = insert p (ready m)"
  "ready (m(p := Gone)) = ready m - {p}"
  by (auto simp: ready_def)

definition holds_lock :: "bool \<Rightarrow> pid option \<Rightarrow> (pid \<Rightarrow> mode) \<Rightarrow> bool" where
  "holds_lock strict h m \<longleftrightarrow> (\<forall>p. m p = Inside \<longrightarrow> h = Some p)
     \<and> (\<forall>p. h = Some p \<longrightarrow> m p = Inside \<or> \<not> strict \<and> m p = Gone)"

definition lock_ok ::
  "(lock_state \<Rightarrow> pid option \<Rightarrow> pid set \<Rightarrow> bool) \<Rightarrow> bool \<Rightarrow> lock_state \<Rightarrow> (pid \<Rightarrow> mode) \<Rightarrow> bool" where
  "lock_ok promise strict lk m \<longleftrightarrow> (\<exists>h. promise lk h (ready m) \<and> holds_lock strict h m)"

lemma lock_ok_exclusive: "lock_ok promise strict lk m \<Longrightarrow> m p = Inside \<Longrightarrow> m q = Inside \<Longrightarrow> p = q"
  by (auto simp: lock_ok_def holds_lock_def)

locale process_lock =
  fixes init :: "lock_system \<Rightarrow> lock_state \<Rightarrow> outcome"
    and child_init on off :: "lock_system \<Rightarrow> pid \<Rightarrow> lock_state \<Rightarrow> outcome"
    and forked :: "pid \<Rightarrow> lock_state \<Rightarrow> lock_state"
    and exited :: "pid \<Rightarrow> lock_state \<Rightarrow> lock_state"
    and promise :: "lock_state \<Rightarrow> pid option \<Rightarrow> pid set \<Rightarrow> bool"
    and calm :: "lock_system \<Rightarrow> bool"
  assumes init_ok: "(\<exists>lk. init sys lock_static = Continue lk \<and> promise lk None {0})
      \<or> (\<exists>c lk. init sys lock_static = ExitWith c lk \<and> \<not> calm sys)"
    and child_init_ok: "promise lk h R \<Longrightarrow> p \<notin> R \<Longrightarrow>
      (\<exists>lk'. child_init sys p lk = Continue lk' \<and> promise lk' h (insert p R))
      \<or> (\<exists>c lk'. child_init sys p lk = ExitWith c lk' \<and> promise lk' h R \<and> \<not> calm sys)"
    and on_free: "promise lk None R \<Longrightarrow> p \<in> R \<Longrightarrow> \<forall>k. sys k = Done \<Longrightarrow>
      \<exists>lk'. on sys p lk = Continue lk' \<and> promise lk' (Some p) R"
    and on_ok: "promise lk h R \<Longrightarrow> p \<in> R \<Longrightarrow> h \<noteq> Some p \<Longrightarrow>
      on sys p lk = Waits \<and> h \<noteq> None
      \<or> (\<exists>lk'. on sys p lk = Continue lk' \<and> h = None \<and> promise lk' (Some p) R)
      \<or> (\<exists>lk'. on sys p lk = Again lk' \<and> promise lk' h R \<and> sys C_lock = Interrupted)
      \<or> (\<exists>c lk'. on sys p lk = ExitWith c lk' \<and> promise lk' h R \<and> \<not> calm sys)"
    and off_ok: "promise lk (Some p) R \<Longrightarrow> p \<in> R \<Longrightarrow>
      (\<exists>lk'. off sys p lk = Continue lk' \<and> promise lk' None R)
      \<or> (\<exists>c lk' h. off sys p lk = ExitWith c lk' \<and> promise lk' h R \<and> h \<in> {None, Some p} \<and> \<not> calm sys)"
    and fork_ok: "promise lk h R \<Longrightarrow> p \<notin> R \<Longrightarrow> p \<noteq> 0 \<Longrightarrow> promise (forked p lk) h R"
    and exit_ok: "promise lk h R \<Longrightarrow> \<exists>h'. promise (exited p lk) h' (R - {p})
      \<and> (h' = h \<or> h' = None \<and> (\<forall>q \<in> R. h = Some q \<longrightarrow> q = p))"

begin

text \<open>What a call does to a lock in order, with the place of the caller before and after.\<close>

definition keeps :: "bool \<Rightarrow> pid \<Rightarrow> (pid \<Rightarrow> mode) \<Rightarrow> mode \<Rightarrow> outcome \<Rightarrow> bool" where
  "keeps strict p m x out \<longleftrightarrow>
     (case out of
        Continue lk \<Rightarrow> lock_ok promise strict lk (m(p := x))
      | Again lk \<Rightarrow> lock_ok promise strict lk m
      | ExitWith c lk \<Rightarrow> \<not> strict \<and> lock_ok promise strict (exited p lk) (m(p := Gone))
      | Waits \<Rightarrow> True)"

lemma exit_keeps:
  assumes "promise lk h (ready m)" and "\<forall>q. m q = Inside \<longrightarrow> q = p \<or> h = Some q"
    and "\<forall>q. h = Some q \<longrightarrow> q = p \<and> \<not> strict \<or> q \<noteq> p \<and> (m q = Inside \<or> \<not> strict \<and> m q = Gone)"
  shows "lock_ok promise strict (exited p lk) (m(p := Gone))"
proof -
  obtain h' where h': "promise (exited p lk) h' (ready (m(p := Gone)))"
      "h' = h \<or> h' = None \<and> (\<forall>q \<in> ready m. h = Some q \<longrightarrow> q = p)"
    using exit_ok [OF assms(1), of p] by auto
  then have "holds_lock strict h' (m(p := Gone))"
    using assms(2,3) by (auto simp: holds_lock_def ready_def)
  then show ?thesis using h'(1) by (auto simp: lock_ok_def)
qed

lemma leave_keeps:
  assumes "lock_ok promise strict lk m" and "m p = Outside \<or> m p = Unborn"
  shows "lock_ok promise strict (exited p lk) (m(p := Gone))"
proof -
  obtain h where "promise lk h (ready m)" "holds_lock strict h m" using assms(1) by (auto simp: lock_ok_def)
  then show ?thesis using assms(2) by (intro exit_keeps [of lk h]) (auto simp: holds_lock_def)
qed

lemma init_keeps:
  "(\<exists>lk. init sys lock_static = Continue lk \<and> lock_ok promise strict lk ((\<lambda>_. Unborn)(0 := Outside)))
   \<or> (\<exists>c lk. init sys lock_static = ExitWith c lk \<and> \<not> calm sys)"
  using init_ok [of sys] by (force simp: lock_ok_def holds_lock_def ready_def)

lemma child_init_keeps:
  assumes "lock_ok promise strict lk m" and "m p = Unborn" and "strict \<longrightarrow> calm sys"
  shows "keeps strict p m Outside (child_init sys p lk)"
proof -
  obtain h where h: "promise lk h (ready m)" "holds_lock strict h m" using assms(1) by (auto simp: lock_ok_def)
  have "p \<notin> ready m" using assms(2) by (simp add: ready_def)
  from child_init_ok [OF h(1) this, of sys] show ?thesis
  proof (elim disjE exE conjE)
    fix lk' assume "child_init sys p lk = Continue lk'" "promise lk' h (insert p (ready m))"
    then show ?thesis using h(2) assms(2) by (auto simp: keeps_def lock_ok_def holds_lock_def intro!: exI [of _ h])
  next
    fix c lk' assume "child_init sys p lk = ExitWith c lk'" "promise lk' h (ready m)" "\<not> calm sys"
    moreover from this have "lock_ok promise strict lk' m" using h(2) by (auto simp: lock_ok_def)
    ultimately show ?thesis using assms(2,3) leave_keeps [of strict lk' m p] by (auto simp: keeps_def)
  qed
qed

lemma on_keeps:
  assumes "lock_ok promise strict lk m" and "m p = Outside" and "strict \<longrightarrow> calm sys"
  shows "keeps strict p m Inside (on sys p lk)"
proof -
  obtain h where h: "promise lk h (ready m)" "holds_lock strict h m" using assms(1) by (auto simp: lock_ok_def)
  have p: "p \<in> ready m" "h \<noteq> Some p" using assms(2) h(2) by (auto simp: ready_def holds_lock_def)
  have same: "promise lk' h (ready m) \<Longrightarrow> lock_ok promise strict lk' m" for lk' using h(2) by (auto simp: lock_ok_def)
  from on_ok [OF h(1) p, of sys] show ?thesis
  proof (elim disjE exE conjE)
    fix lk' assume "on sys p lk = Continue lk'" "h = None" "promise lk' (Some p) (ready m)"
    then show ?thesis using h(2) p(1)
      by (auto simp: keeps_def lock_ok_def holds_lock_def insert_absorb intro!: exI [of _ "Some p"])
  next
    fix c lk' assume "on sys p lk = ExitWith c lk'" "promise lk' h (ready m)" "\<not> calm sys"
    then show ?thesis using same assms(2,3) leave_keeps [of strict lk' m p] by (auto simp: keeps_def)
  qed (use same in \<open>auto simp: keeps_def\<close>)
qed

lemma off_keeps:
  assumes "lock_ok promise strict lk m" and "m p = Inside" and "strict \<longrightarrow> calm sys"
  shows "keeps strict p m Outside (off sys p lk) \<and> (\<forall>lk'. off sys p lk \<noteq> Again lk') \<and> off sys p lk \<noteq> Waits"
proof -
  have h: "promise lk (Some p) (ready m)" "holds_lock strict (Some p) m" and p: "p \<in> ready m"
    using assms(1,2) by (auto simp: lock_ok_def holds_lock_def ready_def)
  from off_ok [OF h(1) p, of sys] show ?thesis
  proof (elim disjE exE conjE)
    fix lk' assume "off sys p lk = Continue lk'" "promise lk' None (ready m)"
    then show ?thesis using h(2) p
      by (auto simp: keeps_def lock_ok_def holds_lock_def insert_absorb intro!: exI [of _ None])
  next
    fix c lk' h' assume "off sys p lk = ExitWith c lk'" "promise lk' h' (ready m)" "h' \<in> {None, Some p}" "\<not> calm sys"
    then show ?thesis using h(2) assms(3) exit_keeps [of lk' h' m p strict]
      by (auto simp: keeps_def holds_lock_def)
  qed
qed

lemma fork_keeps:
  assumes "lock_ok promise strict lk m" and "m p = Unborn" and "p \<noteq> 0"
  shows "lock_ok promise strict (forked p lk) m"
  using assms fork_ok [of lk _ "ready m" p] by (auto simp: lock_ok_def ready_def)

text \<open>Without failures a call goes on, except that a lock that another process has is waited for.\<close>

lemma done_calls:
  assumes "lock_ok promise True lk m" and calm: "\<forall>k. sys k = Done" "calm sys"
  shows "m p = Unborn \<Longrightarrow> \<exists>lk'. child_init sys p lk = Continue lk'"
    and "m p = Outside \<Longrightarrow> (\<exists>lk'. on sys p lk = Continue lk') \<or> on sys p lk = Waits \<and> (\<exists>q. m q = Inside)"
    and "m p = Inside \<Longrightarrow> \<exists>lk'. off sys p lk = Continue lk'"
proof -
  obtain h where h: "promise lk h (ready m)" "holds_lock True h m" using assms(1) by (auto simp: lock_ok_def)
  show "m p = Unborn \<Longrightarrow> \<exists>lk'. child_init sys p lk = Continue lk'"
    using child_init_ok [OF h(1), of p sys] calm by (auto simp: ready_def)
  show "(\<exists>lk'. on sys p lk = Continue lk') \<or> on sys p lk = Waits \<and> (\<exists>q. m q = Inside)" if "m p = Outside"
  proof -
    have "h = Some p \<Longrightarrow> m p = Inside" using h(2) unfolding holds_lock_def by blast
    then have p: "p \<in> ready m" "h \<noteq> Some p" using that by (auto simp: ready_def)
    show ?thesis
    proof (cases h)
      case None
      then show ?thesis using on_free [of lk "ready m" p sys] h(1) p(1) calm by auto
    next
      case (Some q)
      then have "m q = Inside" using h(2) unfolding holds_lock_def by blast
      then show ?thesis using on_ok [OF h(1) p, of sys] calm by auto
    qed
  qed
  show "\<exists>lk'. off sys p lk = Continue lk'" if "m p = Inside"
  proof -
    have "h = Some p" "p \<in> ready m" using that h(2) unfolding holds_lock_def ready_def by blast+
    then show ?thesis using off_ok [of lk p "ready m" sys] h(1) calm(2) by auto
  qed
qed

end

text \<open>The loops of two configurations repeat an interrupted call.\<close>

definition calm :: "lock_config \<Rightarrow> lock_system \<Rightarrow> bool" where
  "calm cfg sys \<longleftrightarrow> (\<forall>k. sys k = Done \<or> k = C_lock \<and> sys k = Interrupted \<and> cfg \<in> {FCNTL, FLOCK})"

lemma calmD:
  "calm cfg sys \<Longrightarrow> k \<noteq> C_lock \<Longrightarrow> sys k = Done"
  "calm cfg sys \<Longrightarrow> sys k \<noteq> Failed"
  "calm cfg sys \<Longrightarrow> sys k = Interrupted \<Longrightarrow> cfg \<in> {FCNTL, FLOCK}"
  by (auto simp: calm_def) (drule spec [of _ k], simp)+

definition lock_inv :: "lock_config \<Rightarrow> lock_state \<Rightarrow> pid option \<Rightarrow> pid set \<Rightarrow> bool" where
  "lock_inv cfg lk h R =
     (case cfg of
        FLOCK \<Rightarrow> lk_owner lk = h \<and> (\<forall>p \<in> R. lk_fd lk p = p \<and> (p, p) \<in> set (lk_fds lk))
          \<and> (\<forall>(p, d) \<in> set (lk_fds lk). d = p \<or> d = 0)
      | SYSVSEM \<Rightarrow> lk_value lk = (if h = None then 1 else 0)
          \<and> (\<forall>p. lk_adj lk p = (if h = Some p then 1 else 0))
      | SYSVSEM2 \<Rightarrow> lk_value lk = (if h = None then 1 else 0)
      | _ \<Rightarrow> lk_owner lk = h)"

lemma lock_ok_cleanup [simp]:
  "lock_ok (lock_inv cfg) strict (accept_mutex_cleanup cfg lk) m = lock_ok (lock_inv cfg) strict lk m"
  by (cases cfg) (simp_all add: lock_ok_def lock_inv_def accept_mutex_cleanup_def flock_mutex_cleanup_def)

lemmas lock_defs = accept_mutex_init_def accept_mutex_child_init_def accept_mutex_on_def accept_mutex_off_def
  fcntl_mutex_init_def fcntl_mutex_on_def fcntl_mutex_off_def flock_mutex_init_def flock_mutex_child_init_def
  flock_mutex_on_def flock_mutex_off_def sem_mutex_init_def sem_mutex_on_def sem_mutex_off_def semop_def
  block_signals_def restore_signals_def pthread_mutex_init_shared_def pthread_mutex_on_def pthread_mutex_off_def
  uslock_mutex_init_def uslock_mutex_on_def uslock_mutex_off_def check_call_def Let_def

interpretation locks: process_lock "accept_mutex_init cfg" "accept_mutex_child_init cfg" "accept_mutex_on cfg"
    "accept_mutex_off cfg" lock_fork "lock_exit cfg" "lock_inv cfg" "calm cfg"
  for cfg :: lock_config
proof (unfold_locales, goal_cases)
  case (1 sys)
  then show ?case by (cases cfg) (auto simp: lock_defs lock_inv_def lock_static_def dest: calmD)
next
  case (2 lk h R p sys)
  then show ?case by (cases cfg) (auto simp: lock_defs lock_inv_def dest: calmD)
next
  case (3 lk R p sys)
  then show ?case by (cases cfg) (auto simp: lock_defs lock_inv_def)
next
  case (4 lk h R p sys)
  then show ?case by (cases cfg; cases "sys C_lock"; cases h) (auto simp: lock_defs lock_inv_def dest: calmD)
next
  case (5 lk p R sys)
  then show ?case by (cases cfg) (auto simp: lock_defs lock_inv_def dest: calmD)
next
  case (6 lk h R p)
  then show ?case by (cases cfg) (auto simp: lock_fork_def lock_inv_def)
next
  case (7 lk h R p)
  have "(a, a) \<in> set (lk_fds lk) \<Longrightarrow> a \<notin> snd ` {x \<in> set (lk_fds lk). case x of (q, _) \<Rightarrow> q \<noteq> p} \<Longrightarrow> a = p" for a
    by (rule ccontr) (force simp: image_iff)
  with 7 show ?case by (cases cfg; cases h) (auto simp: lock_exit_def lock_inv_def Let_def)
qed

end
