(* ===== verification/TimeSem.thy ===== *)
theory TimeSem
  imports AcceptMutex Printf
begin

text \<open>
  The lower half of time-sem.c: shared memory, main, and the children that main forks, each of
  which increments the shared counter under the lock. A run is a list of steps of the parent and
  of the children in any order; a read and a write of the counter, the calls on the lock, fork and wait
  are steps of their own. Printing is kept as far as it reports an error.
\<close>

section \<open>Shared memory\<close>

text \<open>get\_shared\_mem with mmap: None is the memory, otherwise the process exits.\<close>

definition get_shared_mem :: "answer \<Rightarrow> int option" where
  "get_shared_mem mmap = (if mmap = Done then None else Some 1)"

text \<open>
  The variant of USE\_SHMGET\_SCOREBOARD. With MOVEBREAK and a failed sbrk the function returns no
  value. The result lists the calls that have been made.
\<close>

datatype shm_call = Shmget | Sbrk_up | Shmat | Shmctl | Sbrk_down

datatype shm_result = Attached | NoValue | Exits int

definition get_shared_mem_shmget :: "bool \<Rightarrow> (shm_call \<Rightarrow> bool) \<Rightarrow> shm_call list \<times> shm_result" where
  "get_shared_mem_shmget movebreak ok =
     (if \<not> ok Shmget then ([Shmget], Exits 1)
      else
        let calls = [Shmget] @ (if movebreak then [Sbrk_up] else []) @ [Shmat, Shmctl] in
        if \<not> ok Shmat then (calls, Exits 1)
        else if movebreak then (if \<not> ok Sbrk_up then (calls, NoValue) else (calls @ [Sbrk_down], Attached))
        else (calls, Attached))"

text \<open>However it goes, a segment that has been created is marked for removal.\<close>

lemma segment_removed: "ok Shmget \<Longrightarrow> Shmctl \<in> set (fst (get_shared_mem_shmget movebreak ok))"
  by (simp add: get_shared_mem_shmget_def Let_def)

section \<open>Processes\<close>

text \<open>
  The variables of a process are in its place in the program: the loop variable i, and tmp. A child
  that has exited is kept with its status and the number of its increments.
\<close>

datatype child_pc =
    ChildInit
  | ChildOn int
  | ChildRead int
  | ChildWrite int "64 word"
  | ChildOff int
  | ChildExited int nat

datatype parent_pc =
    ParentInit
  | ParentOn
  | ParentFork int
  | ParentTest
  | ParentOff
  | ParentWait int
  | ParentCheck
  | ParentExited int
  | ParentFault fault

datatype ts_message = Usage | CounterNotZero | WaitFailed | WrongCounter "64 word" int int

record time_sem =
  ts_num_child :: int
  ts_num_iter :: int
  ts_counter :: "64 word"
  ts_lock :: lock_state
  ts_parent :: parent_pc
  ts_children :: "child_pc list"
  ts_reaped :: nat
  ts_messages :: "ts_message list"

text \<open>main up to the call of accept\_mutex\_init.\<close>

definition time_sem_main :: "answer \<Rightarrow> string list \<Rightarrow> time_sem" where
  "time_sem_main mmap argv =
     (let s = \<lparr>ts_num_child = 0, ts_num_iter = 0, ts_counter = 0, ts_lock = lock_static, ts_parent = ParentInit,
               ts_children = [], ts_reaped = 0, ts_messages = []\<rparr> in
      if length argv \<noteq> 3 then s\<lparr>ts_parent := ParentExited 1, ts_messages := [Usage]\<rparr>
      else
        let s = s\<lparr>ts_num_child := atoi (argv ! 1), ts_num_iter := atoi (argv ! 2)\<rparr> in
        case get_shared_mem mmap of None \<Rightarrow> s | Some code \<Rightarrow> s\<lparr>ts_parent := ParentExited code\<rparr>)"

definition parent_exit :: "lock_config \<Rightarrow> int \<Rightarrow> time_sem \<Rightarrow> time_sem" where
  "parent_exit cfg code s = s\<lparr>ts_parent := ParentExited code, ts_lock := lock_exit cfg 0 (ts_lock s)\<rparr>"

definition set_child :: "nat \<Rightarrow> child_pc \<Rightarrow> time_sem \<Rightarrow> time_sem" where
  "set_child k pc s = s\<lparr>ts_children := (ts_children s)[k := pc]\<rparr>"

definition child_exit :: "lock_config \<Rightarrow> nat \<Rightarrow> int \<Rightarrow> nat \<Rightarrow> time_sem \<Rightarrow> time_sem" where
  "child_exit cfg k code n s = (set_child k (ChildExited code n) s)\<lparr>ts_lock := lock_exit cfg (Suc k) (ts_lock s)\<rparr>"

text \<open>Going on after a call on the lock.\<close>

definition resume :: "outcome \<Rightarrow> (time_sem \<Rightarrow> time_sem) \<Rightarrow> (int \<Rightarrow> time_sem \<Rightarrow> time_sem) \<Rightarrow> time_sem \<Rightarrow> time_sem option" where
  "resume out go_on quit s =
     (case out of
        Continue lk \<Rightarrow> Some (go_on (s\<lparr>ts_lock := lk\<rparr>))
      | Again lk \<Rightarrow> Some (s\<lparr>ts_lock := lk\<rparr>)
      | ExitWith c lk \<Rightarrow> Some (quit c (s\<lparr>ts_lock := lk\<rparr>))
      | Waits \<Rightarrow> None)"

fun has_exited :: "child_pc \<Rightarrow> bool" where
  "has_exited (ChildExited _ _) = True"
| "has_exited _ = False"

text \<open>The argument ans is what fork or wait answers. wait returns when a child has exited that it has not yet reported.\<close>

definition parent_step :: "lock_config \<Rightarrow> lock_system \<Rightarrow> answer \<Rightarrow> time_sem \<Rightarrow> time_sem option" where
  "parent_step cfg sys ans s =
     (case ts_parent s of
        ParentInit \<Rightarrow>
          resume (accept_mutex_init cfg sys (ts_lock s)) (\<lambda>s. s\<lparr>ts_parent := ParentOn\<rparr>) (parent_exit cfg) s
      | ParentOn \<Rightarrow>
          resume (accept_mutex_on cfg sys 0 (ts_lock s)) (\<lambda>s. s\<lparr>ts_parent := ParentFork 0\<rparr>) (parent_exit cfg) s
      | ParentFork i \<Rightarrow>
          if i < ts_num_child s
          then if ans = Done
               then Some (s\<lparr>ts_children := ts_children s @ [ChildInit],
                            ts_lock := lock_fork (Suc (length (ts_children s))) (ts_lock s),
                            ts_parent := ParentFork (i + 1)\<rparr>)
               else Some (parent_exit cfg 1 s)
          else Some (s\<lparr>ts_parent := ParentTest\<rparr>)
      | ParentTest \<Rightarrow>
          if ts_counter s \<noteq> 0 then Some (parent_exit cfg 1 (s\<lparr>ts_messages := ts_messages s @ [CounterNotZero]\<rparr>))
          else Some (s\<lparr>ts_parent := ParentOff\<rparr>)
      | ParentOff \<Rightarrow>
          resume (accept_mutex_off cfg sys 0 (ts_lock s)) (\<lambda>s. s\<lparr>ts_parent := ParentWait 0\<rparr>) (parent_exit cfg) s
      | ParentWait i \<Rightarrow>
          if i < ts_num_child s
          then if ans = Done
               then if ts_reaped s < length (filter has_exited (ts_children s))
                    then Some (s\<lparr>ts_reaped := ts_reaped s + 1, ts_parent := ParentWait (i + 1)\<rparr>) else None
               else Some (s\<lparr>ts_messages := ts_messages s @ [WaitFailed], ts_parent := ParentWait (i + 1)\<rparr>)
          else Some (s\<lparr>ts_parent := ParentCheck\<rparr>)
      | ParentCheck \<Rightarrow>
          (case checked32 [ts_num_child s * ts_num_iter s] (ts_num_child s * ts_num_iter s) of
             Inl f \<Rightarrow> Some (s\<lparr>ts_parent := ParentFault f\<rparr>)
           | Inr n \<Rightarrow>
               let s = (if ts_counter s \<noteq> word_of_int n
                        then s\<lparr>ts_messages := ts_messages s
                                  @ [WrongCounter (ts_counter s) (ts_num_child s) (ts_num_iter s)]\<rparr>
                        else s) in
               Some (parent_exit cfg 0 (s\<lparr>ts_lock := accept_mutex_cleanup cfg (ts_lock s)\<rparr>)))
      | ParentExited _ \<Rightarrow> None
      | ParentFault _ \<Rightarrow> None)"

definition child_step :: "lock_config \<Rightarrow> lock_system \<Rightarrow> nat \<Rightarrow> time_sem \<Rightarrow> time_sem option" where
  "child_step cfg sys k s =
     (if k < length (ts_children s)
      then (case ts_children s ! k of
              ChildInit \<Rightarrow>
                resume (accept_mutex_child_init cfg sys (Suc k) (ts_lock s)) (set_child k (ChildOn 0))
                  (\<lambda>c. child_exit cfg k c 0) s
            | ChildOn i \<Rightarrow>
                if i < ts_num_iter s
                then resume (accept_mutex_on cfg sys (Suc k) (ts_lock s)) (set_child k (ChildRead i))
                       (\<lambda>c. child_exit cfg k c (nat i)) s
                else Some (child_exit cfg k 0 (nat i) s)
            | ChildRead i \<Rightarrow> Some (set_child k (ChildWrite i (ts_counter s)) s)
            | ChildWrite i tmp \<Rightarrow> Some (set_child k (ChildOff i) (s\<lparr>ts_counter := tmp + 1\<rparr>))
            | ChildOff i \<Rightarrow>
                resume (accept_mutex_off cfg sys (Suc k) (ts_lock s)) (set_child k (ChildOn (i + 1)))
                  (\<lambda>c. child_exit cfg k c (nat (i + 1))) s
            | ChildExited _ _ \<Rightarrow> None)
      else None)"

text \<open>The time that is printed: a difference of two times of seconds and microseconds.\<close>

definition elapsed :: "int \<times> int \<Rightarrow> int \<times> int \<Rightarrow> int \<times> int" where
  "elapsed t0 t1 =
     (let sec = fst t1 - fst t0; ms = snd t1 - snd t0 in
      if ms < 0 then (sec - 1, ms + 1000000) else (sec, ms))"

lemma elapsed_exact:
  assumes "0 \<le> snd t0" "snd t0 < 1000000" "0 \<le> snd t1" "snd t1 < 1000000"
  shows "fst (elapsed t0 t1) * 1000000 + snd (elapsed t0 t1)
      = (fst t1 * 1000000 + snd t1) - (fst t0 * 1000000 + snd t0)
    \<and> 0 \<le> snd (elapsed t0 t1) \<and> snd (elapsed t0 t1) < 1000000"
  using assms by (auto simp: elapsed_def Let_def)

section \<open>Runs\<close>

datatype ts_event = Parent lock_system answer | Child nat lock_system

fun ts_step :: "lock_config \<Rightarrow> ts_event \<Rightarrow> time_sem \<Rightarrow> time_sem option" where
  "ts_step cfg (Parent sys ans) s = parent_step cfg sys ans s"
| "ts_step cfg (Child k sys) s = child_step cfg sys k s"

primrec ts_run :: "lock_config \<Rightarrow> ts_event list \<Rightarrow> time_sem \<Rightarrow> time_sem option" where
  "ts_run cfg [] s = Some s"
| "ts_run cfg (e # es) s = (case ts_step cfg e s of None \<Rightarrow> None | Some s' \<Rightarrow> ts_run cfg es s')"

lemma ts_run_append: "ts_run cfg (es @ es') s = Option.bind (ts_run cfg es s) (ts_run cfg es')"
  by (induction es arbitrary: s) (simp_all split: option.split)

fun calm_event :: "lock_config \<Rightarrow> ts_event \<Rightarrow> bool" where
  "calm_event cfg (Parent sys ans) \<longleftrightarrow> calm cfg sys \<and> ans = Done"
| "calm_event cfg (Child k sys) \<longleftrightarrow> calm cfg sys"

section \<open>The invariant\<close>

primrec child_mode :: "child_pc \<Rightarrow> mode" where
  "child_mode ChildInit = Unborn"
| "child_mode (ChildOn i) = Outside"
| "child_mode (ChildRead i) = Inside"
| "child_mode (ChildWrite i tmp) = Inside"
| "child_mode (ChildOff i) = Inside"
| "child_mode (ChildExited c n) = Gone"

primrec parent_mode :: "parent_pc \<Rightarrow> mode" where
  "parent_mode ParentInit = Unborn"
| "parent_mode ParentOn = Outside"
| "parent_mode (ParentFork i) = Inside"
| "parent_mode ParentTest = Inside"
| "parent_mode ParentOff = Inside"
| "parent_mode (ParentWait i) = Outside"
| "parent_mode ParentCheck = Outside"
| "parent_mode (ParentExited c) = Gone"
| "parent_mode (ParentFault f) = Outside"

definition modes :: "time_sem \<Rightarrow> pid \<Rightarrow> mode" where
  "modes s p =
     (case p of
        0 \<Rightarrow> parent_mode (ts_parent s)
      | Suc k \<Rightarrow> if k < length (ts_children s) then child_mode (ts_children s ! k) else Unborn)"

primrec increments :: "child_pc \<Rightarrow> nat" where
  "increments ChildInit = 0"
| "increments (ChildOn i) = nat i"
| "increments (ChildRead i) = nat i"
| "increments (ChildWrite i tmp) = nat i"
| "increments (ChildOff i) = nat (i + 1)"
| "increments (ChildExited c n) = n"

definition total :: "child_pc list \<Rightarrow> nat" where
  "total cs = sum_list (map increments cs)"

text \<open>A child within its loop; in a strict state no child has exited early.\<close>

primrec child_wf :: "bool \<Rightarrow> int \<Rightarrow> child_pc \<Rightarrow> bool" where
  "child_wf strict n ChildInit \<longleftrightarrow> True"
| "child_wf strict n (ChildOn i) \<longleftrightarrow> 0 \<le> i \<and> i \<le> max 0 n"
| "child_wf strict n (ChildRead i) \<longleftrightarrow> 0 \<le> i \<and> i < n"
| "child_wf strict n (ChildWrite i tmp) \<longleftrightarrow> 0 \<le> i \<and> i < n"
| "child_wf strict n (ChildOff i) \<longleftrightarrow> 0 \<le> i \<and> i < n"
| "child_wf strict n (ChildExited c d) \<longleftrightarrow> d \<le> nat n \<and> (strict \<longrightarrow> c = 0 \<and> d = nat n)"

text \<open>The parent: how many children there are and how many have been waited for.\<close>

primrec parent_wf :: "bool \<Rightarrow> int \<Rightarrow> child_pc list \<Rightarrow> nat \<Rightarrow> parent_pc \<Rightarrow> bool" where
  "parent_wf strict n cs r ParentInit \<longleftrightarrow> cs = [] \<and> r = 0"
| "parent_wf strict n cs r ParentOn \<longleftrightarrow> cs = [] \<and> r = 0"
| "parent_wf strict n cs r (ParentFork i) \<longleftrightarrow> 0 \<le> i \<and> i \<le> max 0 n \<and> length cs = nat i \<and> r = 0"
| "parent_wf strict n cs r ParentTest \<longleftrightarrow> length cs = nat n \<and> r = 0"
| "parent_wf strict n cs r ParentOff \<longleftrightarrow> length cs = nat n \<and> r = 0"
| "parent_wf strict n cs r (ParentWait i) \<longleftrightarrow> length cs = nat n
     \<and> (strict \<longrightarrow> 0 \<le> i \<and> i \<le> max 0 n \<and> r = nat i \<and> r \<le> length (filter has_exited cs))"
| "parent_wf strict n cs r ParentCheck \<longleftrightarrow> length cs = nat n \<and> (strict \<longrightarrow> length (filter has_exited cs) = nat n)"
| "parent_wf strict n cs r (ParentExited c) \<longleftrightarrow> length cs \<le> nat n \<and>
     (strict \<longrightarrow> c = 0 \<and> length cs = nat n \<and> length (filter has_exited cs) = nat n)"
| "parent_wf strict n cs r (ParentFault f) \<longleftrightarrow> length cs \<le> nat n \<and>
     (strict \<longrightarrow> length cs = nat n \<and> length (filter has_exited cs) = nat n)"

definition counter_ok :: "time_sem \<Rightarrow> bool" where
  "counter_ok s \<longleftrightarrow> ts_counter s = of_nat (total (ts_children s))
     \<and> (parent_mode (ts_parent s) = Inside \<or> ts_children s = [] \<longrightarrow> ts_counter s = 0)
     \<and> (\<forall>i tmp. ChildWrite i tmp \<in> set (ts_children s) \<longrightarrow> tmp = ts_counter s)"

definition ts_inv :: "lock_config \<Rightarrow> bool \<Rightarrow> time_sem \<Rightarrow> bool" where
  "ts_inv cfg strict s \<longleftrightarrow>
     (if ts_parent s = ParentInit then ts_lock s = lock_static
      else lock_ok (lock_inv cfg) strict (ts_lock s) (modes s) \<or> \<not> strict \<and> ts_children s = [] \<and> (\<exists>c. ts_parent s = ParentExited c))
     \<and> counter_ok s \<and> (\<forall>pc \<in> set (ts_children s). child_wf strict (ts_num_iter s) pc)
     \<and> parent_wf strict (ts_num_child s) (ts_children s) (ts_reaped s) (ts_parent s)"

section \<open>Steps keep the invariant\<close>

lemma modes_parent [simp]: "modes (s\<lparr>ts_parent := pc\<rparr>) = (modes s)(0 := parent_mode pc)"
  by (auto simp: modes_def fun_eq_iff split: nat.split)

lemma modes_child: "k < length (ts_children s) \<Longrightarrow> ts_parent s' = ts_parent s
    \<Longrightarrow> ts_children s' = (ts_children s)[k := pc] \<Longrightarrow> modes s' = (modes s)(Suc k := child_mode pc)"
  by (auto simp: modes_def fun_eq_iff nth_list_update split: nat.split)

lemma modes_same: "ts_parent s' = ts_parent s \<Longrightarrow> ts_children s' = ts_children s \<Longrightarrow> modes s' = modes s"
  by (simp add: modes_def fun_eq_iff split: nat.split)

lemma modes_eval: "modes s 0 = parent_mode (ts_parent s)"
  "k < length (ts_children s) \<Longrightarrow> modes s (Suc k) = child_mode (ts_children s ! k)"
  "length (ts_children s) \<le> k \<Longrightarrow> modes s (Suc k) = Unborn"
  by (simp_all add: modes_def)

lemma total_update:
  "k < length cs \<Longrightarrow> total (cs[k := pc]) + increments (cs ! k) = total cs + increments pc"
proof (induction cs arbitrary: k)
  case (Cons c cs)
  then show ?case by (cases k) (auto simp: total_def)
qed simp

lemma exited_update:
  "k < length cs \<Longrightarrow> \<not> has_exited (cs ! k) \<Longrightarrow>
    length (filter has_exited cs) \<le> length (filter has_exited (cs[k := pc]))"
proof (induction cs arbitrary: k)
  case (Cons c cs)
  then show ?case by (cases k) auto
qed simp

lemma parent_wf_mono:
  assumes "parent_wf strict n cs r pc" and "cs \<noteq> []" and "length cs' = length cs"
    and "length (filter has_exited cs) \<le> length (filter has_exited cs')"
  shows "parent_wf strict n cs' r pc"
  using assms length_filter_le [of has_exited cs'] by (cases pc) auto

lemma parent_wf_length: "parent_wf strict n cs r pc \<Longrightarrow> length cs \<le> nat n"
  by (cases pc) (auto simp: max_def split: if_splits)

lemma ts_inv_length: "ts_inv cfg strict s \<Longrightarrow> length (ts_children s) \<le> nat (ts_num_child s)"
  unfolding ts_inv_def using parent_wf_length by blast

text \<open>A child that only changes its place.\<close>

definition moved :: "nat \<Rightarrow> child_pc \<Rightarrow> time_sem \<Rightarrow> time_sem \<Rightarrow> bool" where
  "moved k pc s s' \<longleftrightarrow> ts_children s' = (ts_children s)[k := pc] \<and> ts_parent s' = ts_parent s
     \<and> ts_num_child s' = ts_num_child s \<and> ts_num_iter s' = ts_num_iter s \<and> ts_reaped s' = ts_reaped s
     \<and> ts_messages s' = ts_messages s"

lemma moved_inv:
  assumes inv: "ts_inv cfg strict s" and k: "k < length (ts_children s)" "\<not> has_exited (ts_children s ! k)"
    and mv: "moved k pc s s'" and lock: "lock_ok (lock_inv cfg) strict (ts_lock s') (modes s')"
    and counter: "counter_ok s'" and wf: "child_wf strict (ts_num_iter s) pc"
  shows "ts_inv cfg strict s'"
proof -
  have pwf: "parent_wf strict (ts_num_child s) (ts_children s) (ts_reaped s) (ts_parent s)"
    and all: "\<forall>pc \<in> set (ts_children s). child_wf strict (ts_num_iter s) pc"
    using inv by (simp_all add: ts_inv_def)
  have ne: "ts_children s \<noteq> []" using k by auto
  then have "ts_parent s \<noteq> ParentInit" using pwf by auto
  moreover have "parent_wf strict (ts_num_child s) ((ts_children s)[k := pc]) (ts_reaped s) (ts_parent s)"
    using parent_wf_mono [OF pwf ne _ exited_update [OF k]] by simp
  moreover have "\<forall>x \<in> set ((ts_children s)[k := pc]). child_wf strict (ts_num_iter s) x"
    using all wf set_update_subset_insert [of "ts_children s" k pc] by blast
  ultimately show ?thesis using mv lock counter unfolding ts_inv_def moved_def by simp
qed

lemma counter_keeps:
  assumes "counter_ok s" and "k < length (ts_children s)" and "moved k pc s s'" and "ts_counter s' = ts_counter s"
    and "increments pc = increments (ts_children s ! k)" and "\<forall>i tmp. pc = ChildWrite i tmp \<longrightarrow> tmp = ts_counter s"
  shows "counter_ok s'"
  using assms total_update [OF assms(2), of pc] set_update_subset_insert [of "ts_children s" k pc]
  by (auto simp: counter_ok_def moved_def)

lemma resume_child:
  assumes inv: "ts_inv cfg strict s" and k: "k < length (ts_children s)" "\<not> has_exited (ts_children s ! k)"
    and keeps: "locks.keeps cfg strict (Suc k) (modes s) (child_mode pc) out"
    and step: "resume out (set_child k pc) (\<lambda>c. child_exit cfg k c n) s = Some s'"
    and wf: "child_wf strict (ts_num_iter s) pc" and inc: "increments pc = increments (ts_children s ! k)" "n = increments pc"
    and wr: "\<forall>i tmp. pc \<noteq> ChildWrite i tmp" and n: "n \<le> nat (ts_num_iter s)"
  shows "ts_inv cfg strict s'"
proof -
  have c: "counter_ok s" using inv by (simp add: ts_inv_def)
  show ?thesis
  proof (cases out)
    case (Continue lk)
    then have s': "s' = set_child k pc (s\<lparr>ts_lock := lk\<rparr>)" using step by (simp add: resume_def)
    then have mv: "moved k pc s s'" by (simp add: moved_def set_child_def)
    have "modes s' = (modes s)(Suc k := child_mode pc)"
      using s' k by (intro modes_child) (simp_all add: set_child_def)
    then have lock: "lock_ok (lock_inv cfg) strict (ts_lock s') (modes s')"
      using keeps Continue s' by (simp add: locks.keeps_def set_child_def)
    have "counter_ok s'" using s' wr by (intro counter_keeps [OF c k(1) mv _ inc(1)]) (simp_all add: set_child_def)
    then show ?thesis using moved_inv [OF inv k mv lock _ wf] by simp
  next
    case (Again lk)
    then have "s' = s\<lparr>ts_lock := lk\<rparr>" using step by (simp add: resume_def)
    moreover have "modes (s\<lparr>ts_lock := lk\<rparr>) = modes s" by (simp add: modes_def fun_eq_iff split: nat.split)
    ultimately show ?thesis using inv keeps Again k by (auto simp: ts_inv_def locks.keeps_def counter_ok_def)
  next
    case (ExitWith code lk)
    then have s': "s' = child_exit cfg k code n (s\<lparr>ts_lock := lk\<rparr>)" using step by (simp add: resume_def)
    then have mv: "moved k (ChildExited code n) s s'" by (simp add: moved_def child_exit_def set_child_def)
    have m: "modes s' = (modes s)(Suc k := Gone)"
      using modes_child [of k s s' "ChildExited code n"] s' k by (simp add: child_exit_def set_child_def)
    have l: "ts_lock s' = lock_exit cfg (Suc k) lk" using s' by (simp add: child_exit_def set_child_def)
    have kept: "\<not> strict \<and> lock_ok (lock_inv cfg) strict (lock_exit cfg (Suc k) lk) ((modes s)(Suc k := Gone))"
      using keeps unfolding locks.keeps_def ExitWith outcome.case .
    have early: "\<not> strict" using kept ..
    have lock: "lock_ok (lock_inv cfg) strict (ts_lock s') (modes s')" unfolding m l using kept ..
    have "counter_ok s'"
      using s' inc by (intro counter_keeps [OF c k(1) mv]) (simp_all add: child_exit_def set_child_def)
    then show ?thesis using moved_inv [OF inv k mv lock] n early by simp
  next
    case Waits
    then show ?thesis using step by (simp add: resume_def)
  qed
qed

text \<open>What holds of a child before a step.\<close>

lemma child_before:
  assumes "ts_inv cfg strict s" and "child_step cfg sys k s = Some s'"
  shows "k < length (ts_children s)" and "\<not> has_exited (ts_children s ! k)" and "counter_ok s"
    and "child_wf strict (ts_num_iter s) (ts_children s ! k)" and "lock_ok (lock_inv cfg) strict (ts_lock s) (modes s)"
    and "modes s (Suc k) = child_mode (ts_children s ! k)"
proof -
  show k: "k < length (ts_children s)" using assms(2) by (simp add: child_step_def split: if_splits)
  show "\<not> has_exited (ts_children s ! k)" using assms(2) k by (auto simp: child_step_def split: child_pc.splits)
  show "counter_ok s" "child_wf strict (ts_num_iter s) (ts_children s ! k)" using assms(1) k by (auto simp: ts_inv_def)
  show "lock_ok (lock_inv cfg) strict (ts_lock s) (modes s)" using assms(1) k by (auto simp: ts_inv_def split: if_splits)
  show "modes s (Suc k) = child_mode (ts_children s ! k)" using k by (simp add: modes_eval)
qed

text \<open>A step that makes no call on the lock.\<close>

lemma child_walks:
  assumes inv: "ts_inv cfg strict s" and step: "child_step cfg sys k s = Some s'"
    and s': "s' = set_child k pc (s\<lparr>ts_lock := lk, ts_counter := n\<rparr>)"
    and lock: "lock_ok (lock_inv cfg) strict lk ((modes s)(Suc k := child_mode pc))"
    and counter: "counter_ok s'" and wf: "child_wf strict (ts_num_iter s) pc"
  shows "ts_inv cfg strict s'"
proof -
  note k = child_before(1) [OF inv step]
  have mv: "moved k pc s s'" using s' by (simp add: moved_def set_child_def)
  then have "modes s' = (modes s)(Suc k := child_mode pc)" using k by (intro modes_child) (simp_all add: moved_def)
  then have "lock_ok (lock_inv cfg) strict (ts_lock s') (modes s')" using lock s' by (simp add: set_child_def)
  then show ?thesis using moved_inv [OF inv k child_before(2) [OF inv step] mv _ counter wf] by blast
qed

lemma child_finish_inv:
  assumes inv: "ts_inv cfg strict s" and step: "child_step cfg sys k s = Some s'"
    and pc: "ts_children s ! k = ChildOn i" "\<not> i < ts_num_iter s"
  shows "ts_inv cfg strict s'"
proof -
  note before = child_before [OF inv step, unfolded pc]
  have s': "s' = child_exit cfg k 0 (nat i) s" using step before(1) pc by (simp add: child_step_def)
  have "nat i = nat (ts_num_iter s)" using before(4) pc(2) by (auto simp: max_def split: if_splits)
  moreover have "counter_ok s'" using s' pc
    by (intro counter_keeps [OF before(3,1), of "ChildExited 0 (nat i)"]) (simp_all add: moved_def child_exit_def set_child_def)
  moreover have "lock_ok (lock_inv cfg) strict (lock_exit cfg (Suc k) (ts_lock s)) ((modes s)(Suc k := Gone))"
    using locks.leave_keeps [OF before(5), of "Suc k"] before(6) by simp
  ultimately show ?thesis using s'
    by (intro child_walks [OF inv step, where pc = "ChildExited 0 (nat i)" and n = "ts_counter s"
          and lk = "lock_exit cfg (Suc k) (ts_lock s)"]) (simp_all add: child_exit_def set_child_def)
qed

lemma child_read_inv:
  assumes inv: "ts_inv cfg strict s" and step: "child_step cfg sys k s = Some s'" and pc: "ts_children s ! k = ChildRead i"
  shows "ts_inv cfg strict s'"
proof -
  note before = child_before [OF inv step, unfolded pc]
  have s': "s' = set_child k (ChildWrite i (ts_counter s)) s" using step before(1) pc by (simp add: child_step_def)
  moreover have "counter_ok s'" using s' pc
    by (intro counter_keeps [OF before(3,1), of "ChildWrite i (ts_counter s)"]) (simp_all add: moved_def set_child_def)
  ultimately show ?thesis using before(4-6)
    by (intro child_walks [OF inv step, where pc = "ChildWrite i (ts_counter s)" and n = "ts_counter s" and lk = "ts_lock s"])
      (simp_all add: fun_upd_idem)
qed

text \<open>The child that stores is alone, so that no other child has a copy of the counter.\<close>

lemma child_write_counter:
  assumes c: "counter_ok s" and lock: "lock_ok (lock_inv cfg) strict (ts_lock s) (modes s)"
    and k: "k < length (ts_children s)" and pc: "ts_children s ! k = ChildWrite i tmp" and i: "0 \<le> i"
  shows "counter_ok (set_child k (ChildOff i) (s\<lparr>ts_counter := tmp + 1\<rparr>))"
proof -
  have "modes s (Suc k) = Inside" using k pc by (simp add: modes_eval)
  then have alone: "p = Suc k" if "modes s p = Inside" for p using lock_ok_exclusive [OF lock that] by simp
  have "parent_mode (ts_parent s) \<noteq> Inside" using alone [of 0] by (auto simp: modes_eval)
  moreover have "ChildWrite j t \<notin> set ((ts_children s)[k := ChildOff i])" for j t
  proof
    assume "ChildWrite j t \<in> set ((ts_children s)[k := ChildOff i])"
    then obtain l where l: "l < length (ts_children s)" "(ts_children s)[k := ChildOff i] ! l = ChildWrite j t"
      by (auto simp: in_set_conv_nth)
    then have "l \<noteq> k" "ts_children s ! l = ChildWrite j t" using k by (auto simp: nth_list_update split: if_splits)
    then show False using alone [of "Suc l"] l(1) by (simp add: modes_eval)
  qed
  moreover have "tmp = ts_counter s" using c pc k nth_mem [OF k] by (auto simp: counter_ok_def)
  moreover have "total ((ts_children s)[k := ChildOff i]) = total (ts_children s) + 1"
    using total_update [OF k, of "ChildOff i"] pc i by (simp add: nat_add_distrib)
  moreover have "ts_counter s = of_nat (total (ts_children s))" using c by (simp add: counter_ok_def)
  ultimately show ?thesis using k by (auto simp: counter_ok_def set_child_def)
qed

lemma child_write_inv:
  assumes inv: "ts_inv cfg strict s" and step: "child_step cfg sys k s = Some s'" and pc: "ts_children s ! k = ChildWrite i tmp"
  shows "ts_inv cfg strict s'"
proof -
  note before = child_before [OF inv step]
  have s': "s' = set_child k (ChildOff i) (s\<lparr>ts_counter := tmp + 1\<rparr>)" using step before(1) pc by (simp add: child_step_def)
  moreover have "counter_ok s'" using child_write_counter [OF before(3,5,1) pc] before(4) pc s' by simp
  ultimately show ?thesis using before(4-6) pc
    by (intro child_walks [OF inv step, where pc = "ChildOff i" and n = "tmp + 1" and lk = "ts_lock s"])
      (simp_all add: fun_upd_idem)
qed

lemma child_inv:
  assumes inv: "ts_inv cfg strict s" and calm: "strict \<longrightarrow> calm cfg sys" and step: "child_step cfg sys k s = Some s'"
  shows "ts_inv cfg strict s'"
proof -
  note before = child_before [OF inv step]
  note resumed = resume_child [OF inv before(1,2)]
  show ?thesis
  proof (cases "ts_children s ! k")
    case ChildInit
    have "locks.keeps cfg strict (Suc k) (modes s) Outside (accept_mutex_child_init cfg sys (Suc k) (ts_lock s))"
      using locks.child_init_keeps [OF before(5) _ calm] before(6) ChildInit by simp
    then show ?thesis using resumed [of "ChildOn 0"] step ChildInit before(1,4) by (auto simp: child_step_def)
  next
    case (ChildOn i)
    show ?thesis
    proof (cases "i < ts_num_iter s")
      case True
      have "locks.keeps cfg strict (Suc k) (modes s) Inside (accept_mutex_on cfg sys (Suc k) (ts_lock s))"
        using locks.on_keeps [OF before(5) _ calm] before(6) ChildOn by simp
      then show ?thesis using resumed [of "ChildRead i"] step ChildOn before(1,4) True by (auto simp: child_step_def)
    qed (rule child_finish_inv [OF inv step ChildOn])
  next
    case (ChildOff i)
    have "locks.keeps cfg strict (Suc k) (modes s) Outside (accept_mutex_off cfg sys (Suc k) (ts_lock s))"
      using locks.off_keeps [OF before(5) _ calm] before(6) ChildOff by simp
    then show ?thesis using resumed [of "ChildOn (i + 1)"] step ChildOff before(1,4) by (auto simp: child_step_def)
  qed (use before(2) child_read_inv [OF inv step] child_write_inv [OF inv step] in \<open>simp_all\<close>)
qed

text \<open>A step of the parent that keeps the children and the counter.\<close>

lemma parent_moved_inv:
  assumes inv: "ts_inv cfg strict s" and pc: "pc \<noteq> ParentInit"
    and mv: "ts_parent s' = pc" "ts_children s' = ts_children s" "ts_counter s' = ts_counter s"
      "ts_num_child s' = ts_num_child s" "ts_num_iter s' = ts_num_iter s"
    and lock: "lock_ok (lock_inv cfg) strict (ts_lock s') ((modes s)(0 := parent_mode pc))"
    and inside: "parent_mode pc = Inside \<Longrightarrow> parent_mode (ts_parent s) = Inside \<or> ts_children s = []"
    and wf: "parent_wf strict (ts_num_child s) (ts_children s) (ts_reaped s') pc"
  shows "ts_inv cfg strict s'"
proof -
  have "modes s' = (modes s)(0 := parent_mode pc)" using mv by (auto simp: modes_def fun_eq_iff split: nat.split)
  then have "lock_ok (lock_inv cfg) strict (ts_lock s') (modes s')" using lock by simp
  moreover have "counter_ok s'" using inv inside mv by (auto simp: ts_inv_def counter_ok_def)
  ultimately show ?thesis using inv pc mv wf by (auto simp: ts_inv_def)
qed

lemma resume_parent:
  assumes inv: "ts_inv cfg strict s" and start: "ts_parent s \<noteq> ParentInit" and pc: "pc \<noteq> ParentInit"
    and keeps: "locks.keeps cfg strict 0 (modes s) (parent_mode pc) out"
    and step: "resume out (\<lambda>s. s\<lparr>ts_parent := pc\<rparr>) (parent_exit cfg) s = Some s'"
    and inside: "parent_mode pc = Inside \<Longrightarrow> ts_children s = []"
    and wf: "parent_wf strict (ts_num_child s) (ts_children s) (ts_reaped s) pc"
  shows "ts_inv cfg strict s'"
proof (cases out)
  case (Continue lk)
  then have "s' = s\<lparr>ts_lock := lk, ts_parent := pc\<rparr>" using step by (simp add: resume_def)
  moreover have "lock_ok (lock_inv cfg) strict lk ((modes s)(0 := parent_mode pc))"
    using keeps unfolding locks.keeps_def Continue outcome.case .
  ultimately show ?thesis using parent_moved_inv [OF inv pc] inside wf by simp
next
  case (Again lk)
  then have s': "s' = s\<lparr>ts_lock := lk\<rparr>" using step by (simp add: resume_def)
  have "lock_ok (lock_inv cfg) strict lk (modes s)" using keeps unfolding locks.keeps_def Again outcome.case .
  moreover have "modes s' = modes s" using s' by (intro modes_same) simp_all
  ultimately show ?thesis using inv start s' by (auto simp: ts_inv_def counter_ok_def)
next
  case (ExitWith c lk)
  then have s': "s' = parent_exit cfg c (s\<lparr>ts_lock := lk\<rparr>)" using step by (simp add: resume_def)
  have kept: "\<not> strict \<and> lock_ok (lock_inv cfg) strict (lock_exit cfg 0 lk) ((modes s)(0 := Gone))"
    using keeps unfolding locks.keeps_def ExitWith outcome.case .
  show ?thesis
    by (rule parent_moved_inv [OF inv, of "ParentExited c"])
      (use s' conjunct2 [OF kept] ts_inv_length [OF inv] in \<open>simp_all add: parent_exit_def conjunct1 [OF kept]\<close>)
next
  case Waits
  then show ?thesis using step by (simp add: resume_def)
qed

text \<open>What holds of the parent before a step.\<close>

lemma parent_before:
  assumes "ts_inv cfg strict s" and "parent_step cfg sys ans s = Some s'"
  shows "parent_wf strict (ts_num_child s) (ts_children s) (ts_reaped s) (ts_parent s)"
    and "ts_parent s \<noteq> ParentInit \<Longrightarrow> lock_ok (lock_inv cfg) strict (ts_lock s) (modes s)"
    and "modes s 0 = parent_mode (ts_parent s)"
  using assms by (auto simp: ts_inv_def parent_step_def modes_eval)

lemma parent_quits:
  assumes inv: "ts_inv cfg strict s" and started: "lock_ok (lock_inv cfg) strict lk (modes s)"
    and place: "parent_mode (ts_parent s) = Outside \<or> parent_mode (ts_parent s) = Inside \<and> \<not> strict"
    and final: "parent_wf strict (ts_num_child s) (ts_children s) (ts_reaped s) (ParentExited c)"
  shows "ts_inv cfg strict (parent_exit cfg c (s\<lparr>ts_messages := msgs, ts_lock := lk\<rparr>))"
proof -
  obtain h where h: "lock_inv cfg lk h (ready (modes s))" "holds_lock strict h (modes s)"
    using started by (auto simp: lock_ok_def)
  have "lock_ok (lock_inv cfg) strict (lock_exit cfg 0 lk) ((modes s)(0 := Gone))"
    using place h(2) by (intro locks.exit_keeps [OF h(1)]) (auto simp: holds_lock_def modes_eval)
  then show ?thesis using final by (intro parent_moved_inv [OF inv, of "ParentExited c"]) (simp_all add: parent_exit_def)
qed

lemma parent_init_inv:
  assumes inv: "ts_inv cfg strict s" and calm: "strict \<longrightarrow> calm cfg sys"
    and step: "parent_step cfg sys ans s = Some s'" and pc: "ts_parent s = ParentInit"
  shows "ts_inv cfg strict s'"
proof -
  have empty: "ts_children s = []" "ts_lock s = lock_static" using pc inv by (simp_all add: ts_inv_def)
  have "modes s = (\<lambda>_. Unborn)" using pc empty by (auto simp: modes_def fun_eq_iff split: nat.split)
  from locks.init_keeps [of cfg sys strict] show ?thesis
  proof (elim disjE exE conjE)
    fix lk assume lk: "accept_mutex_init cfg sys lock_static = Continue lk"
      "lock_ok (lock_inv cfg) strict lk ((\<lambda>_. Unborn)(0 := Outside))"
    then have "s' = s\<lparr>ts_lock := lk, ts_parent := ParentOn\<rparr>"
      using step pc empty by (simp add: parent_step_def resume_def)
    then show ?thesis
      using parent_moved_inv [OF inv, of ParentOn s'] lk(2) \<open>modes s = (\<lambda>_. Unborn)\<close> parent_before(1) [OF inv step] pc by simp
  next
    fix c lk assume "accept_mutex_init cfg sys lock_static = ExitWith c lk" "\<not> calm cfg sys"
    then have "s' = parent_exit cfg c (s\<lparr>ts_lock := lk\<rparr>)" "\<not> strict"
      using step pc empty calm by (simp_all add: parent_step_def resume_def)
    then show ?thesis using inv pc empty by (simp add: ts_inv_def parent_exit_def counter_ok_def total_def)
  qed
qed

text \<open>A step that leaves the lock alone and stays inside or outside.\<close>

lemma parent_walks:
  assumes inv: "ts_inv cfg strict s" and step: "parent_step cfg sys ans s = Some s'"
    and s': "s' = s\<lparr>ts_parent := pc, ts_reaped := r, ts_messages := msgs\<rparr>"
    and mode: "parent_mode pc = parent_mode (ts_parent s)" and pc: "ts_parent s \<noteq> ParentInit" "pc \<noteq> ParentInit"
    and wf: "parent_wf strict (ts_num_child s) (ts_children s) r pc"
  shows "ts_inv cfg strict s'"
  using parent_moved_inv [OF inv pc(2), of s'] parent_before(2,3) [OF inv step] assms(3-) by (simp add: fun_upd_idem)

lemma parent_fork_inv:
  assumes inv: "ts_inv cfg strict s" and calm: "strict \<longrightarrow> ans = Done"
    and step: "parent_step cfg sys ans s = Some s'" and pc: "ts_parent s = ParentFork i"
  shows "ts_inv cfg strict s'"
proof -
  note before = parent_before [OF inv step, unfolded pc]
  show ?thesis
  proof (cases "i < ts_num_child s \<and> ans = Done")
    case True
    then have s': "s' = s\<lparr>ts_children := ts_children s @ [ChildInit],
        ts_lock := lock_fork (Suc (length (ts_children s))) (ts_lock s), ts_parent := ParentFork (i + 1)\<rparr>"
      using step pc by (simp add: parent_step_def)
    have "modes s' = modes s"
      using s' pc by (auto simp: modes_def fun_eq_iff nth_append less_Suc_eq split: nat.split)
    moreover have "lock_ok (lock_inv cfg) strict (ts_lock s') (modes s)"
      using locks.fork_keeps [OF before(2), of "Suc (length (ts_children s))"] s' by (simp add: modes_eval)
    moreover have "counter_ok s'" using inv s' pc by (auto simp: ts_inv_def counter_ok_def total_def)
    ultimately show ?thesis using inv s' before(1) True pc by (auto simp: ts_inv_def nat_add_distrib)
  next
    case False
    then consider (test) "s' = s\<lparr>ts_parent := ParentTest\<rparr>" "\<not> i < ts_num_child s"
      | (failed) "s' = parent_exit cfg 1 (s\<lparr>ts_messages := ts_messages s\<rparr>)" "ans \<noteq> Done"
      using step pc by (auto simp: parent_step_def split: if_splits)
    then show ?thesis
    proof cases
      case test
      then have "parent_wf strict (ts_num_child s) (ts_children s) (ts_reaped s) ParentTest"
        using before(1) by (auto simp: max_def split: if_splits)
      then show ?thesis using test pc
        by (intro parent_walks [OF inv step, where pc = ParentTest and r = "ts_reaped s" and msgs = "ts_messages s"]) simp_all
    next
      case failed
      then show ?thesis using parent_quits [OF inv before(2), of 1 "ts_messages s"] calm pc ts_inv_length [OF inv] by auto
    qed
  qed
qed

lemma parent_wait_inv:
  assumes inv: "ts_inv cfg strict s" and calm: "strict \<longrightarrow> ans = Done"
    and step: "parent_step cfg sys ans s = Some s'" and pc: "ts_parent s = ParentWait i"
  shows "ts_inv cfg strict s'"
proof -
  note wf = parent_before(1) [OF inv step, unfolded pc]
  consider (reap) "s' = s\<lparr>ts_reaped := ts_reaped s + 1, ts_parent := ParentWait (i + 1)\<rparr>"
      "i < ts_num_child s" "ts_reaped s < length (filter has_exited (ts_children s))"
    | (failed) "s' = s\<lparr>ts_messages := ts_messages s @ [WaitFailed], ts_parent := ParentWait (i + 1)\<rparr>" "ans \<noteq> Done"
    | (all) "s' = s\<lparr>ts_parent := ParentCheck\<rparr>" "\<not> i < ts_num_child s"
    using step pc by (auto simp: parent_step_def split: if_splits)
  then show ?thesis
  proof cases
    case reap
    then show ?thesis using pc wf
      by (intro parent_walks [OF inv step, where pc = "ParentWait (i + 1)" and r = "ts_reaped s + 1" and msgs = "ts_messages s"])
        (auto simp: nat_add_distrib)
  next
    case failed
    then show ?thesis using pc wf calm
      by (intro parent_walks [OF inv step, where pc = "ParentWait (i + 1)" and r = "ts_reaped s" and msgs = "ts_messages s @ [WaitFailed]"]) auto
  next
    case all
    have "strict \<longrightarrow> length (filter has_exited (ts_children s)) = nat (ts_num_child s)"
      using wf all length_filter_le [of has_exited "ts_children s"] by (auto simp: max_def split: if_splits)
    then show ?thesis using pc wf all
      by (intro parent_walks [OF inv step, where pc = ParentCheck and r = "ts_reaped s" and msgs = "ts_messages s"]) simp_all
  qed
qed

lemma parent_check_inv:
  assumes inv: "ts_inv cfg strict s" and step: "parent_step cfg sys ans s = Some s'" and pc: "ts_parent s = ParentCheck"
  shows "ts_inv cfg strict s'"
proof (cases "checked32 [ts_num_child s * ts_num_iter s] (ts_num_child s * ts_num_iter s)")
  case (Inl f)
  then have "s' = s\<lparr>ts_parent := ParentFault f\<rparr>" using step pc by (simp add: parent_step_def)
  then show ?thesis using pc parent_before(1) [OF inv step]
    by (intro parent_walks [OF inv step, where pc = "ParentFault f" and r = "ts_reaped s" and msgs = "ts_messages s"]) simp_all
next
  case (Inr n)
  have "s' = parent_exit cfg 0 (s\<lparr>ts_messages := (if ts_counter s \<noteq> word_of_int n
      then ts_messages s @ [WrongCounter (ts_counter s) (ts_num_child s) (ts_num_iter s)] else ts_messages s),
      ts_lock := accept_mutex_cleanup cfg (ts_lock s)\<rparr>)"
    using step pc Inr by (auto simp: parent_step_def)
  then show ?thesis using parent_quits [OF inv, of "accept_mutex_cleanup cfg (ts_lock s)"] pc parent_before [OF inv step]
    by simp
qed

lemma parent_inv:
  assumes inv: "ts_inv cfg strict s" and calm: "strict \<longrightarrow> calm cfg sys \<and> ans = Done"
    and step: "parent_step cfg sys ans s = Some s'"
  shows "ts_inv cfg strict s'"
proof -
  note before = parent_before [OF inv step]
  have calm': "strict \<longrightarrow> calm cfg sys" "strict \<longrightarrow> ans = Done" using calm by auto
  show ?thesis
  proof (cases "ts_parent s")
    case ParentOn
    have "locks.keeps cfg strict 0 (modes s) (parent_mode (ParentFork 0)) (accept_mutex_on cfg sys 0 (ts_lock s))"
      using locks.on_keeps [OF before(2) _ calm'(1), of 0] before(3) ParentOn by simp
    then show ?thesis using resume_parent [OF inv, of "ParentFork 0"] step ParentOn before(1) by (simp add: parent_step_def)
  next
    case ParentTest
    have "counter_ok s" using inv by (simp add: ts_inv_def)
    then have "parent_mode (ts_parent s) = Inside \<longrightarrow> ts_counter s = 0" unfolding counter_ok_def by blast
    then have "s' = s\<lparr>ts_parent := ParentOff\<rparr>" using step ParentTest by (simp add: parent_step_def)
    then show ?thesis using before(1) ParentTest
      by (intro parent_walks [OF inv step, where pc = ParentOff and r = "ts_reaped s" and msgs = "ts_messages s"]) simp_all
  next
    case ParentOff
    have "locks.keeps cfg strict 0 (modes s) (parent_mode (ParentWait 0)) (accept_mutex_off cfg sys 0 (ts_lock s))"
      using locks.off_keeps [OF before(2) _ calm'(1), of 0] before(3) ParentOff by simp
    then show ?thesis using resume_parent [OF inv, of "ParentWait 0"] step ParentOff before(1) by (simp add: parent_step_def)
  qed (use step in \<open>simp_all add: parent_init_inv [OF inv calm'(1) step] parent_fork_inv [OF inv calm'(2) step]
      parent_wait_inv [OF inv calm'(2) step] parent_check_inv [OF inv step] parent_step_def\<close>)
qed

lemma step_inv:
  "ts_inv cfg strict s \<Longrightarrow> strict \<longrightarrow> calm_event cfg e \<Longrightarrow> ts_step cfg e s = Some s' \<Longrightarrow> ts_inv cfg strict s'"
proof (cases e)
  case (Parent sys ans)
  then show "ts_inv cfg strict s \<Longrightarrow> strict \<longrightarrow> calm_event cfg e \<Longrightarrow> ts_step cfg e s = Some s' \<Longrightarrow> ts_inv cfg strict s'"
    using parent_inv [of cfg strict s sys ans s'] by simp
next
  case (Child k sys)
  then show "ts_inv cfg strict s \<Longrightarrow> strict \<longrightarrow> calm_event cfg e \<Longrightarrow> ts_step cfg e s = Some s' \<Longrightarrow> ts_inv cfg strict s'"
    using child_inv [of cfg strict s sys k s'] by simp
qed

lemma ts_run_inv:
  "ts_inv cfg strict s \<Longrightarrow> strict \<longrightarrow> list_all (calm_event cfg) es \<Longrightarrow> ts_run cfg es s = Some s' \<Longrightarrow> ts_inv cfg strict s'"
proof (induction es arbitrary: s)
  case (Cons e es)
  then obtain s1 where "ts_step cfg e s = Some s1" "ts_run cfg es s1 = Some s'" by (auto split: option.splits)
  then show ?case using Cons.IH step_inv [of cfg strict s e s1] Cons.prems by auto
qed simp

section \<open>Calls on the lock, seen from the children\<close>

definition outcome_all :: "(lock_state \<Rightarrow> bool) \<Rightarrow> (lock_state \<Rightarrow> bool) \<Rightarrow> outcome \<Rightarrow> bool" where
  "outcome_all P Q out \<longleftrightarrow>
     (case out of Continue lk \<Rightarrow> P lk | Again lk \<Rightarrow> Q lk | ExitWith c lk \<Rightarrow> Q lk | Waits \<Rightarrow> True)"

lemma check_call_all [simp]:
  "outcome_all P Q (check_call sys c code lk rest) \<longleftrightarrow> (if sys c = Done then outcome_all P Q rest else Q lk)"
  by (simp add: check_call_def outcome_all_def)

lemma outcome_all_simps [simp]:
  "outcome_all P Q (Continue lk) \<longleftrightarrow> P lk" "outcome_all P Q (Again lk) \<longleftrightarrow> Q lk"
  "outcome_all P Q (ExitWith c lk) \<longleftrightarrow> Q lk" "outcome_all P Q Waits"
  by (simp_all add: outcome_all_def)

lemma outcome_all_mono:
  "outcome_all P Q out \<Longrightarrow> (\<And>lk. P lk \<Longrightarrow> P' lk) \<Longrightarrow> (\<And>lk. Q lk \<Longrightarrow> Q' lk) \<Longrightarrow> outcome_all P' Q' out"
  by (cases out) (simp_all add: outcome_all_def)

text \<open>What a step of a child is, by its place.\<close>

lemma child_step_cases:
  assumes "child_step cfg sys k s = Some s'"
  obtains
    (call) out pc n where "k < length (ts_children s)" "\<not> has_exited (ts_children s ! k)"
      "resume out (set_child k pc) (\<lambda>c. child_exit cfg k c n) s = Some s'"
      "out = accept_mutex_child_init cfg sys (Suc k) (ts_lock s) \<and> ts_children s ! k = ChildInit \<and> pc = ChildOn 0
       \<or> (\<exists>i. out = accept_mutex_on cfg sys (Suc k) (ts_lock s) \<and> ts_children s ! k = ChildOn i \<and> pc = ChildRead i)
       \<or> (\<exists>i. out = accept_mutex_off cfg sys (Suc k) (ts_lock s) \<and> ts_children s ! k = ChildOff i \<and> pc = ChildOn (i + 1))"
  | (finish) i where "k < length (ts_children s)" "ts_children s ! k = ChildOn i" "s' = child_exit cfg k 0 (nat i) s"
  | (inside) pc n where "k < length (ts_children s)" "child_mode (ts_children s ! k) = Inside" "child_mode pc = Inside"
      "s' = set_child k pc (s\<lparr>ts_counter := n\<rparr>)"
proof -
  have k: "k < length (ts_children s)" using assms by (auto simp: child_step_def split: if_splits)
  show thesis
  proof (cases "ts_children s ! k")
    case ChildInit
    then show thesis using assms k
      by (intro call [of "accept_mutex_child_init cfg sys (Suc k) (ts_lock s)" "ChildOn 0" 0]) (simp_all add: child_step_def)
  next
    case (ChildOn i)
    show thesis
    proof (cases "i < ts_num_iter s")
      case True
      then show thesis using ChildOn assms k
        by (intro call [of "accept_mutex_on cfg sys (Suc k) (ts_lock s)" "ChildRead i" "nat i"]) (simp_all add: child_step_def)
    qed (use ChildOn assms k finish in \<open>simp add: child_step_def\<close>)
  next
    case (ChildRead i)
    then show thesis using assms k inside [of "ChildWrite i (ts_counter s)" "ts_counter s"]
      by (auto simp: child_step_def set_child_def)
  next
    case (ChildWrite i tmp)
    then show thesis using assms k inside [of "ChildOff i" "tmp + 1"] by (auto simp: child_step_def)
  next
    case (ChildOff i)
    then show thesis using assms k
      by (intro call [of "accept_mutex_off cfg sys (Suc k) (ts_lock s)" "ChildOn (i + 1)" "nat (i + 1)"])
        (simp_all add: child_step_def)
  next
    case (ChildExited c n)
    then show thesis using assms k by (simp add: child_step_def)
  qed
qed

text \<open>A fact about the lock and the children that every call and exit of a child keeps, is kept by its steps.\<close>

lemma child_keeps:
  assumes step: "child_step cfg sys k s = Some s'"
    and init: "ts_children s ! k = ChildInit \<Longrightarrow>
      outcome_all (\<lambda>lk. P lk ((ts_children s)[k := ChildOn 0])) (\<lambda>lk. P lk (ts_children s))
        (accept_mutex_child_init cfg sys (Suc k) (ts_lock s))"
    and on: "\<And>i. ts_children s ! k = ChildOn i \<Longrightarrow>
      outcome_all (\<lambda>lk. P lk ((ts_children s)[k := ChildRead i])) (\<lambda>lk. P lk (ts_children s))
        (accept_mutex_on cfg sys (Suc k) (ts_lock s))"
    and off: "\<And>i. ts_children s ! k = ChildOff i \<Longrightarrow>
      outcome_all (\<lambda>lk. P lk ((ts_children s)[k := ChildOn (i + 1)])) (\<lambda>lk. P lk (ts_children s))
        (accept_mutex_off cfg sys (Suc k) (ts_lock s))"
    and exit: "\<And>lk c n. P lk (ts_children s) \<Longrightarrow> P (lock_exit cfg (Suc k) lk) ((ts_children s)[k := ChildExited c n])"
    and now: "P (ts_lock s) (ts_children s)"
    and mode: "\<And>lk pc. P lk (ts_children s) \<Longrightarrow> child_mode (ts_children s ! k) = Inside \<Longrightarrow> child_mode pc = Inside
      \<Longrightarrow> P lk ((ts_children s)[k := pc])"
  shows "P (ts_lock s') (ts_children s')"
  using step
proof (cases rule: child_step_cases)
  case (call out pc n)
  have "outcome_all (\<lambda>lk. P lk ((ts_children s)[k := pc])) (\<lambda>lk. P lk (ts_children s)) out"
    using call(4) init on off by auto
  then show ?thesis using call(3) exit
    by (cases out) (auto simp: resume_def set_child_def child_exit_def)
next
  case (finish i)
  then show ?thesis using exit [OF now] by (simp add: child_exit_def set_child_def)
next
  case (inside pc n)
  then show ?thesis using mode [OF now] by (simp add: set_child_def)
qed

end
