(* ===== verification/TimeSemRuns.thy ===== *)
theory TimeSemRuns
  imports TimeSem
begin

text \<open>
  What the runs of time-sem.c come to: without failing calls nobody waits for ever, the runs are bounded,
  and the counter ends at the product of the arguments; after a failed fork it depends on the configuration
  whether the children are abandoned.
\<close>

section \<open>Progress\<close>

lemma all_exited:
  "length cs \<le> length (filter has_exited cs) \<Longrightarrow> pc \<in> set cs \<Longrightarrow> has_exited pc"
  using length_filter_less [of pc cs has_exited] by force

lemma all_exited_total:
  assumes "\<forall>pc \<in> set cs. has_exited pc \<and> child_wf True n pc"
  shows "total cs = length cs * nat n"
  using assms
proof (induction cs)
  case (Cons c cs)
  then have "increments c = nat n" by (cases c) auto
  then show ?case using Cons by (simp add: total_def)
qed (simp add: total_def)

definition no_failures :: lock_system where
  "no_failures = (\<lambda>_. Done)"

lemma no_failures_calm: "calm cfg no_failures" "\<forall>k. no_failures k = Done"
  by (simp_all add: no_failures_def calm_def)

lemma some_live: "length (filter has_exited cs) < length cs \<Longrightarrow> \<exists>k < length cs. \<not> has_exited (cs ! k)"
  by (metis filter_True in_set_conv_nth less_irrefl)

lemma enabled:
  assumes inv: "ts_inv cfg True s" and going: "\<forall>c f. ts_parent s \<noteq> ParentExited c \<and> ts_parent s \<noteq> ParentFault f"
  shows "parent_step cfg no_failures Done s \<noteq> None \<or> (\<exists>k. child_step cfg no_failures k s \<noteq> None)"
proof -
  have lock: "lock_ok (lock_inv cfg) True (ts_lock s) (modes s)" if "ts_parent s \<noteq> ParentInit"
    using inv that by (auto simp: ts_inv_def)
  have wf: "parent_wf True (ts_num_child s) (ts_children s) (ts_reaped s) (ts_parent s)"
    using inv by (simp add: ts_inv_def)
  show ?thesis
  proof (cases "ts_parent s")
    case ParentInit
    then have "ts_lock s = lock_static" using inv by (simp add: ts_inv_def)
    then show ?thesis
      using locks.init_keeps [of cfg no_failures True] no_failures_calm ParentInit by (auto simp: parent_step_def resume_def)
  next
    case ParentOn
    have "modes s q \<noteq> Inside" for q using wf ParentOn by (cases q) (simp_all add: modes_eval)
    then show ?thesis
      using locks.done_calls(2) [OF lock no_failures_calm(2,1), of 0] ParentOn
      by (auto simp: parent_step_def resume_def modes_eval)
  next
    case ParentOff
    then show ?thesis
      using locks.done_calls(3) [OF lock no_failures_calm(2,1), of 0] by (auto simp: parent_step_def resume_def modes_eval)
  next
    case (ParentWait i)
    show ?thesis
    proof (cases "i < ts_num_child s \<and> \<not> ts_reaped s < length (filter has_exited (ts_children s))")
      case True
      have L: "lock_ok (lock_inv cfg) True (ts_lock s) (modes s)" using lock ParentWait by simp
      show ?thesis
      proof (cases "\<exists>q. modes s q = Inside")
        case True
        then obtain q where q: "modes s q = Inside" ..
        then obtain k where k: "q = Suc k" "k < length (ts_children s)" "child_mode (ts_children s ! k) = Inside"
          using ParentWait by (cases q) (auto simp: modes_def split: if_splits)
        then have "child_step cfg no_failures k s \<noteq> None"
          using locks.done_calls(3) [OF L no_failures_calm(2,1), of q] q
          by (cases "ts_children s ! k") (auto simp: child_step_def resume_def)
        then show ?thesis by blast
      next
        case nobody: False
        have "length (filter has_exited (ts_children s)) < length (ts_children s)"
          using True wf ParentWait by (auto simp: zless_nat_conj nat_less_eq_zless)
        then obtain k where k: "k < length (ts_children s)" "\<not> has_exited (ts_children s ! k)"
          using some_live by blast
        then have "modes s (Suc k) = child_mode (ts_children s ! k)" by (simp add: modes_eval)
        then have "child_step cfg no_failures k s \<noteq> None"
          using locks.done_calls(1,2) [OF L no_failures_calm(2,1), of "Suc k"] nobody k
          by (cases "ts_children s ! k") (auto simp: child_step_def resume_def)
        then show ?thesis by blast
      qed
    qed (use ParentWait in \<open>auto simp: parent_step_def\<close>)
  qed (use going in \<open>auto simp: parent_step_def split: sum.split\<close>)
qed

text \<open>Without failures every step brings the program nearer to its end.\<close>

primrec child_rank :: "int \<Rightarrow> child_pc \<Rightarrow> nat" where
  "child_rank n ChildInit = 4 * nat n + 2"
| "child_rank n (ChildOn i) = 4 * nat (n - i) + 1"
| "child_rank n (ChildRead i) = 4 * nat (n - i)"
| "child_rank n (ChildWrite i tmp) = 4 * nat (n - i) - 1"
| "child_rank n (ChildOff i) = 4 * nat (n - i) - 2"
| "child_rank n (ChildExited c d) = 0"

primrec parent_rank :: "int \<Rightarrow> int \<Rightarrow> parent_pc \<Rightarrow> nat" where
  "parent_rank c n ParentInit = nat c * (4 * nat n + 3) + nat c + 7"
| "parent_rank c n ParentOn = nat c * (4 * nat n + 3) + nat c + 6"
| "parent_rank c n (ParentFork i) = nat (c - i) * (4 * nat n + 3) + nat c + 5"
| "parent_rank c n ParentTest = nat c + 4"
| "parent_rank c n ParentOff = nat c + 3"
| "parent_rank c n (ParentWait i) = nat (c - i) + 2"
| "parent_rank c n ParentCheck = 1"
| "parent_rank c n (ParentExited e) = 0"
| "parent_rank c n (ParentFault f) = 0"

definition ts_rank :: "time_sem \<Rightarrow> nat" where
  "ts_rank s = parent_rank (ts_num_child s) (ts_num_iter s) (ts_parent s)
     + sum_list (map (child_rank (ts_num_iter s)) (ts_children s))"

lemma child_rank_update:
  "k < length cs \<Longrightarrow> child_rank n pc < child_rank n (cs ! k) \<Longrightarrow>
    sum_list (map (child_rank n) (cs[k := pc])) < sum_list (map (child_rank n) cs)"
proof (induction cs arbitrary: k)
  case (Cons c cs)
  then show ?case by (cases k) auto
qed simp

fun done_event :: "ts_event \<Rightarrow> bool" where
  "done_event (Parent sys ans) \<longleftrightarrow> sys = no_failures \<and> ans = Done"
| "done_event (Child k sys) \<longleftrightarrow> sys = no_failures"

lemma child_rank_step:
  assumes inv: "ts_inv cfg True s" and step: "child_step cfg no_failures k s = Some s'"
  shows "ts_rank s' < ts_rank s"
proof -
  have k: "k < length (ts_children s)" using step by (auto simp: child_step_def split: if_splits)
  have wf: "child_wf True (ts_num_iter s) (ts_children s ! k)" using inv k by (auto simp: ts_inv_def)
  have L: "lock_ok (lock_inv cfg) True (ts_lock s) (modes s)" using inv k by (auto simp: ts_inv_def split: if_splits)
  have mode: "modes s (Suc k) = child_mode (ts_children s ! k)" using k by (simp add: modes_eval)
  note calls = locks.done_calls [OF L no_failures_calm(2,1), of "Suc k"]
  have ranked: "ts_rank s' < ts_rank s"
    if "ts_children s' = (ts_children s)[k := pc]" "child_rank (ts_num_iter s) pc < child_rank (ts_num_iter s) (ts_children s ! k)"
      "ts_parent s' = ts_parent s" "ts_num_child s' = ts_num_child s" "ts_num_iter s' = ts_num_iter s" for pc
    using that child_rank_update [OF k] by (simp add: ts_rank_def)
  show ?thesis
  proof (cases "ts_children s ! k")
    case ChildInit
    then show ?thesis using calls(1) step mode k ranked [of "ChildOn 0"]
      by (auto simp: child_step_def resume_def set_child_def)
  next
    case (ChildOn i)
    then show ?thesis using calls(2) step mode k ranked [of "ChildRead i"] ranked [of "ChildExited 0 (nat i)"]
      by (auto simp: child_step_def resume_def set_child_def child_exit_def split: if_splits)
  next
    case (ChildRead i)
    then show ?thesis using step k wf ranked [of "ChildWrite i (ts_counter s)"]
      by (auto simp: child_step_def set_child_def)
  next
    case (ChildWrite i tmp)
    then show ?thesis using step k wf ranked [of "ChildOff i"] by (auto simp: child_step_def set_child_def)
  next
    case (ChildOff i)
    moreover have "nat (ts_num_iter s - i) = Suc (nat (ts_num_iter s - (i + 1)))" using wf ChildOff by auto
    ultimately show ?thesis using calls(3) step mode k ranked [of "ChildOn (i + 1)"]
      by (auto simp: child_step_def resume_def set_child_def)
  next
    case (ChildExited c d)
    then show ?thesis using step k by (simp add: child_step_def)
  qed
qed

lemma parent_rank_step:
  assumes inv: "ts_inv cfg True s" and step: "parent_step cfg no_failures Done s = Some s'"
  shows "ts_rank s' < ts_rank s"
proof -
  have lock: "lock_ok (lock_inv cfg) True (ts_lock s) (modes s)" if "ts_parent s \<noteq> ParentInit"
    using inv that by (auto simp: ts_inv_def)
  have wf: "parent_wf True (ts_num_child s) (ts_children s) (ts_reaped s) (ts_parent s)"
    using inv by (simp add: ts_inv_def)
  have mode: "modes s 0 = parent_mode (ts_parent s)" by (simp add: modes_eval)
  note calls = locks.done_calls [OF lock no_failures_calm(2,1), of 0]
  show ?thesis
  proof (cases "ts_parent s")
    case ParentInit
    then have "ts_lock s = lock_static" using inv by (simp add: ts_inv_def)
    then show ?thesis using locks.init_keeps [of cfg no_failures True] no_failures_calm ParentInit step
      by (auto simp: parent_step_def resume_def ts_rank_def)
  next
    case ParentOn
    then show ?thesis using calls(2) mode step wf by (auto simp: parent_step_def resume_def ts_rank_def)
  next
    case (ParentFork i)
    show ?thesis
    proof (cases "i < ts_num_child s")
      case True
      then have "nat (ts_num_child s - i) = Suc (nat (ts_num_child s - (i + 1)))" by simp
      then show ?thesis using ParentFork step True by (auto simp: parent_step_def ts_rank_def)
    qed (use ParentFork step in \<open>auto simp: parent_step_def ts_rank_def\<close>)
  next
    case ParentTest
    then show ?thesis using step by (auto simp: parent_step_def ts_rank_def parent_exit_def split: if_splits)
  next
    case ParentOff
    then show ?thesis using calls(3) mode step by (auto simp: parent_step_def resume_def ts_rank_def)
  next
    case (ParentWait i)
    then show ?thesis using step by (auto simp: parent_step_def ts_rank_def split: if_splits)
  next
    case ParentCheck
    then show ?thesis using step by (auto simp: parent_step_def ts_rank_def parent_exit_def split: sum.splits if_splits)
  qed (use step in \<open>auto simp: parent_step_def\<close>)
qed

lemma done_run_length:
  "ts_inv cfg True s \<Longrightarrow> list_all done_event es \<Longrightarrow> ts_run cfg es s = Some s' \<Longrightarrow> length es + ts_rank s' \<le> ts_rank s"
proof (induction es arbitrary: s)
  case (Cons e es)
  obtain s1 where s1: "ts_step cfg e s = Some s1" "ts_run cfg es s1 = Some s'"
    using Cons.prems(3) by (auto split: option.splits)
  have e: "done_event e" "list_all done_event es" using Cons.prems(2) by simp_all
  then have "calm_event cfg e" using no_failures_calm by (cases e) auto
  then have "ts_inv cfg True s1" using step_inv [OF Cons.prems(1) _ s1(1)] by simp
  moreover have "ts_rank s1 < ts_rank s"
    using e(1) s1(1) parent_rank_step [OF Cons.prems(1)] child_rank_step [OF Cons.prems(1)] by (cases e) auto
  ultimately show ?case using Cons.IH [OF _ e(2) s1(2)] by simp
qed simp

section \<open>No complaint\<close>

definition sound_arguments :: "time_sem \<Rightarrow> bool" where
  "sound_arguments s \<longleftrightarrow> 0 \<le> ts_num_child s \<and> 0 \<le> ts_num_iter s \<and> ts_num_child s * ts_num_iter s < 2 ^ 31"

lemma final_counter:
  assumes inv: "ts_inv cfg True s" and exited: "length (filter has_exited (ts_children s)) = nat (ts_num_child s)"
    and all: "length (ts_children s) = nat (ts_num_child s)" and args: "sound_arguments s"
  shows "ts_counter s = word_of_int (ts_num_child s * ts_num_iter s)"
    and "\<forall>pc \<in> set (ts_children s). pc = ChildExited 0 (nat (ts_num_iter s))"
proof -
  have each: "has_exited pc \<and> child_wf True (ts_num_iter s) pc" if "pc \<in> set (ts_children s)" for pc
    using all_exited [OF _ that] exited all inv that by (auto simp: ts_inv_def)
  have "total (ts_children s) = nat (ts_num_child s * ts_num_iter s)"
    using all_exited_total [of "ts_children s" "ts_num_iter s"] each all args
    by (simp add: sound_arguments_def nat_mult_distrib)
  moreover have "ts_counter s = of_nat (total (ts_children s))" using inv by (simp add: ts_inv_def counter_ok_def)
  ultimately show "ts_counter s = word_of_int (ts_num_child s * ts_num_iter s)"
    using args by (simp add: sound_arguments_def)
  show "\<forall>pc \<in> set (ts_children s). pc = ChildExited 0 (nat (ts_num_iter s))"
  proof
    fix pc assume "pc \<in> set (ts_children s)"
    from each [OF this] show "pc = ChildExited 0 (nat (ts_num_iter s))" by (cases pc) auto
  qed
qed

definition quiet_exit :: "time_sem \<Rightarrow> bool" where
  "quiet_exit s \<longleftrightarrow> ts_messages s = [] \<and> (\<forall>f. ts_parent s \<noteq> ParentFault f)
     \<and> (\<forall>c. ts_parent s = ParentExited c \<longrightarrow> ts_counter s = word_of_int (ts_num_child s * ts_num_iter s))"

lemma strict_call:
  assumes L: "lock_ok (lock_inv cfg) True lk m" and calm: "calm cfg sys"
  shows "m p = Outside \<Longrightarrow> accept_mutex_on cfg sys p lk \<noteq> ExitWith c lk'"
    and "m p = Inside \<Longrightarrow> accept_mutex_off cfg sys p lk \<noteq> ExitWith c lk'"
  using locks.on_keeps [OF L, of p sys] locks.off_keeps [OF L, of p sys] calm by (auto simp: locks.keeps_def)

lemma quiet_step:
  assumes inv: "ts_inv cfg True s" and args: "sound_arguments s" and q: "quiet_exit s" and calm: "calm_event cfg e"
    and step: "ts_step cfg e s = Some s'"
  shows "quiet_exit s' \<and> sound_arguments s'"
proof (cases e)
  case (Child k sys)
  have k: "k < length (ts_children s)" and live: "\<not> has_exited (ts_children s ! k)"
    using step Child by (auto simp: child_step_def split: if_splits child_pc.splits)
  have "ts_parent s \<noteq> ParentExited c" for c
  proof
    assume "ts_parent s = ParentExited c"
    then have "length (ts_children s) \<le> length (filter has_exited (ts_children s))"
      using inv by (auto simp: ts_inv_def)
    then show False using all_exited [OF _ nth_mem [OF k]] live by simp
  qed
  moreover have "ts_messages s' = ts_messages s \<and> ts_parent s' = ts_parent s \<and> ts_num_child s' = ts_num_child s
      \<and> ts_num_iter s' = ts_num_iter s"
    using step Child k by (auto simp: child_step_def resume_def set_child_def child_exit_def
        split: child_pc.splits if_splits outcome.splits)
  ultimately show ?thesis using q args by (simp add: quiet_exit_def sound_arguments_def)
next
  case (Parent sys ans)
  then have step': "parent_step cfg sys Done s = Some s'" using step calm by simp
  have inv': "ts_inv cfg True s'" using step_inv [OF inv _ step] calm by simp
  have same: "ts_num_child s' = ts_num_child s \<and> ts_num_iter s' = ts_num_iter s"
    using step' by (auto simp: parent_step_def resume_def parent_exit_def
        split: parent_pc.splits if_splits outcome.splits sum.splits)
  show ?thesis
  proof (cases "ts_parent s = ParentCheck")
    case True
    have ex: "length (filter has_exited (ts_children s)) = nat (ts_num_child s)"
        "length (ts_children s) = nat (ts_num_child s)"
      using inv True by (simp_all add: ts_inv_def)
    have "checked32 [ts_num_child s * ts_num_iter s] (ts_num_child s * ts_num_iter s)
        = Inr (ts_num_child s * ts_num_iter s)"
      using args order_trans [OF _ mult_nonneg_nonneg [of "ts_num_child s" "ts_num_iter s"], of "- 2147483648"]
      by (simp add: checked32_def in_int32_def sound_arguments_def)
    then have "s' = parent_exit cfg 0 (s\<lparr>ts_lock := accept_mutex_cleanup cfg (ts_lock s)\<rparr>)"
      using step' True final_counter(1) [OF inv ex args] by (simp add: parent_step_def)
    then show ?thesis using q args final_counter(1) [OF inv ex args] True
      by (simp add: quiet_exit_def sound_arguments_def parent_exit_def)
  next
    case False
    have lock: "lock_ok (lock_inv cfg) True (ts_lock s) (modes s)" if "ts_parent s \<noteq> ParentInit"
      using inv that by (auto simp: ts_inv_def)
    have mode: "modes s 0 = parent_mode (ts_parent s)" by (simp add: modes_eval)
    have c: "calm cfg sys" using calm Parent by simp
    note calls = strict_call [OF lock c, of 0]
    have "ts_messages s' = ts_messages s \<and> (\<forall>c. ts_parent s' \<noteq> ParentExited c) \<and> (\<forall>f. ts_parent s' \<noteq> ParentFault f)"
    proof (cases "ts_parent s")
      case ParentInit
      then have "ts_lock s = lock_static" using inv by (simp add: ts_inv_def)
      then show ?thesis using locks.init_keeps [of cfg sys True] c ParentInit step'
        by (auto simp: parent_step_def resume_def)
    next
      case ParentOn
      then show ?thesis using calls(1) mode step' by (auto simp: parent_step_def resume_def split: outcome.splits)
    next
      case ParentOff
      then show ?thesis using calls(2) mode step' by (auto simp: parent_step_def resume_def split: outcome.splits)
    next
      case ParentTest
      then have "parent_mode (ts_parent s) = Inside" by simp
      moreover have "counter_ok s" using inv by (simp add: ts_inv_def)
      ultimately have "ts_counter s = 0" unfolding counter_ok_def by blast
      then show ?thesis using ParentTest step' by (auto simp: parent_step_def)
    qed (use step' False in \<open>auto simp: parent_step_def split: if_splits\<close>)
    then show ?thesis using q args same by (simp add: quiet_exit_def sound_arguments_def)
  qed
qed

lemma quiet_run:
  "ts_inv cfg True s \<Longrightarrow> sound_arguments s \<Longrightarrow> quiet_exit s \<Longrightarrow> list_all (calm_event cfg) es
    \<Longrightarrow> ts_run cfg es s = Some s' \<Longrightarrow> quiet_exit s' \<and> sound_arguments s'"
proof (induction es arbitrary: s)
  case (Cons e es)
  obtain s1 where s1: "ts_step cfg e s = Some s1" "ts_run cfg es s1 = Some s'"
    using Cons.prems(5) by (auto split: option.splits)
  have e: "calm_event cfg e" "list_all (calm_event cfg) es" using Cons.prems(4) by simp_all
  have "ts_inv cfg True s1" using step_inv [OF Cons.prems(1) _ s1(1)] e by simp
  then show ?case using Cons.IH [OF _ _ _ e(2) s1(2)] quiet_step [OF Cons.prems(1-3) e(1) s1(1)] by simp
qed simp

section \<open>How long a run can be\<close>

lemma child_rank_bound: "child_wf strict n pc \<Longrightarrow> child_rank n pc \<le> 4 * nat n + 2"
  by (cases pc) auto

lemma children_rank_bound:
  "\<forall>pc \<in> set cs. child_wf strict n pc \<Longrightarrow> sum_list (map (child_rank n) cs) \<le> length cs * (4 * nat n + 2)"
proof (induction cs)
  case (Cons c cs)
  then show ?case using child_rank_bound [of strict n c] by auto
qed simp

definition most_steps :: "time_sem \<Rightarrow> nat" where
  "most_steps s = nat (ts_num_child s) * (4 * nat (ts_num_iter s) + 3) + nat (ts_num_child s) + 7"

lemma rank_bound:
  assumes "ts_inv cfg True s"
  shows "ts_rank s \<le> most_steps s"
proof -
  let ?c = "nat (ts_num_child s)" and ?w = "4 * nat (ts_num_iter s) + 3" and ?cs = "ts_children s"
  have sum: "sum_list (map (child_rank (ts_num_iter s)) ?cs) \<le> length ?cs * ?w"
    using children_rank_bound [of ?cs True "ts_num_iter s"] assms
    by (force simp: ts_inv_def algebra_simps intro: order_trans)
  have wf: "parent_wf True (ts_num_child s) ?cs (ts_reaped s) (ts_parent s)" using assms by (simp add: ts_inv_def)
  show ?thesis
  proof (cases "\<exists>i. ts_parent s = ParentFork i")
    case True
    then obtain i where i: "ts_parent s = ParentFork i" ..
    then have len: "0 \<le> i" "i \<le> max 0 (ts_num_child s)" "length ?cs = nat i" using wf by simp_all
    then have "nat (ts_num_child s - i) + length ?cs = ?c" by auto
    then have "?c * ?w = nat (ts_num_child s - i) * ?w + length ?cs * ?w" by (metis add_mult_distrib)
    then show ?thesis using i sum by (simp add: ts_rank_def most_steps_def)
  next
    case False
    have "ts_parent s \<in> {ParentInit, ParentOn} \<Longrightarrow> ?cs = []" using wf by auto
    moreover have "ts_parent s \<notin> {ParentInit, ParentOn} \<Longrightarrow> length ?cs * ?w \<le> ?c * ?w"
      using wf False by (cases "ts_parent s") auto
    moreover have "\<exists>i. ts_parent s = ParentWait i \<and> 0 \<le> i \<Longrightarrow> parent_rank (ts_num_child s) (ts_num_iter s) (ts_parent s) \<le> ?c + 7"
      by (cases "ts_parent s") auto
    ultimately show ?thesis using sum wf False
      by (cases "ts_parent s") (auto simp: ts_rank_def most_steps_def)
  qed
qed

lemma completes:
  "ts_inv cfg True s \<Longrightarrow> sound_arguments s \<Longrightarrow> quiet_exit s \<Longrightarrow>
    \<exists>es s'. list_all done_event es \<and> ts_run cfg es s = Some s' \<and> ts_inv cfg True s' \<and> (\<exists>c. ts_parent s' = ParentExited c)"
proof (induction "ts_rank s" arbitrary: s rule: less_induct)
  case less
  show ?case
  proof (cases "\<exists>c. ts_parent s = ParentExited c")
    case True
    then show ?thesis using less.prems by (intro exI [of _ "[]"]) auto
  next
    case False
    then have "parent_step cfg no_failures Done s \<noteq> None \<or> (\<exists>k. child_step cfg no_failures k s \<noteq> None)"
      using enabled [OF less.prems(1)] less.prems(3) by (auto simp: quiet_exit_def)
    then obtain e s1 where e: "done_event e" "ts_step cfg e s = Some s1"
      using done_event.simps ts_step.simps by (metis not_None_eq)
    have c: "calm_event cfg e" using e(1) no_failures_calm by (cases e) auto
    have inv: "ts_inv cfg True s1" using step_inv [OF less.prems(1) _ e(2)] c by simp
    have "ts_rank s1 < ts_rank s"
      using e parent_rank_step [OF less.prems(1)] child_rank_step [OF less.prems(1)] by (cases e) auto
    with less.hyps [OF _ inv] quiet_step [OF less.prems c e(2)] obtain es s' where
      "list_all done_event es" "ts_run cfg es s1 = Some s'" "ts_inv cfg True s'" "\<exists>c. ts_parent s' = ParentExited c"
      by blast
    then show ?thesis using e by (intro exI [of _ "e # es"]) auto
  qed
qed

section \<open>The lock file\<close>

lemma calls_file:
  "outcome_all (\<lambda>lk'. lk_file lk' = lk_file lk) (\<lambda>lk'. lk_file lk' = lk_file lk) (accept_mutex_child_init cfg sys p lk)"
  "outcome_all (\<lambda>lk'. lk_file lk' = lk_file lk) (\<lambda>lk'. lk_file lk' = lk_file lk) (accept_mutex_on cfg sys p lk)"
  "outcome_all (\<lambda>lk'. lk_file lk' = lk_file lk) (\<lambda>lk'. lk_file lk' = lk_file lk) (accept_mutex_off cfg sys p lk)"
  "outcome_all (\<lambda>lk'. lk_file lk' = (lk_file lk \<or> cfg = FLOCK)) (\<lambda>lk'. lk_file lk' = lk_file lk) (accept_mutex_init cfg sys lk)"
  by (cases cfg; auto simp: lock_defs outcome_all_def split: answer.split)+

lemma exit_codes:
  "accept_mutex_init cfg sys lk = ExitWith c lk' \<Longrightarrow> c \<noteq> 0"
  "accept_mutex_on cfg sys p lk = ExitWith c lk' \<Longrightarrow> c \<noteq> 0"
  "accept_mutex_off cfg sys p lk = ExitWith c lk' \<Longrightarrow> c \<noteq> 0"
  by (cases cfg; auto simp: lock_defs split: answer.splits if_splits)+

lemma exit_file [simp]: "lk_file (lock_exit cfg p lk) = lk_file lk"
  by (cases cfg) (simp_all add: lock_exit_def Let_def)

lemma fork_file [simp]: "lk_file (lock_fork p lk) = lk_file lk"
  by (simp add: lock_fork_def)

lemma child_file: "child_step cfg sys k s = Some s' \<Longrightarrow> lk_file (ts_lock s') = lk_file (ts_lock s)"
  by (rule child_keeps [of cfg sys k s s' "\<lambda>lk cs. lk_file lk = lk_file (ts_lock s)"]) (simp_all add: calls_file)

definition file_inv :: "lock_config \<Rightarrow> time_sem \<Rightarrow> bool" where
  "file_inv cfg s \<longleftrightarrow>
     (case ts_parent s of
        ParentInit \<Rightarrow> \<not> lk_file (ts_lock s)
      | ParentExited c \<Rightarrow> c = 0 \<longrightarrow> \<not> lk_file (ts_lock s)
      | _ \<Rightarrow> lk_file (ts_lock s) = (cfg = FLOCK))"

lemma parent_file:
  assumes inv: "file_inv cfg s" and step: "parent_step cfg sys ans s = Some s'"
  shows "file_inv cfg s'"
proof (cases "ts_parent s")
  case ParentInit
  then show ?thesis using assms calls_file(4) [of "ts_lock s" cfg sys] exit_codes(1) [of cfg sys "ts_lock s"]
    by (auto simp: parent_step_def resume_def file_inv_def parent_exit_def split: outcome.splits)
next
  case ParentOn
  then show ?thesis using assms calls_file(2) [of "ts_lock s" cfg sys 0] exit_codes(2) [of cfg sys 0 "ts_lock s"]
    by (auto simp: parent_step_def resume_def file_inv_def parent_exit_def split: outcome.splits)
next
  case ParentOff
  then show ?thesis using assms calls_file(3) [of "ts_lock s" cfg sys 0] exit_codes(3) [of cfg sys 0 "ts_lock s"]
    by (auto simp: parent_step_def resume_def file_inv_def parent_exit_def split: outcome.splits)
qed (use assms in \<open>auto simp: parent_step_def file_inv_def parent_exit_def accept_mutex_cleanup_def
    flock_mutex_cleanup_def Let_def split: if_splits sum.splits\<close>)

lemma run_file: "file_inv cfg s \<Longrightarrow> ts_run cfg es s = Some s' \<Longrightarrow> file_inv cfg s'"
proof (induction es arbitrary: s)
  case (Cons e es)
  then obtain s1 where s1: "ts_step cfg e s = Some s1" "ts_run cfg es s1 = Some s'" by (auto split: option.splits)
  have "file_inv cfg s1"
  proof (cases e)
    case (Child k sys)
    then have step: "child_step cfg sys k s = Some s1" using s1(1) by simp
    then have "ts_parent s1 = ts_parent s"
      by (auto simp: child_step_def resume_def set_child_def child_exit_def
          split: child_pc.splits if_splits outcome.splits)
    moreover note child_file [OF step]
    ultimately show ?thesis using Cons.prems(1) by (cases "ts_parent s") (simp_all add: file_inv_def)
  qed (use s1(1) parent_file [OF Cons.prems(1)] in auto)
  then show ?case using Cons.IH [OF _ s1(2)] by simp
qed simp

lemma gone_file:
  "ts_parent s = ParentExited c \<Longrightarrow> ts_run cfg es s = Some s' \<Longrightarrow> lk_file (ts_lock s') = lk_file (ts_lock s)"
proof (induction es arbitrary: s)
  case (Cons e es)
  then obtain s1 where s1: "ts_step cfg e s = Some s1" "ts_run cfg es s1 = Some s'" by (auto split: option.splits)
  then obtain k sys where e: "child_step cfg sys k s = Some s1"
    using Cons.prems(1) by (cases e) (auto simp: parent_step_def)
  then have "ts_parent s1 = ParentExited c" using Cons.prems(1)
    by (auto simp: child_step_def resume_def set_child_def child_exit_def
        split: child_pc.splits if_splits outcome.splits)
  then show ?case using Cons.IH [OF _ s1(2)] child_file [OF e] by simp
qed simp

lemma main_file: "file_inv cfg (time_sem_main mmap argv)"
  by (simp add: time_sem_main_def get_shared_mem_def file_inv_def lock_static_def Let_def)

section \<open>The program\<close>

lemma main_inv:
  assumes "length argv = 3"
  shows "ts_inv cfg strict (time_sem_main Done argv)" and "quiet_exit (time_sem_main Done argv)"
  using assms by (simp_all add: time_sem_main_def get_shared_mem_def ts_inv_def counter_ok_def total_def quiet_exit_def Let_def)

lemma arguments_kept:
  "ts_run cfg es s = Some s' \<Longrightarrow> ts_num_child s' = ts_num_child s \<and> ts_num_iter s' = ts_num_iter s"
proof (induction es arbitrary: s)
  case (Cons e es)
  then obtain s1 where s1: "ts_step cfg e s = Some s1" "ts_run cfg es s1 = Some s'" by (auto split: option.splits)
  have "ts_num_child s1 = ts_num_child s \<and> ts_num_iter s1 = ts_num_iter s"
  proof (cases e)
    case (Parent sys ans)
    then show ?thesis using s1(1) by (auto simp: parent_step_def resume_def parent_exit_def
        split: parent_pc.splits if_splits outcome.splits sum.splits)
  next
    case (Child k sys)
    then show ?thesis using s1(1) by (auto simp: child_step_def resume_def set_child_def child_exit_def
        split: child_pc.splits if_splits outcome.splits)
  qed
  then show ?case using Cons.IH [OF s1(2)] by simp
qed simp

text \<open>
  C12. In every configuration, whatever the system answers, every state that the program reaches is well-formed: at
  most one process is in the critical section, the counter is the number of increments that the
  children have made (no update is lost), a copy of it that a child has read is up to date until the
  child has stored its successor, no child makes more than num\_iter increments, and there are at most
  num\_child children.
\<close>

theorem time_sem_well_formed:
  assumes "length argv = 3" and "ts_run cfg es (time_sem_main mmap argv) = Some s"
  shows "(\<forall>p q. modes s p = Inside \<longrightarrow> modes s q = Inside \<longrightarrow> p = q)
    \<and> ts_counter s = of_nat (sum_list (map increments (ts_children s)))
    \<and> (\<forall>i tmp. ChildWrite i tmp \<in> set (ts_children s) \<longrightarrow> tmp = ts_counter s)
    \<and> (\<forall>pc \<in> set (ts_children s). increments pc \<le> nat (ts_num_iter s))
    \<and> length (ts_children s) \<le> nat (ts_num_child s)"
proof -
  have "ts_inv cfg False (time_sem_main mmap argv)"
    using assms(1) by (simp add: time_sem_main_def get_shared_mem_def ts_inv_def counter_ok_def total_def Let_def)
  then have inv: "ts_inv cfg False s" using ts_run_inv assms(2) by blast
  have "modes s p = Inside \<Longrightarrow> modes s q = Inside \<Longrightarrow> p = q" for p q
  proof (cases "lock_ok (lock_inv cfg) False (ts_lock s) (modes s)")
    case True
    then show "modes s p = Inside \<Longrightarrow> modes s q = Inside \<Longrightarrow> p = q" by (rule lock_ok_exclusive)
  next
    case False
    then have "ts_children s = [] \<and> parent_mode (ts_parent s) \<noteq> Inside"
      using inv by (auto simp: ts_inv_def split: if_splits)
    then show "modes s p = Inside \<Longrightarrow> modes s q = Inside \<Longrightarrow> p = q"
      by (cases p) (auto simp: modes_def)
  qed
  moreover have "increments pc \<le> nat (ts_num_iter s)" if "child_wf False (ts_num_iter s) pc" for pc
    using that by (cases pc) (auto simp: max_def split: if_splits)
  moreover note ts_inv_length [OF inv]
  ultimately show ?thesis using inv unfolding ts_inv_def counter_ok_def total_def by blast
qed

text \<open>One child has made an increment and then failed to unlock, and the other one has read the counter.\<close>

definition failing_system :: lock_system where
  "failing_system c = (if c = C_unlock then Failed else Done)"

definition failing_run :: "ts_event list" where
  "failing_run = replicate 7 (Parent no_failures Done) @ replicate 4 (Child 1 no_failures)
     @ [Child 1 failing_system] @ replicate 3 (Child 0 no_failures)"

lemma time_sem_well_formed_witness:
  "case ts_run SYSVSEM failing_run (time_sem_main Done [''time-sem'', ''2'', ''3'']) of None \<Rightarrow> False
   | Some s \<Rightarrow> ts_children s = [ChildWrite 0 1, ChildExited 1 1] \<and> ts_counter s = 1"
proof -
  let ?s = "time_sem_main Done [''time-sem'', ''2'', ''3'']"
  have run: "case ts_run SYSVSEM failing_run ?s of None \<Rightarrow> False
      | Some s \<Rightarrow> ts_children s = [ChildWrite 0 1, ChildExited 1 1]"
    by code_simp
  then show ?thesis using time_sem_well_formed [of "[''time-sem'', ''2'', ''3'']" SYSVSEM failing_run Done]
    by (auto split: option.splits)
qed

text \<open>
  C11. In every configuration a run of the program in which no call fails, with arguments whose product
  fits an int, never has two processes in the critical section and complains of nothing; whenever
  the parent has exited, its status is 0, every child has exited with 0 after num\_iter increments and
  the counter is num\_child * num\_iter, and no lock file is left. From wherever such a run has come to, the program can go on to this
  end, and no run of its steps has more than num\_child * (4 * num\_iter + 3) + num\_child + 7.
\<close>

theorem time_sem_counts:
  assumes "length argv = 3" and "sound_arguments (time_sem_main Done argv)"
    and "list_all (calm_event cfg) es" and "ts_run cfg es (time_sem_main Done argv) = Some s"
  shows "(\<forall>p q. modes s p = Inside \<longrightarrow> modes s q = Inside \<longrightarrow> p = q)
    \<and> ts_messages s = []
    \<and> (\<forall>c. ts_parent s = ParentExited c \<longrightarrow> c = 0
          \<and> ts_children s = replicate (nat (ts_num_child s)) (ChildExited 0 (nat (ts_num_iter s)))
          \<and> ts_counter s = word_of_int (ts_num_child s * ts_num_iter s) \<and> \<not> lk_file (ts_lock s))
    \<and> (\<exists>es' s'. list_all done_event es' \<and> ts_run cfg es' s = Some s' \<and> ts_parent s' = ParentExited 0)
    \<and> (\<forall>es' s'. list_all done_event es' \<longrightarrow> ts_run cfg es' s = Some s' \<longrightarrow>
          length es' \<le> nat (ts_num_child s) * (4 * nat (ts_num_iter s) + 3) + nat (ts_num_child s) + 7)"
proof -
  note start = main_inv(1) [OF assms(1), of cfg True] main_inv(2) [OF assms(1)]
  have inv: "ts_inv cfg True s" using ts_run_inv [OF start(1) _ assms(4)] assms(3) by simp
  have q: "quiet_exit s" "sound_arguments s" using quiet_run [OF start(1) assms(2) start(2) assms(3,4)] by simp_all
  have "modes s p = Inside \<Longrightarrow> modes s q = Inside \<Longrightarrow> p = q" for p q
  proof (cases "ts_parent s = ParentInit")
    case True
    then show "modes s p = Inside \<Longrightarrow> modes s q = Inside \<Longrightarrow> p = q"
      using inv by (cases p) (auto simp: modes_def ts_inv_def)
  next
    case False
    then have "lock_ok (lock_inv cfg) True (ts_lock s) (modes s)" using inv by (simp add: ts_inv_def)
    then show "modes s p = Inside \<Longrightarrow> modes s q = Inside \<Longrightarrow> p = q" by (rule lock_ok_exclusive)
  qed
  moreover have "c = 0 \<and> ts_children s = replicate (nat (ts_num_child s)) (ChildExited 0 (nat (ts_num_iter s)))
      \<and> ts_counter s = word_of_int (ts_num_child s * ts_num_iter s) \<and> \<not> lk_file (ts_lock s)"
    if "ts_parent s = ParentExited c" for c
  proof -
    have ex: "c = 0" "length (filter has_exited (ts_children s)) = nat (ts_num_child s)"
        "length (ts_children s) = nat (ts_num_child s)"
      using inv that by (simp_all add: ts_inv_def)
    have "\<not> lk_file (ts_lock s)" using run_file [OF main_file assms(4)] that ex(1) by (simp add: file_inv_def)
    then show ?thesis using final_counter [OF inv ex(2,3) q(2)] ex
      by (auto simp: list_eq_iff_nth_eq)
  qed
  moreover have "\<exists>es' s'. list_all done_event es' \<and> ts_run cfg es' s = Some s' \<and> ts_parent s' = ParentExited 0"
  proof -
    obtain es' s' c where r: "list_all done_event es'" "ts_run cfg es' s = Some s'" "ts_inv cfg True s'"
        "ts_parent s' = ParentExited c"
      using completes [OF inv q(2,1)] by blast
    then have "c = 0" by (simp add: ts_inv_def)
    with r show ?thesis by blast
  qed
  moreover have "length es' \<le> most_steps s" if "list_all done_event es'" "ts_run cfg es' s = Some s'" for es' s'
    using done_run_length [OF inv that] rank_bound [OF inv] by simp
  ultimately show ?thesis using q(1) unfolding quiet_exit_def most_steps_def by blast
qed

definition one_child_run :: "ts_event list" where
  "one_child_run = replicate 6 (Parent no_failures Done) @ replicate 6 (Child 0 no_failures)
     @ replicate 3 (Parent no_failures Done)"

lemma time_sem_counts_witness:
  "\<exists>s. ts_run FCNTL one_child_run (time_sem_main Done [''time-sem'', ''1'', ''1'']) = Some s
    \<and> ts_messages s = [] \<and> ts_counter s = 1 \<and> ts_children s = [ChildExited 0 1]"
proof -
  let ?s = "time_sem_main Done [''time-sem'', ''1'', ''1'']"
  have run: "case ts_run FCNTL one_child_run ?s of None \<Rightarrow> False
      | Some s \<Rightarrow> ts_parent s = ParentExited 0 \<and> ts_num_child s = 1 \<and> ts_num_iter s = 1"
    by code_simp
  then obtain s where s: "ts_run FCNTL one_child_run ?s = Some s" "ts_parent s = ParentExited 0"
      "ts_num_child s = 1" "ts_num_iter s = 1"
    by (auto split: option.splits)
  have args: "sound_arguments ?s" by code_simp
  have calm: "list_all (calm_event FCNTL) one_child_run"
    by (simp add: one_child_run_def list_all_iff no_failures_calm)
  show ?thesis using time_sem_counts [OF _ args calm s(1)] s by simp
qed

end
