(* ===== verification/TimeSemForks.thy ===== *)
theory TimeSemForks
  imports TimeSemRuns
begin

text \<open>
  What the fork loop of time-sem.c leaves to the children: the parent forks while it has the lock and,
  in two configurations, its signals blocked. A fork that fails ends the parent with the lock.
\<close>

section \<open>The signal mask of the children\<close>

definition blocked :: "lock_state \<Rightarrow> child_pc list \<Rightarrow> bool" where
  "blocked lk cs \<longleftrightarrow>
     (\<forall>k < length cs. lk_mask lk (Suc k) \<and> (child_mode (cs ! k) = Inside \<longrightarrow> lk_prev lk (Suc k)))"

definition masks_inv :: "time_sem \<Rightarrow> bool" where
  "masks_inv s \<longleftrightarrow> blocked (ts_lock s) (ts_children s) \<and> (parent_mode (ts_parent s) = Inside \<longrightarrow> lk_mask (ts_lock s) 0)
     \<and> (ts_parent s \<in> {ParentInit, ParentOn} \<longrightarrow> ts_children s = [])"

lemma blocked_update:
  "blocked lk cs \<Longrightarrow> child_mode pc = Inside \<longrightarrow> lk_prev lk (Suc k) \<Longrightarrow> blocked lk (cs[k := pc])"
  by (cases "k < length cs") (auto simp: blocked_def nth_list_update split: if_splits)

lemma cleanup_fields [simp]:
  "lk_mask (accept_mutex_cleanup cfg lk) = lk_mask lk" "lk_prev (accept_mutex_cleanup cfg lk) = lk_prev lk"
  "lk_fds (accept_mutex_cleanup cfg lk) = lk_fds lk"
  by (simp_all add: accept_mutex_cleanup_def flock_mutex_cleanup_def)

lemma blocked_cleanup [simp]: "blocked (accept_mutex_cleanup cfg lk) cs = blocked lk cs"
  by (simp add: blocked_def)

lemma exit_masks: "cfg \<in> {PTHREAD, SYSVSEM2} \<Longrightarrow> lock_exit cfg p lk = lk"
  by (auto simp: lock_exit_def)

lemma child_masks:
  assumes cfg: "cfg \<in> {PTHREAD, SYSVSEM2}" and inv: "masks_inv s" and step: "child_step cfg sys k s = Some s'"
  shows "masks_inv s'"
proof -
  let ?P = "\<lambda>lk cs. blocked lk cs \<and> lk_mask lk 0 = lk_mask (ts_lock s) 0"
  have now: "?P (ts_lock s) (ts_children s)" using inv by (simp add: masks_inv_def)
  have k: "k < length (ts_children s)" using step by (auto simp: child_step_def split: if_splits)
  have b: "lk_mask (ts_lock s) (Suc k)" "child_mode (ts_children s ! k) = Inside \<Longrightarrow> lk_prev (ts_lock s) (Suc k)"
    "\<And>j. j < length (ts_children s) \<Longrightarrow> lk_mask (ts_lock s) (Suc j)"
    "\<And>j. j < length (ts_children s) \<Longrightarrow> child_mode (ts_children s ! j) = Inside \<Longrightarrow> lk_prev (ts_lock s) (Suc j)"
    using now k by (auto simp: blocked_def)
  have "?P (ts_lock s') (ts_children s')"
  proof (rule child_keeps [OF step, of ?P])
    show "outcome_all (\<lambda>lk. ?P lk ((ts_children s)[k := ChildRead i])) (\<lambda>lk. ?P lk (ts_children s))
        (accept_mutex_on cfg sys (Suc k) (ts_lock s))" if "ts_children s ! k = ChildOn i" for i
      using cfg now b that by (auto simp: lock_defs outcome_all_def blocked_def nth_list_update split: if_splits)
    show "outcome_all (\<lambda>lk. ?P lk ((ts_children s)[k := ChildOn (i + 1)])) (\<lambda>lk. ?P lk (ts_children s))
        (accept_mutex_off cfg sys (Suc k) (ts_lock s))" if "ts_children s ! k = ChildOff i" for i
      using cfg now b that by (auto simp: lock_defs outcome_all_def blocked_def nth_list_update split: if_splits)
    show "?P (lock_exit cfg (Suc k) lk) ((ts_children s)[k := ChildExited c n])" if "?P lk (ts_children s)" for lk c n
      using that cfg by (simp add: exit_masks blocked_update)
    show "?P lk ((ts_children s)[k := pc])"
      if "?P lk (ts_children s)" "child_mode (ts_children s ! k) = Inside" "child_mode pc = Inside" for lk pc
      using that k by (auto simp: blocked_def nth_list_update split: if_splits)
  qed (use now cfg in \<open>auto simp: accept_mutex_child_init_def intro: blocked_update\<close>)
  moreover have "ts_parent s' = ts_parent s" "ts_children s = [] \<longleftrightarrow> ts_children s' = []"
    using step by (auto simp: child_step_def resume_def set_child_def child_exit_def
        split: child_pc.splits if_splits outcome.splits)
  ultimately show ?thesis using inv by (simp add: masks_inv_def)
qed

lemma parent_masks:
  assumes cfg: "cfg \<in> {PTHREAD, SYSVSEM2}" and inv: "masks_inv s" and step: "parent_step cfg sys ans s = Some s'"
  shows "masks_inv s'"
proof (cases "ts_parent s")
  case ParentInit
  then show ?thesis using assms by (auto simp: parent_step_def resume_def masks_inv_def lock_defs parent_exit_def
        exit_masks blocked_def split: if_splits)
next
  case ParentOn
  then show ?thesis using assms by (auto simp: parent_step_def resume_def masks_inv_def lock_defs parent_exit_def
        exit_masks blocked_def split: if_splits)
next
  case (ParentFork i)
  then show ?thesis using assms by (auto simp: parent_step_def masks_inv_def lock_fork_def parent_exit_def
        exit_masks blocked_def nth_append less_Suc_eq split: if_splits)
next
  case ParentOff
  then show ?thesis using assms by (auto simp: parent_step_def resume_def masks_inv_def lock_defs parent_exit_def
        exit_masks blocked_def split: if_splits)
qed (use assms in \<open>auto simp: parent_step_def masks_inv_def parent_exit_def exit_masks split: if_splits sum.splits\<close>)

lemma run_masks:
  "cfg \<in> {PTHREAD, SYSVSEM2} \<Longrightarrow> masks_inv s \<Longrightarrow> ts_run cfg es s = Some s' \<Longrightarrow> masks_inv s'"
proof (induction es arbitrary: s)
  case (Cons e es)
  then obtain s1 where s1: "ts_step cfg e s = Some s1" "ts_run cfg es s1 = Some s'" by (auto split: option.splits)
  then have "masks_inv s1"
    using parent_masks [OF Cons.prems(1,2)] child_masks [OF Cons.prems(1,2)] by (cases e) auto
  then show ?case using Cons.IH [OF Cons.prems(1) _ s1(2)] by simp
qed simp

text \<open>
  In the configurations that block the signals around the lock, pthread mutexes and semaphores without
  undo, every child has them blocked as long as it lives, outside of the lock too, whatever the system
  answers: the parent forks inside of the lock, so that what a child restores is the blocked mask.
\<close>

theorem children_stay_blocked:
  assumes "cfg = PTHREAD \<or> cfg = SYSVSEM2" and "ts_run cfg es (time_sem_main mmap argv) = Some s"
    and "k < length (ts_children s)"
  shows "lk_mask (ts_lock s) (Suc k)"
proof -
  have "masks_inv (time_sem_main mmap argv)"
    by (simp add: time_sem_main_def masks_inv_def blocked_def Let_def split: option.split)
  then have "masks_inv s" using run_masks [of cfg] assms(1,2) by auto
  then show ?thesis using assms(3) by (simp add: masks_inv_def blocked_def)
qed

definition two_children_run :: "ts_event list" where
  "two_children_run = replicate 4 (Parent no_failures Done) @ replicate 3 (Parent no_failures Done)
     @ replicate 5 (Child 1 no_failures)"

lemma children_stay_blocked_witness:
  "case ts_run PTHREAD two_children_run (time_sem_main Done [''time-sem'', ''2'', ''3'']) of None \<Rightarrow> False
   | Some s \<Rightarrow> ts_children s ! 1 = ChildOn 1 \<and> lk_mask (ts_lock s) 2 \<and> \<not> lk_mask (ts_lock s) 0"
proof -
  let ?s = "time_sem_main Done [''time-sem'', ''2'', ''3'']"
  have run: "case ts_run PTHREAD two_children_run ?s of None \<Rightarrow> False
      | Some s \<Rightarrow> length (ts_children s) = 2 \<and> ts_children s ! 1 = ChildOn 1 \<and> \<not> lk_mask (ts_lock s) 0"
    by code_simp
  then show ?thesis using children_stay_blocked [of PTHREAD two_children_run Done _ _ 1]
    by (auto split: option.splits simp: numeral_2_eq_2)
qed

section \<open>A fork that fails\<close>

text \<open>With FLOCK every process that lives has the file description of the parent open.\<close>

definition shares :: "lock_state \<Rightarrow> child_pc list \<Rightarrow> bool" where
  "shares lk cs \<longleftrightarrow> (\<forall>k < length cs. \<not> has_exited (cs ! k) \<longrightarrow> (Suc k, 0) \<in> set (lk_fds lk))"

lemma shares_cleanup [simp]: "shares (accept_mutex_cleanup cfg lk) cs = shares lk cs"
  by (simp add: shares_def)

lemma shares_update:
  "shares lk cs \<Longrightarrow> k < length cs \<Longrightarrow> \<not> has_exited (cs ! k) \<Longrightarrow> set (lk_fds lk) \<subseteq> set (lk_fds lk') \<Longrightarrow>
    shares lk' (cs[k := pc])"
  by (auto simp: shares_def nth_list_update)

lemma shares_mono: "shares lk cs \<Longrightarrow> set (lk_fds lk) \<subseteq> set (lk_fds lk') \<Longrightarrow> shares lk' cs"
  by (auto simp: shares_def)

lemma exit_fds: "lk_fds (lock_exit FLOCK p lk) = filter (\<lambda>(q, _). q \<noteq> p) (lk_fds lk)"
  by (simp add: lock_exit_def Let_def)

lemma shares_exit: "shares lk cs \<Longrightarrow> shares (lock_exit FLOCK (Suc k) lk) (cs[k := ChildExited c n])"
  unfolding shares_def exit_fds by (cases "k < length cs") (auto simp: nth_list_update split: if_splits)

lemma shares_exit_parent: "shares lk cs \<Longrightarrow> shares (lock_exit FLOCK 0 lk) cs"
  unfolding shares_def exit_fds by auto

lemma lock_calls_fds:
  "outcome_all (\<lambda>lk'. set (lk_fds lk) \<subseteq> set (lk_fds lk')) (\<lambda>lk'. set (lk_fds lk) \<subseteq> set (lk_fds lk'))
     (accept_mutex_child_init FLOCK sys p lk)"
  "outcome_all (\<lambda>lk'. lk_fds lk' = lk_fds lk) (\<lambda>lk'. lk_fds lk' = lk_fds lk) (accept_mutex_on FLOCK sys p lk)"
  "outcome_all (\<lambda>lk'. lk_fds lk' = lk_fds lk) (\<lambda>lk'. lk_fds lk' = lk_fds lk) (accept_mutex_off FLOCK sys p lk)"
  by (auto simp: lock_defs outcome_all_def split: answer.split)

definition parent_open :: "time_sem \<Rightarrow> bool" where
  "parent_open s \<longleftrightarrow> (case ts_parent s of ParentOn \<Rightarrow> True | ParentFork i \<Rightarrow> True | _ \<Rightarrow> False)"

definition shares_inv :: "time_sem \<Rightarrow> bool" where
  "shares_inv s \<longleftrightarrow> shares (ts_lock s) (ts_children s)
     \<and> (parent_open s \<longrightarrow> (0, 0) \<in> set (lk_fds (ts_lock s)))
     \<and> (ts_parent s \<in> {ParentInit, ParentOn} \<longrightarrow> ts_children s = [])"

lemma child_shares:
  assumes inv: "shares_inv s" and step: "child_step FLOCK sys k s = Some s'"
  shows "shares_inv s'"
proof -
  let ?fds = "set (lk_fds (ts_lock s))"
  let ?P = "\<lambda>lk cs. shares lk cs \<and> (parent_open s \<longrightarrow> (0, 0) \<in> set (lk_fds lk))"
  have now: "?P (ts_lock s) (ts_children s)" using inv by (simp add: shares_inv_def)
  have k: "k < length (ts_children s)" using step by (auto simp: child_step_def split: if_splits)
  have grown: "?P lk (ts_children s)" "\<not> has_exited (ts_children s ! k) \<Longrightarrow> ?P lk ((ts_children s)[k := pc])"
    if "?fds \<subseteq> set (lk_fds lk)" for lk pc
    using now k that by (auto intro: shares_mono shares_update)
  have "?P (ts_lock s') (ts_children s')"
  proof (rule child_keeps [OF step, of ?P])
    show "outcome_all (\<lambda>lk. ?P lk ((ts_children s)[k := ChildOn 0])) (\<lambda>lk. ?P lk (ts_children s))
        (accept_mutex_child_init FLOCK sys (Suc k) (ts_lock s))" if "ts_children s ! k = ChildInit"
      by (rule outcome_all_mono [OF lock_calls_fds(1)]) (use grown that in auto)
    show "outcome_all (\<lambda>lk. ?P lk ((ts_children s)[k := ChildRead i])) (\<lambda>lk. ?P lk (ts_children s))
        (accept_mutex_on FLOCK sys (Suc k) (ts_lock s))" if "ts_children s ! k = ChildOn i" for i
      by (rule outcome_all_mono [OF lock_calls_fds(2)]) (use grown that in auto)
    show "outcome_all (\<lambda>lk. ?P lk ((ts_children s)[k := ChildOn (i + 1)])) (\<lambda>lk. ?P lk (ts_children s))
        (accept_mutex_off FLOCK sys (Suc k) (ts_lock s))" if "ts_children s ! k = ChildOff i" for i
      by (rule outcome_all_mono [OF lock_calls_fds(3)]) (use grown that in auto)
    show "?P (lock_exit FLOCK (Suc k) lk) ((ts_children s)[k := ChildExited c n])"
      if "?P lk (ts_children s)" for lk c n
      using that by (simp add: shares_exit exit_fds)
    show "?P lk ((ts_children s)[k := pc])"
      if "?P lk (ts_children s)" "child_mode (ts_children s ! k) = Inside" "child_mode pc = Inside" for lk pc
      using that k by (cases "ts_children s ! k") (auto intro: shares_update)
  qed (rule now)
  moreover have "ts_parent s' = ts_parent s" "ts_children s = [] \<longleftrightarrow> ts_children s' = []"
    using step by (auto simp: child_step_def resume_def set_child_def child_exit_def
        split: child_pc.splits if_splits outcome.splits)
  ultimately show ?thesis using inv by (simp add: shares_inv_def parent_open_def)
qed

lemma parent_shares:
  assumes inv: "shares_inv s" and step: "parent_step FLOCK sys ans s = Some s'"
  shows "shares_inv s'"
proof (cases "ts_parent s")
  case ParentInit
  then show ?thesis using assms by (auto simp: parent_step_def resume_def shares_inv_def lock_defs parent_exit_def
        parent_open_def shares_def split: if_splits)
next
  case ParentOn
  then show ?thesis using assms by (auto simp: parent_step_def resume_def shares_inv_def lock_defs parent_exit_def
        parent_open_def shares_def split: if_splits answer.splits)
next
  case (ParentFork i)
  have new: "shares (lock_fork (Suc (length cs)) lk) (cs @ [ChildInit])"
    if "shares lk cs" "(0, 0) \<in> set (lk_fds lk)" for lk cs
    using that by (force simp: shares_def lock_fork_def nth_append less_Suc_eq)
  have "(0, 0) \<in> set (lk_fds lk) \<Longrightarrow> (0, 0) \<in> set (lk_fds (lock_fork p lk))" for p lk
    by (simp add: lock_fork_def)
  then show ?thesis using assms ParentFork new
    by (auto simp: parent_step_def shares_inv_def parent_exit_def parent_open_def shares_exit_parent split: if_splits)
next
  case ParentOff
  have "outcome_all (\<lambda>lk. shares lk (ts_children s)) (\<lambda>lk. shares lk (ts_children s))
      (accept_mutex_off FLOCK sys 0 (ts_lock s))"
    by (rule outcome_all_mono [OF lock_calls_fds(3)]) (use inv in \<open>auto simp: shares_inv_def shares_def\<close>)
  then show ?thesis using ParentOff step
    by (cases "accept_mutex_off FLOCK sys 0 (ts_lock s)")
      (auto simp: parent_step_def resume_def shares_inv_def parent_exit_def parent_open_def shares_exit_parent)
qed (use assms in \<open>auto simp: parent_step_def shares_inv_def parent_exit_def parent_open_def shares_exit_parent
    split: if_splits sum.splits\<close>)

lemma run_shares: "shares_inv s \<Longrightarrow> ts_run FLOCK es s = Some s' \<Longrightarrow> shares_inv s'"
proof (induction es arbitrary: s)
  case (Cons e es)
  then obtain s1 where s1: "ts_step FLOCK e s = Some s1" "ts_run FLOCK es s1 = Some s'" by (auto split: option.splits)
  then have "shares_inv s1"
    using parent_shares [OF Cons.prems(1)] child_shares [OF Cons.prems(1)] by (cases e) auto
  then show ?case using Cons.IH [OF _ s1(2)] by simp
qed simp

text \<open>The lock of a parent that has gone: nobody is inside, nobody gets in.\<close>

definition never_free :: "lock_config \<Rightarrow> lock_state \<Rightarrow> child_pc list \<Rightarrow> bool" where
  "never_free cfg lk cs \<longleftrightarrow> (\<forall>k < length cs. child_mode (cs ! k) \<noteq> Inside)
     \<and> (cfg = SYSVSEM2 \<longrightarrow> lk_value lk = 0) \<and> (cfg \<in> {PTHREAD, USLOCK} \<longrightarrow> lk_owner lk = Some 0)
     \<and> (cfg = FLOCK \<longrightarrow> shares lk cs \<and> ((\<exists>k < length cs. \<not> has_exited (cs ! k)) \<longrightarrow> lk_owner lk = Some 0)
          \<and> (\<forall>k < length cs. child_mode (cs ! k) = Outside \<longrightarrow> lk_fd lk (Suc k) = Suc k))"

definition keeping :: "lock_config set" where
  "keeping = {FLOCK, SYSVSEM2, PTHREAD, USLOCK}"

lemma held_exit:
  assumes "cfg \<in> keeping" and "never_free cfg lk cs"
  shows "never_free cfg (lock_exit cfg (Suc k) lk) (cs[k := ChildExited c n])"
proof -
  have modes: "\<forall>j < length cs. child_mode (cs[k := ChildExited c n] ! j) \<noteq> Inside"
    using assms(2) by (cases "k < length cs") (auto simp: never_free_def nth_list_update)
  show ?thesis
  proof (cases "cfg = FLOCK")
    case True
    let ?lk = "lock_exit FLOCK (Suc k) lk" and ?cs = "cs[k := ChildExited c n]"
    have sh: "shares ?lk ?cs" using assms(2) True by (simp add: never_free_def shares_exit)
    have "lk_owner ?lk = Some 0" if j: "j < length cs" "\<not> has_exited (?cs ! j)" for j
    proof -
      have "j \<noteq> k" using j by auto
      then have "\<not> has_exited (cs ! j)" using j by simp
      then have "lk_owner lk = Some 0" using assms(2) True j by (auto simp: never_free_def)
      moreover have "(Suc j, 0) \<in> set (lk_fds ?lk)" using sh j by (simp add: shares_def)
      then have "0 \<in> snd ` set (filter (\<lambda>(q, _). q \<noteq> Suc k) (lk_fds lk))" by (force simp: exit_fds)
      ultimately show ?thesis by (simp add: lock_exit_def Let_def)
    qed
    moreover have "lk_fd ?lk = lk_fd lk" by (simp add: lock_exit_def Let_def)
    moreover have "child_mode (?cs ! j) = Outside \<Longrightarrow> child_mode (cs ! j) = Outside" if "j < length cs" for j
      using that by (cases "j = k") auto
    ultimately show ?thesis using assms(2) True sh modes by (auto simp: never_free_def)
  next
    case False
    then show ?thesis using assms modes by (auto simp: never_free_def keeping_def lock_exit_def)
  qed
qed

lemma held_step:
  assumes cfg: "cfg \<in> keeping" and now: "never_free cfg (ts_lock s) (ts_children s)" and step: "child_step cfg sys k s = Some s'"
  shows "never_free cfg (ts_lock s') (ts_children s') \<and> ts_counter s' = ts_counter s"
  using step
proof (cases rule: child_step_cases)
  case (call out pc n)
  have out: "child_mode (ts_children s ! k) \<noteq> Inside" using now call(1) by (simp add: never_free_def)
  have keep: "outcome_all (\<lambda>lk. never_free cfg lk ((ts_children s)[k := pc])) (\<lambda>lk. never_free cfg lk (ts_children s)) out"
  proof (cases "ts_children s ! k = ChildInit")
    case True
    then have c: "out = accept_mutex_child_init cfg sys (Suc k) (ts_lock s)" "pc = ChildOn 0" using call(4) by auto
    have sh: "cfg = FLOCK \<Longrightarrow> set (lk_fds (ts_lock s)) \<subseteq> set (lk_fds lk) \<Longrightarrow> shares lk ((ts_children s)[k := ChildOn 0])" for lk
      using now call(1,2) shares_update [of "ts_lock s" "ts_children s" k lk "ChildOn 0"] by (simp add: never_free_def)
    have "lk_owner (ts_lock s) = Some 0" if "cfg = FLOCK" using now call(1,2) that by (auto simp: never_free_def)
    then show ?thesis using now cfg c call(1)
      by (cases "cfg = FLOCK")
        (auto simp: accept_mutex_child_init_def flock_mutex_child_init_def never_free_def nth_list_update intro!: sh)
  next
    case False
    then obtain i where i: "out = accept_mutex_on cfg sys (Suc k) (ts_lock s)" "ts_children s ! k = ChildOn i"
      using call(4) out by auto
    then have "lk_owner (ts_lock s) = Some 0 \<and> lk_fd (ts_lock s) (Suc k) = Suc k" if "cfg = FLOCK"
      using now call(1,2) that by (auto simp: never_free_def)
    then show ?thesis using now cfg call(1) i
      by (auto simp: lock_defs keeping_def outcome_all_def never_free_def split: answer.split)
  qed
  show ?thesis
  proof (cases out)
    case (ExitWith c lk)
    then have "never_free cfg lk (ts_children s)" using keep by simp
    then show ?thesis using call(3) ExitWith held_exit [OF cfg]
      by (auto simp: resume_def set_child_def child_exit_def)
  qed (use keep call(3) in \<open>auto simp: resume_def set_child_def child_exit_def\<close>)
next
  case (finish i)
  then show ?thesis using held_exit [OF cfg now] by (simp add: child_exit_def set_child_def)
next
  case (inside pc n)
  then show ?thesis using now by (simp add: never_free_def)
qed

lemma held_run:
  "cfg \<in> keeping \<Longrightarrow> never_free cfg (ts_lock s) (ts_children s) \<Longrightarrow> ts_parent s = ParentExited c \<Longrightarrow> ts_run cfg es s = Some s' \<Longrightarrow>
    never_free cfg (ts_lock s') (ts_children s') \<and> ts_counter s' = ts_counter s \<and> ts_parent s' = ParentExited c"
proof (induction es arbitrary: s)
  case (Cons e es)
  then obtain s1 where s1: "ts_step cfg e s = Some s1" "ts_run cfg es s1 = Some s'" by (auto split: option.splits)
  then obtain k sys where e: "child_step cfg sys k s = Some s1"
    using Cons.prems(3) by (cases e) (auto simp: parent_step_def)
  then have "ts_parent s1 = ts_parent s"
    by (auto simp: child_step_def resume_def set_child_def child_exit_def
        split: child_pc.splits if_splits outcome.splits)
  then show ?case
    using Cons.IH [OF Cons.prems(1) _ _ s1(2)] held_step [OF Cons.prems(1,2) e] Cons.prems(3) by simp
qed simp

lemma forking_holds:
  assumes "ts_inv cfg False s" and "ts_parent s = ParentFork i"
  shows "lock_inv cfg (ts_lock s) (Some 0) (ready (modes s))"
    and "k < length (ts_children s) \<Longrightarrow> child_mode (ts_children s ! k) \<noteq> Inside"
proof -
  have L: "lock_ok (lock_inv cfg) False (ts_lock s) (modes s)" using assms by (simp add: ts_inv_def)
  have p: "modes s 0 = Inside" using assms(2) by (simp add: modes_eval)
  then show "lock_inv cfg (ts_lock s) (Some 0) (ready (modes s))"
    using L by (auto simp: lock_ok_def holds_lock_def)
  show "k < length (ts_children s) \<Longrightarrow> child_mode (ts_children s ! k) \<noteq> Inside"
    using lock_ok_exclusive [OF L p, of "Suc k"] by (auto simp: modes_eval)
qed

lemma fork_failed_held:
  assumes cfg: "cfg \<in> keeping" and inv: "ts_inv cfg False s" and i: "ts_parent s = ParentFork i"
    and sh: "cfg = FLOCK \<longrightarrow> shares_inv s"
  shows "never_free cfg (lock_exit cfg 0 (ts_lock s)) (ts_children s)"
proof -
  note L = forking_holds [OF inv i]
  have outside: "Suc k \<in> ready (modes s)"
    if "k < length (ts_children s)" "child_mode (ts_children s ! k) = Outside" for k
    using that by (simp add: ready_def modes_eval)
  have kept: "lk_owner (lock_exit FLOCK 0 (ts_lock s)) = Some 0"
    if F: "cfg = FLOCK" and k: "k < length (ts_children s)" "\<not> has_exited (ts_children s ! k)" for k
  proof -
    have "shares (lock_exit FLOCK 0 (ts_lock s)) (ts_children s)" "lk_owner (ts_lock s) = Some 0"
      using sh F L(1) by (auto simp: shares_inv_def shares_exit_parent lock_inv_def)
    then have "(Suc k, 0) \<in> set (filter (\<lambda>(q, _). q \<noteq> 0) (lk_fds (ts_lock s)))"
      using k by (simp add: shares_def exit_fds)
    then have "0 \<in> snd ` set (filter (\<lambda>(q, _). q \<noteq> 0) (lk_fds (ts_lock s)))" by force
    then show ?thesis using \<open>lk_owner (ts_lock s) = Some 0\<close> by (simp add: lock_exit_def Let_def)
  qed
  have fd: "lk_fd (lock_exit FLOCK 0 (ts_lock s)) = lk_fd (ts_lock s)" by (simp add: lock_exit_def Let_def)
  show ?thesis
  proof (cases "cfg = FLOCK")
    case True
    then show ?thesis using L kept outside sh fd
      by (auto simp: never_free_def shares_inv_def shares_exit_parent lock_inv_def)
  next
    case False
    then show ?thesis using cfg L by (auto simp: never_free_def keeping_def lock_exit_def lock_inv_def)
  qed
qed

lemma fork_failed_free:
  assumes cfg: "cfg \<in> {FCNTL, SYSVSEM}" and inv: "ts_inv cfg False s" and i: "ts_parent s = ParentFork i"
    and k: "k < length (ts_children s)" "ts_children s ! k = ChildOn j" "j < ts_num_iter s"
  shows "\<exists>s'. child_step cfg no_failures k (parent_exit cfg 1 s) = Some s' \<and> ts_children s' ! k = ChildRead j"
proof -
  have "lock_inv cfg (lock_exit cfg 0 (ts_lock s)) None {Suc k}"
    using cfg forking_holds(1) [OF inv i] by (auto simp: lock_exit_def lock_inv_def)
  from locks.on_free [OF this _ no_failures_calm(2)] obtain lk where
    "accept_mutex_on cfg no_failures (Suc k) (lock_exit cfg 0 (ts_lock s)) = Continue lk" by auto
  then show ?thesis using k by (simp add: child_step_def parent_exit_def resume_def set_child_def)
qed

text \<open>
  C36. When a fork fails, the parent exits with status 1 while it has the lock. Record locks and semaphores
  with undo are released by the kernel: a child that waits at the lock goes on. In the other four
  configurations nobody will ever have the lock again: however the run continues, no child gets into
  its critical section and the counter stays 0. With flock this is so because each child has inherited
  the description that the parent locked and does not close it;
  and the lock file is left, on which the next start of the program fails.
\<close>

theorem failed_fork:
  assumes "length argv = 3" and "ts_run cfg es (time_sem_main Done argv) = Some s"
    and "ts_parent s = ParentFork i" and "i < ts_num_child s" and "ans \<noteq> Done"
    and "ts_run cfg (Parent sys ans # es') s = Some s'"
  shows "(cfg \<in> {FLOCK, SYSVSEM2, PTHREAD, USLOCK} \<longrightarrow>
        ts_parent s' = ParentExited 1 \<and> ts_counter s' = 0 \<and> (\<forall>p. modes s' p \<noteq> Inside))
    \<and> (cfg = FLOCK \<longrightarrow> lk_file (ts_lock s'))
    \<and> (cfg \<in> {FCNTL, SYSVSEM} \<longrightarrow> es' = [] \<longrightarrow>
        ts_parent s' = ParentExited 1
        \<and> (\<forall>k j. k < length (ts_children s') \<longrightarrow> ts_children s' ! k = ChildOn j \<longrightarrow> j < ts_num_iter s' \<longrightarrow>
              (\<exists>s2. child_step cfg no_failures k s' = Some s2 \<and> ts_children s2 ! k = ChildRead j)))"
proof -
  have inv: "ts_inv cfg False s" using ts_run_inv [OF main_inv(1) [OF assms(1)] _ assms(2)] by simp
  let ?s1 = "parent_exit cfg 1 s"
  have run: "ts_run cfg es' ?s1 = Some s'" using assms(3-6) by (simp add: parent_step_def)
  have "ts_parent s' = ParentExited 1 \<and> ts_counter s' = 0 \<and> (\<forall>p. modes s' p \<noteq> Inside)" if cfg: "cfg \<in> keeping"
  proof -
    have sh: "cfg = FLOCK \<longrightarrow> shares_inv s"
    proof
      assume "cfg = FLOCK"
      moreover have "shares_inv (time_sem_main Done argv)"
        by (simp add: time_sem_main_def get_shared_mem_def shares_inv_def shares_def parent_open_def Let_def)
      ultimately show "shares_inv s" using run_shares assms(2) by blast
    qed
    have "never_free cfg (ts_lock ?s1) (ts_children ?s1)" "ts_parent ?s1 = ParentExited 1"
      using fork_failed_held [OF cfg inv assms(3) sh] by (simp_all add: parent_exit_def)
    from held_run [OF cfg this run] have h: "never_free cfg (ts_lock s') (ts_children s')" "ts_counter s' = ts_counter s"
        "ts_parent s' = ParentExited 1"
      by (simp_all add: parent_exit_def)
    have "modes s' p \<noteq> Inside" for p
      using h(1,3) by (cases p) (auto simp: modes_def never_free_def)
    moreover have "ts_counter s = 0"
    proof -
      have "counter_ok s" using inv by (simp add: ts_inv_def)
      then show ?thesis using assms(3) unfolding counter_ok_def by fastforce
    qed
    ultimately show ?thesis using h(2,3) by simp
  qed
  moreover have "ts_parent s' = ParentExited 1
      \<and> (\<forall>k j. k < length (ts_children s') \<longrightarrow> ts_children s' ! k = ChildOn j \<longrightarrow> j < ts_num_iter s' \<longrightarrow>
            (\<exists>s2. child_step cfg no_failures k s' = Some s2 \<and> ts_children s2 ! k = ChildRead j))"
    if cfg: "cfg \<in> {FCNTL, SYSVSEM}" and "es' = []"
  proof -
    have "s' = ?s1" using run that(2) by simp
    moreover have "ts_children ?s1 = ts_children s" "ts_num_iter ?s1 = ts_num_iter s"
      "ts_parent ?s1 = ParentExited 1" by (simp_all add: parent_exit_def)
    ultimately show ?thesis using fork_failed_free [OF cfg inv assms(3)] by simp
  qed
  moreover have "lk_file (ts_lock s')" if "cfg = FLOCK"
  proof -
    have "file_inv cfg s" using run_file [OF main_file assms(2)] .
    then have "lk_file (ts_lock ?s1)" "ts_parent ?s1 = ParentExited 1"
      using assms(3) that by (simp_all add: file_inv_def parent_exit_def)
    then show ?thesis using gone_file [OF _ run] by simp
  qed
  ultimately show ?thesis unfolding keeping_def by blast
qed

definition fork_once :: "ts_event list" where
  "fork_once = replicate 3 (Parent no_failures Done)"

lemma failed_fork_witness:
  "case ts_run PTHREAD (fork_once @ Parent no_failures Failed # replicate 1 (Child 0 no_failures))
          (time_sem_main Done [''time-sem'', ''2'', ''1'']) of None \<Rightarrow> False
   | Some s \<Rightarrow> ts_children s = [ChildOn 0] \<and> ts_parent s = ParentExited 1 \<and> ts_counter s = 0"
proof -
  let ?m = "time_sem_main Done [''time-sem'', ''2'', ''1'']"
  have first: "case ts_run PTHREAD fork_once ?m of None \<Rightarrow> False | Some s \<Rightarrow> ts_parent s = ParentFork 1 \<and> ts_num_child s = 2"
    by code_simp
  have run: "case ts_run PTHREAD (fork_once @ Parent no_failures Failed # replicate 1 (Child 0 no_failures)) ?m of
      None \<Rightarrow> False | Some s \<Rightarrow> ts_children s = [ChildOn 0]"
    by code_simp
  obtain s where s: "ts_run PTHREAD fork_once ?m = Some s" "ts_parent s = ParentFork 1" "ts_num_child s = 2"
    using first by (auto split: option.splits)
  show ?thesis
    using run failed_fork [OF _ s(1,2), of Failed no_failures "replicate 1 (Child 0 no_failures)"] s
    by (auto simp: ts_run_append split: option.splits)
qed

end
