(* ===== verification/AcceptorLife.thy ===== *)
theory AcceptorLife
  imports Acceptor
begin

text \<open>
  An Acceptor from its constructor to its destructor: the callback is set, the listening socket is
  polled any number of times, and what each poll reports goes through the acceptor's Channel to handleRead.
  The loop's side of this is an argument (what poll reports), since EventLoop is an empty file.
\<close>

section \<open>One round of the loop\<close>

text \<open>The calls of a dispatch in their order; handleRead is the only callback that an acceptor sets.\<close>

primrec deliver ::
  "'k kernel \<Rightarrow> ('c \<Rightarrow> int \<Rightarrow> inet_address \<Rightarrow> 'k \<Rightarrow> 'k) \<Rightarrow> inet_address \<Rightarrow> handler channel_call list \<Rightarrow> 'c acceptor \<Rightarrow> 'k
     \<Rightarrow> (('c \<times> int \<times> inet_address) list \<times> 'c acceptor \<times> 'k) result" where
  "deliver sys run garbage [] a k = Inr ([], a, k)"
| "deliver sys run garbage (c # cs) a k =
     (case c of
        CallRead h ts \<Rightarrow>
          bindE (Acceptor_handleRead sys run True garbage a k) (\<lambda>(handed, a, k).
          bindE (deliver sys run garbage cs a k) (\<lambda>(handed', a, k). Inr (handed @ handed', a, k)))
      | _ \<Rightarrow> deliver sys run garbage cs a k)"

text \<open>A round: what poll reports, and what the variable for the peer's address holds.\<close>

type_synonym round = "32 word \<times> inet_address"

definition acceptor_round ::
  "'k kernel \<Rightarrow> ('c \<Rightarrow> int \<Rightarrow> inet_address \<Rightarrow> 'k \<Rightarrow> 'k) \<Rightarrow> timestamp \<Rightarrow> round \<Rightarrow> 'c acceptor \<Rightarrow> 'k
     \<Rightarrow> (('c \<times> int \<times> inet_address) list \<times> 'c acceptor \<times> 'k) result" where
  "acceptor_round sys run ts r a k =
     (let (calls, ch) = Channel_handleEvent (\<lambda>_ ch. ch) False (\<lambda>_. True) ts
                          (Channel_set_revents (fst r) (acceptChannel a)) in
      deliver sys run (snd r) calls (a\<lparr>acceptChannel := ch\<rparr>) k)"

primrec acceptor_rounds ::
  "'k kernel \<Rightarrow> ('c \<Rightarrow> int \<Rightarrow> inet_address \<Rightarrow> 'k \<Rightarrow> 'k) \<Rightarrow> timestamp \<Rightarrow> round list \<Rightarrow> 'c acceptor \<Rightarrow> 'k
     \<Rightarrow> (('c \<times> int \<times> inet_address) list \<times> 'c acceptor \<times> 'k) result" where
  "acceptor_rounds sys run ts [] a k = Inr ([], a, k)"
| "acceptor_rounds sys run ts (r # rs) a k =
     bindE (acceptor_round sys run ts r a k) (\<lambda>(handed, a, k).
     bindE (acceptor_rounds sys run ts rs a k) (\<lambda>(handed', a, k). Inr (handed @ handed', a, k)))"

text \<open>
  The whole life: the descriptors that the callback has got, and the calls to the loop. When the channel
  is destroyed the loop has removed it, as it has been asked to.
\<close>

definition acceptor_life ::
  "'k kernel \<Rightarrow> ('c \<Rightarrow> int \<Rightarrow> inet_address \<Rightarrow> 'k \<Rightarrow> 'k) \<Rightarrow> inet_address \<Rightarrow> bool \<Rightarrow> 'c option \<Rightarrow> timestamp \<Rightarrow> round list \<Rightarrow> 'k
     \<Rightarrow> (('c \<times> int \<times> inet_address) list \<times> handler channel_call list \<times> 'k) result" where
  "acceptor_life sys run addr reuseport cb ts rs k =
     bindE (Acceptor_new sys addr reuseport k) (\<lambda>(a, k).
     bindE (Acceptor_listen sys True (Acceptor_setNewConnectionCallback cb a) k) (\<lambda>(calls, a, k).
     bindE (acceptor_rounds sys run ts rs a k) (\<lambda>(handed, a, k).
     bindE (Acceptor_destroy sys True False a k) (\<lambda>(calls', k). Inr (handed, calls @ calls', k)))))"

section \<open>Dispatch\<close>

definition readable :: "32 word \<Rightarrow> bool" where
  "readable revents \<longleftrightarrow> revents AND (POLLIN OR POLLPRI OR POLLRDHUP) \<noteq> 0"

text \<open>The channel of an acceptor: only the read callback is set, and it is not handling an event.\<close>

definition acceptor_channel :: "'c acceptor \<Rightarrow> bool" where
  "acceptor_channel a \<longleftrightarrow> readCallback (acceptChannel a) = Some HandleRead \<and> writeCallback (acceptChannel a) = None
     \<and> closeCallback (acceptChannel a) = None \<and> errorCallback (acceptChannel a) = None
     \<and> \<not> ch_tied (acceptChannel a) \<and> \<not> ch_eventHandling (acceptChannel a)"

fun is_message :: "'h channel_call \<Rightarrow> bool" where
  "is_message (LogWarn m) = True"
| "is_message _ = False"

lemma deliver_messages: "list_all is_message ms \<Longrightarrow> deliver sys run g (ms @ cs) a k = deliver sys run g cs a k"
proof (induction ms)
  case (Cons m ms)
  then show ?case by (cases m) simp_all
qed simp

lemma unset_stages:
  "closeCallback ch = None \<Longrightarrow> \<exists>ms. handle_hup run (cs, ch) = (cs @ ms, ch) \<and> list_all is_message ms"
  "\<exists>ms. handle_nval (cs, ch) = (cs @ ms, ch) \<and> list_all is_message ms"
  "errorCallback ch = None \<Longrightarrow> handle_error run (cs, ch) = (cs, ch)"
  "writeCallback ch = None \<Longrightarrow> handle_write run (cs, ch) = (cs, ch)"
  by (simp_all add: handle_hup_def handle_nval_def handle_error_def handle_write_def call_set_def)

lemma read_stage:
  "readCallback ch = Some h \<Longrightarrow> handle_read (\<lambda>_ ch. ch) ts (cs, ch)
    = (cs @ (if readable (ch_revents ch) then [CallRead h ts] else []), ch)"
  by (simp add: handle_read_def call_set_def readable_def)

lemma acceptor_dispatch:
  assumes "acceptor_channel a"
  shows "\<exists>ms. list_all is_message ms
    \<and> Channel_handleEvent (\<lambda>_ ch. ch) False alive ts (Channel_set_revents revents (acceptChannel a))
      = (ms @ (if readable revents then [CallRead HandleRead ts] else []),
         (acceptChannel a)\<lparr>ch_revents := revents, ch_eventHandling := False\<rparr>)"
proof -
  let ?ch = "(acceptChannel a)\<lparr>ch_revents := revents, ch_eventHandling := True\<rparr>"
  have set: "readCallback ?ch = Some HandleRead" "writeCallback ?ch = None" "closeCallback ?ch = None"
      "errorCallback ?ch = None" "\<not> ch_tied (acceptChannel a)"
    using assms by (simp_all add: acceptor_channel_def)
  obtain m1 where m1: "handle_hup (\<lambda>_ ch. ch) ([], ?ch) = ([] @ m1, ?ch)" "list_all is_message m1"
    using unset_stages(1) [OF set(3)] by blast
  obtain m2 where m2: "handle_nval (m1, ?ch) = (m1 @ m2, ?ch)" "list_all is_message m2"
    using unset_stages(2) by blast
  have "handle_write (\<lambda>_ ch. ch) (handle_read (\<lambda>_ ch. ch) ts (handle_error (\<lambda>_ ch. ch) (handle_nval
      (handle_hup (\<lambda>_ ch. ch) ([], ?ch))))) = ((m1 @ m2) @ (if readable revents then [CallRead HandleRead ts] else []), ?ch)"
    unfolding m1(1) append_Nil m2(1) unset_stages(3) [OF set(4)] read_stage [OF set(1)] unset_stages(4) [OF set(2)]
    by simp
  then have "Channel_handleEvent (\<lambda>_ ch. ch) False alive ts (Channel_set_revents revents (acceptChannel a))
      = ((m1 @ m2) @ (if readable revents then [CallRead HandleRead ts] else []),
         ?ch\<lparr>ch_eventHandling := False\<rparr>)"
    using set(5) by (simp add: Channel_handleEvent_def Channel_handleEventWithGuard_def Channel_set_revents_def Let_def)
  then show ?thesis using m1(2) m2(2) by (intro exI [of _ "m1 @ m2"]) simp
qed

text \<open>A round with something to read calls handleRead once, any other round does nothing.\<close>

lemma round_handles:
  assumes "acceptor_channel a"
  shows "\<exists>a'. acceptor_channel a' \<and> acceptSocket a' = acceptSocket a \<and> idleFd a' = idleFd a
    \<and> newConnectionCallback a' = newConnectionCallback a
    \<and> acceptor_round sys run ts r a k
      = (if readable (fst r) then Acceptor_handleRead sys run True (snd r) a' k else Inr ([], a', k))"
proof -
  let ?a = "a\<lparr>acceptChannel := (acceptChannel a)\<lparr>ch_revents := fst r, ch_eventHandling := False\<rparr>\<rparr>"
  obtain ms where ms: "list_all is_message ms"
    "Channel_handleEvent (\<lambda>_ ch. ch) False (\<lambda>_. True) ts (Channel_set_revents (fst r) (acceptChannel a))
      = (ms @ (if readable (fst r) then [CallRead HandleRead ts] else []),
         (acceptChannel a)\<lparr>ch_revents := fst r, ch_eventHandling := False\<rparr>)"
    using acceptor_dispatch [OF assms] by blast
  have "acceptor_round sys run ts r a k
      = deliver sys run (snd r) (if readable (fst r) then [CallRead HandleRead ts] else []) ?a k"
    by (simp only: acceptor_round_def ms(2) Let_def prod.case deliver_messages [OF ms(1)])
  also have "\<dots> = (if readable (fst r) then Acceptor_handleRead sys run True (snd r) ?a k else Inr ([], ?a, k))"
    by (cases "Acceptor_handleRead sys run True (snd r) ?a k") auto
  finally have "acceptor_round sys run ts r a k
      = (if readable (fst r) then Acceptor_handleRead sys run True (snd r) ?a k else Inr ([], ?a, k))" .
  moreover have "acceptor_channel ?a" using assms by (simp add: acceptor_channel_def)
  ultimately show ?thesis by (intro exI [of _ ?a]) simp
qed

section \<open>Descriptors over the whole life\<close>

text \<open>In addition to the laws of \<open>fd_kernel\<close>: a socket is a new descriptor, and settings open and close nothing.\<close>

definition life_kernel :: "'k kernel \<Rightarrow> ('k \<Rightarrow> int set) \<Rightarrow> bool" where
  "life_kernel sys fds \<longleftrightarrow> fd_kernel sys fds \<and> (\<forall>k. opens fds k (sys Sys_socket k)
     \<and> (\<forall>fd opt v. fds (snd (sys (Sys_setsockopt fd opt v) k)) = fds k)
     \<and> (\<forall>fd addr. fds (snd (sys (Sys_bind fd addr) k)) = fds k) \<and> (\<forall>fd n. fds (snd (sys (Sys_listen fd n) k)) = fds k))"

definition handed_fds :: "('c \<times> int \<times> inet_address) list \<Rightarrow> int list" where
  "handed_fds calls = map (\<lambda>(c, fd, addr). fd) calls"

lemma handed_fds_append [simp]: "handed_fds (a @ b) = handed_fds a @ handed_fds b"
  by (simp add: handed_fds_def)

text \<open>What is open is what was open before, the socket, what has been handed on and the spare descriptor.\<close>

definition life_inv :: "('k \<Rightarrow> int set) \<Rightarrow> int set \<Rightarrow> int list \<Rightarrow> 'c acceptor \<Rightarrow> 'k \<Rightarrow> bool" where
  "life_inv fds base handed a k \<longleftrightarrow> acceptor_channel a
     \<and> fds k - {idleFd a} = base \<union> set handed \<union> ({so_fd (acceptSocket a)} - {- 1})
     \<and> (idleFd a \<in> fds k \<or> idleFd a = - 1) \<and> distinct handed \<and> base \<inter> set handed = {}
     \<and> so_fd (acceptSocket a) \<notin> base \<union> set handed"

lemma round_inv:
  assumes K: "fd_kernel sys fds" and run: "\<forall>c fd addr k. fds (run c fd addr k) = fds k"
    and inv: "life_inv fds base handed a k"
  shows "\<exists>calls a' k'. acceptor_round sys run ts r a k = Inr (calls, a', k')
    \<and> life_inv fds base (handed @ handed_fds calls) a' k'
    \<and> (\<not> readable (fst r) \<longrightarrow> calls = [] \<and> k' = k) \<and> newConnectionCallback a' = newConnectionCallback a
    \<and> (newConnectionCallback a = None \<longrightarrow> calls = []) \<and> length calls \<le> 1"
proof -
  obtain a1 where a1: "acceptor_channel a1" "acceptSocket a1 = acceptSocket a" "idleFd a1 = idleFd a"
      "newConnectionCallback a1 = newConnectionCallback a"
      "acceptor_round sys run ts r a k
        = (if readable (fst r) then Acceptor_handleRead sys run True (snd r) a1 k else Inr ([], a1, k))"
    using round_handles [of a sys run ts r k] inv by (auto simp: life_inv_def)
  have inv1: "life_inv fds base handed a1 k" using inv a1 by (simp add: life_inv_def)
  show ?thesis
  proof (cases "readable (fst r)")
    case True
    have "idleFd a1 \<in> fds k \<or> idleFd a1 = - 1" using inv1 by (simp add: life_inv_def)
    note h' = handleRead_fds [OF K this run, of "snd r", folded handed_fds_def]
    obtain calls a' k' where
      h: "Acceptor_handleRead sys run True (snd r) a1 k = Inr (calls, a', k')"
        "fds k' - {idleFd a'} = (fds k - {idleFd a1}) \<union> set (handed_fds calls)"
        "idleFd a' \<in> fds k' \<or> idleFd a' = - 1" "newConnectionCallback a1 = None \<longrightarrow> calls = []"
        "\<forall>(c, fd, addr) \<in> set calls. fd \<notin> fds k \<and> fd \<ge> 0" "length calls \<le> 1"
        "acceptSocket a' = acceptSocket a1" "acceptChannel a' = acceptChannel a1"
        "newConnectionCallback a' = newConnectionCallback a1"
      using h' by (elim exE conjE) (rule that; assumption)
    have new: "fd \<notin> fds k \<and> fd \<ge> 0" if "fd \<in> set (handed_fds calls)" for fd
      using h(5) that by (auto simp: handed_fds_def)
    have open_now: "base \<union> set handed \<union> ({so_fd (acceptSocket a1)} - {- 1}) \<subseteq> fds k"
      using inv1 by (auto simp: life_inv_def)
    have "length (handed_fds calls) \<le> 1" using h(6) by (simp add: handed_fds_def)
    then have "distinct (handed_fds calls)" by (cases "handed_fds calls") auto
    moreover have "set (handed_fds calls) \<inter> (base \<union> set handed) = {}" using new open_now by blast
    moreover have "so_fd (acceptSocket a1) \<notin> set (handed_fds calls)"
    proof
      assume "so_fd (acceptSocket a1) \<in> set (handed_fds calls)"
      from new [OF this] open_now show False by auto
    qed
    moreover have "acceptor_channel a'" using inv1 h(8) by (simp add: life_inv_def acceptor_channel_def)
    ultimately have "life_inv fds base (handed @ handed_fds calls) a' k'"
      using inv1 h(2,3,7) by (auto simp: life_inv_def)
    then show ?thesis using True a1(4,5) h(1,4,6,9) by auto
  qed (use a1 inv1 in \<open>auto simp: handed_fds_def\<close>)
qed

lemma rounds_inv:
  assumes K: "fd_kernel sys fds" and run: "\<forall>c fd addr k. fds (run c fd addr k) = fds k"
  shows "life_inv fds base handed a k \<Longrightarrow>
    \<exists>calls a' k'. acceptor_rounds sys run ts rs a k = Inr (calls, a', k')
      \<and> life_inv fds base (handed @ handed_fds calls) a' k' \<and> length calls \<le> length (filter (\<lambda>r. readable (fst r)) rs)
      \<and> (newConnectionCallback a = None \<longrightarrow> calls = [])"
proof (induction rs arbitrary: handed a k)
  case Nil
  then show ?case by (simp add: handed_fds_def)
next
  case (Cons r rs)
  obtain calls a1 k1 where r: "acceptor_round sys run ts r a k = Inr (calls, a1, k1)"
      "life_inv fds base (handed @ handed_fds calls) a1 k1" "\<not> readable (fst r) \<longrightarrow> calls = []" "length calls \<le> 1"
      "newConnectionCallback a1 = newConnectionCallback a" "newConnectionCallback a = None \<longrightarrow> calls = []"
    using round_inv [OF K run Cons.prems, of ts r] by (elim exE conjE) (rule that; blast)
  obtain calls' a2 k2 where rs: "acceptor_rounds sys run ts rs a1 k1 = Inr (calls', a2, k2)"
      "life_inv fds base ((handed @ handed_fds calls) @ handed_fds calls') a2 k2"
      "length calls' \<le> length (filter (\<lambda>r. readable (fst r)) rs)" "newConnectionCallback a1 = None \<longrightarrow> calls' = []"
    using Cons.IH [OF r(2)] by (elim exE conjE) (rule that; assumption)
  have "length (calls @ calls') \<le> length (filter (\<lambda>r. readable (fst r)) (r # rs))" using r(3,4) rs(3) by (cases "readable (fst r)") auto
  then show ?case using r rs by (intro exI [of _ "calls @ calls'"] exI [of _ a2] exI [of _ k2]) simp
qed

lemma built_inv:
  assumes K: "life_kernel sys fds" and new: "Acceptor_new sys addr reuseport k = Inr (a, k')"
  shows "life_inv fds (fds k) [] a k' \<and> ch_events (acceptChannel a) = 0 \<and> newConnectionCallback a = None"
proof -
  obtain r k1 where s: "sys Sys_socket k = (r, k1)" by fastforce
  obtain idle k2 where i: "sys_open_idle sys k1 = (idle, k2)" by fastforce
  then obtain r2 where r2: "sys Sys_open_dev_null k1 = (r2, k2)" "idle = sr_ret r2"
    by (auto simp: sys_open_idle_def split: prod.splits)
  have F: "fd_kernel sys fds" using K by (simp add: life_kernel_def)
  have "opens fds k (sys Sys_socket k)" using K by (simp add: life_kernel_def)
  then have o1: "opens fds k (r, k1)" using s by simp
  have o2: "opens fds k1 (r2, k2)" using fd_kernelD(3) [OF F, of k1] r2(1) by simp
  have neg: "- 1 \<notin> fds k" using fd_kernelD(5) [OF F] .
  have keep: "fds (snd (sys (Sys_setsockopt fd opt v) k)) = fds k" "fds (snd (sys (Sys_bind fd ad) k)) = fds k" for fd opt v ad k
    using K by (simp_all add: life_kernel_def)
  have made: "idle \<ge> 0" "a = \<lparr>acceptSocket = \<lparr>so_fd = sr_ret r\<rparr>,
        acceptChannel = (Channel_new (sr_ret r))\<lparr>readCallback := Some HandleRead\<rparr>,
        newConnectionCallback = None, listenning = False, idleFd = idle\<rparr>"
      "k' = Socket_bindAddress sys addr \<lparr>so_fd = sr_ret r\<rparr> (Socket_setReusePort sys reuseport \<lparr>so_fd = sr_ret r\<rparr>
        (Socket_setReuseAddr sys True \<lparr>so_fd = sr_ret r\<rparr> k2))"
    using new s i by (simp_all add: Acceptor_new_def sockets_createNonBlockingOrDie_def assert_then_def Socket_new_def
        Socket_fd_def Channel_setReadCallback_def Let_def split: if_splits)
  have k': "fds k' = fds k2"
    by (simp add: made(3) Socket_bindAddress_def Socket_setReusePort_def Socket_setReuseAddr_def sockets_bindOrDie_def keep Let_def)
  have a: "acceptSocket a = \<lparr>so_fd = sr_ret r\<rparr>" "idleFd a = idle" "idle \<ge> 0"
      "acceptor_channel a" "ch_events (acceptChannel a) = 0" "newConnectionCallback a = None"
    using made(1) by (simp_all add: made(2) acceptor_channel_def Channel_new_def)
  show ?thesis using a k' o1 o2 r2(2) neg by (auto simp: life_inv_def opens_def split: if_splits)
qed

lemma listen_inv:
  assumes K: "life_kernel sys fds" and inv: "life_inv fds base handed a k"
  shows "\<exists>a' k'. Acceptor_listen sys True a k = Inr ([UpdateChannel], a', k') \<and> life_inv fds base handed a' k'
    \<and> newConnectionCallback a' = newConnectionCallback a"
proof -
  have "fds (snd (sys (Sys_listen fd n) k)) = fds k" for fd n using K by (simp add: life_kernel_def)
  then show ?thesis using inv
    by (simp add: Acceptor_listen_def Socket_listen_def sockets_listenOrDie_def Channel_enableReading_def Channel_update_def
        life_inv_def acceptor_channel_def Let_def)
qed

lemma destroy_closes:
  assumes K: "fd_kernel sys fds" and inv: "life_inv fds base handed a k"
  shows "\<exists>k'. Acceptor_destroy sys True False a k = Inr ([UpdateChannel, RemoveChannel], k')
    \<and> fds k' = base \<union> set handed"
proof -
  have "- 1 \<notin> fds k" using fd_kernelD(5) [OF K] .
  then have "fds k - {idleFd a} - {so_fd (acceptSocket a)} = base \<union> set handed" using inv by (auto simp: life_inv_def)
  moreover have "\<not> ch_eventHandling (acceptChannel a)" using inv by (simp add: life_inv_def acceptor_channel_def)
  ultimately show ?thesis using fd_kernelD(4) [OF K]
    by (simp add: Acceptor_destroy_def Channel_disableAll_def Channel_update_def Channel_remove_def Channel_isNoneEvent_def
        Channel_destroy_def Socket_destroy_def sockets_close_def)
qed

text \<open>
  C15. The whole life of an Acceptor with its Channel and Socket, on any kernel that opens and closes descriptors as
  documented, for any reports of poll and any callback that itself opens and closes no descriptor. The
  constructor fails its assertion exactly when /dev/null cannot be opened. Otherwise no later assertion
  fails, the loop is told to watch the channel, and at the end to update and to remove it; of the descriptors
  that have been opened none is left open after the destructor but those that the callback has got, which
  are distinct and new, at most one for every report that there is something to read and none without a callback.
\<close>

theorem acceptor_life_balanced:
  fixes sys :: "'k kernel" and run :: "'c \<Rightarrow> int \<Rightarrow> inet_address \<Rightarrow> 'k \<Rightarrow> 'k"
  assumes "life_kernel sys fds" and "\<forall>c fd addr k. fds (run c fd addr k) = fds k"
  shows "(fst (sys_open_idle sys (snd (sys Sys_socket k))) < 0 \<and> acceptor_life sys run addr reuseport cb ts rs k = Inl AssertFail)
    \<or> (\<exists>handed k'. acceptor_life sys run addr reuseport cb ts rs k
          = Inr (handed, [UpdateChannel, UpdateChannel, RemoveChannel], k')
        \<and> fds k' = fds k \<union> set (handed_fds handed) \<and> fds k \<inter> set (handed_fds handed) = {} \<and> distinct (handed_fds handed)
        \<and> length handed \<le> length (filter (\<lambda>r. readable (fst r)) rs) \<and> (cb = None \<longrightarrow> handed = []))"
proof -
  have F: "fd_kernel sys fds" using assms(1) by (simp add: life_kernel_def)
  show ?thesis
  proof (cases "Acceptor_new sys addr reuseport k :: ('c acceptor \<times> 'k) result")
    case (Inl f)
    then show ?thesis
      by (auto simp: acceptor_life_def Acceptor_new_def sockets_createNonBlockingOrDie_def assert_then_def Let_def
          split: prod.splits if_splits)
  next
    case (Inr st)
    obtain a k1 where st: "st = (a, k1)" by fastforce
    have i1: "life_inv fds (fds k) [] (Acceptor_setNewConnectionCallback cb a) k1"
      using built_inv [OF assms(1) Inr [unfolded st]] by (simp add: Acceptor_setNewConnectionCallback_def life_inv_def acceptor_channel_def)
    obtain a2 k2 where l: "Acceptor_listen sys True (Acceptor_setNewConnectionCallback cb a) k1 = Inr ([UpdateChannel], a2, k2)"
        "life_inv fds (fds k) [] a2 k2" "newConnectionCallback a2 = cb"
      using listen_inv [OF assms(1) i1] by (auto simp: Acceptor_setNewConnectionCallback_def)
    obtain handed a3 k3 where r: "acceptor_rounds sys run ts rs a2 k2 = Inr (handed, a3, k3)"
        "life_inv fds (fds k) ([] @ handed_fds handed) a3 k3" "length handed \<le> length (filter (\<lambda>r. readable (fst r)) rs)"
        "newConnectionCallback a2 = None \<longrightarrow> handed = []"
      using rounds_inv [OF F assms(2) l(2), of ts rs] by (elim exE conjE) (rule that; assumption)
    obtain k4 where d: "Acceptor_destroy sys True False a3 k3 = Inr ([UpdateChannel, RemoveChannel], k4)"
        "fds k4 = fds k \<union> set ([] @ handed_fds handed)"
      using destroy_closes [OF F r(2)] by blast
    have "acceptor_life sys run addr reuseport cb ts rs k = Inr (handed, [UpdateChannel, UpdateChannel, RemoveChannel], k4)"
      by (simp add: acceptor_life_def Inr st l(1) r(1) d(1))
    then show ?thesis using d(2) r(2-4) l(3) by (auto simp: life_inv_def)
  qed
qed

definition busy_rounds :: "round list" where
  "busy_rounds = [(POLLIN, sockaddr_zero), (POLLOUT, sockaddr_zero), (POLLIN, sockaddr_zero)]"

lemma acceptor_life_balanced_witness:
  "\<exists>handed k'. acceptor_life small_kernel (\<lambda>_ _ _ k. k) sockaddr_zero True (Some ()) Timestamp_default busy_rounds {}
      = Inr (handed, [UpdateChannel, UpdateChannel, RemoveChannel], k')
    \<and> k' - {- 1} = set (handed_fds handed) \<and> distinct (handed_fds handed) \<and> length handed \<le> 2"
proof -
  define fds :: "int set \<Rightarrow> int set" where "fds = (\<lambda>k. k - {- 1})"
  have "life_kernel small_kernel fds"
    by (auto simp: life_kernel_def fd_kernel_def opens_def small_kernel_def Let_def fds_def)
  moreover have "\<not> fst (sys_open_idle small_kernel (snd (small_kernel Sys_socket {}))) < 0"
    by (simp add: sys_open_idle_def small_kernel_def Let_def)
  moreover have "length (filter (\<lambda>r. readable (fst r)) busy_rounds) = 2"
    by (simp add: busy_rounds_def readable_def POLLIN_def POLLOUT_def POLLPRI_def POLLRDHUP_def)
  ultimately show ?thesis
    using acceptor_life_balanced [of small_kernel fds "\<lambda>_ _ _ k. k" "{}" sockaddr_zero True "Some ()" Timestamp_default busy_rounds]
    by (auto simp: fds_def)
qed

end
