(* ===== verification/QueueTests.thy ===== *)
theory QueueTests
  imports BlockingQueue BoundedBlockingQueue CountDownLatch Printf Timestamp
begin

text \<open>
  The programs of base/tests that use the thread classes together: BlockingQueue\_unittest,
  BoundedBlockingQueue\_unittest and BlockingQueue\_bench\_test. Each starts worker threads, waits on a
  CountDownLatch until all run, puts messages and then one stop message per worker into a queue, and
  joins the workers, which take messages until they get a stop. A call of the latch or the queue is
  one step, which its guard enables: the operations are linearizable and lose no wakeup, which is
  shown with their classes. Printing is left out.
\<close>

section \<open>Calls as steps\<close>

definition call_now :: "('c, 'd, 'r) operation \<Rightarrow> 'd \<Rightarrow> ('r \<times> 'd) option" where
  "call_now opn d = (if guard opn d then Some (body opn d) else None)"

record ('a, 'q) test_queue =
  tq_put :: "'a \<Rightarrow> 'q \<Rightarrow> 'q option"
  tq_get :: "'q \<Rightarrow> ('a \<times> 'q) option"

definition blocking_queue :: "('a, 'a list) test_queue" where
  "blocking_queue =
     \<lparr>tq_put = (\<lambda>x q. map_option snd (call_now (BlockingQueue_put x) q)),
      tq_get = (\<lambda>q. case call_now BlockingQueue_get q of Some (Got x, q') \<Rightarrow> Some (x, q') | _ \<Rightarrow> None)\<rparr>"

definition bounded_queue :: "('a, 'b) circular_buffer \<Rightarrow> ('a, 'b) test_queue" where
  "bounded_queue cb =
     \<lparr>tq_put = (\<lambda>x q. map_option snd (call_now (BoundedBlockingQueue_put cb x) q)),
      tq_get = (\<lambda>q. case call_now (BoundedBlockingQueue_get cb) q of Some (BGot x, q') \<Rightarrow> Some (x, q') | _ \<Rightarrow> None)\<rparr>"

section \<open>The programs\<close>

datatype test_worker = Unstarted | Started | Getting | Ended

datatype test_main = MStart nat | MWait | MPut nat | MStop nat | MJoin nat | MDone

text \<open>The log has the messages that have been taken, each with the worker that took it.\<close>

record ('a, 'q) queue_test =
  qt_main :: test_main
  qt_latch :: int
  qt_queue :: 'q
  qt_workers :: "test_worker list"
  qt_log :: "(nat \<times> 'a) list"

text \<open>The constructor up to the start of the threads.\<close>

definition Test_new :: "'q \<Rightarrow> nat \<Rightarrow> ('a, 'q) queue_test" where
  "Test_new queue numThreads =
     \<lparr>qt_main = MStart 0, qt_latch = int numThreads, qt_queue = queue, qt_workers = replicate numThreads Unstarted,
      qt_log = []\<rparr>"

text \<open>The main thread: starting the workers, run, joinAll.\<close>

definition Test_main :: "('a, 'q) test_queue \<Rightarrow> 'a list \<Rightarrow> 'a \<Rightarrow> ('a, 'q) queue_test \<Rightarrow> ('a, 'q) queue_test option" where
  "Test_main tq msgs stop s =
     (case qt_main s of
        MStart i \<Rightarrow>
          if i < length (qt_workers s)
          then Some (s\<lparr>qt_workers := (qt_workers s)[i := Started], qt_main := MStart (i + 1)\<rparr>)
          else Some (s\<lparr>qt_main := MWait\<rparr>)
      | MWait \<Rightarrow>
          (case call_now CountDownLatch_wait (qt_latch s) of
             Some (r, n) \<Rightarrow> Some (s\<lparr>qt_latch := n, qt_main := MPut 0\<rparr>) | None \<Rightarrow> None)
      | MPut i \<Rightarrow>
          if i < length msgs
          then (case tq_put tq (msgs ! i) (qt_queue s) of
                  Some q \<Rightarrow> Some (s\<lparr>qt_queue := q, qt_main := MPut (i + 1)\<rparr>) | None \<Rightarrow> None)
          else Some (s\<lparr>qt_main := MStop 0\<rparr>)
      | MStop i \<Rightarrow>
          if i < length (qt_workers s)
          then (case tq_put tq stop (qt_queue s) of
                  Some q \<Rightarrow> Some (s\<lparr>qt_queue := q, qt_main := MStop (i + 1)\<rparr>) | None \<Rightarrow> None)
          else Some (s\<lparr>qt_main := MJoin 0\<rparr>)
      | MJoin i \<Rightarrow>
          if i < length (qt_workers s)
          then if qt_workers s ! i = Ended then Some (s\<lparr>qt_main := MJoin (i + 1)\<rparr>) else None
          else Some (s\<lparr>qt_main := MDone\<rparr>)
      | MDone \<Rightarrow> None)"

definition Test_ThreadFunc ::
  "('a, 'q) test_queue \<Rightarrow> ('a \<Rightarrow> bool) \<Rightarrow> nat \<Rightarrow> ('a, 'q) queue_test \<Rightarrow> ('a, 'q) queue_test option" where
  "Test_ThreadFunc tq is_stop k s =
     (if k < length (qt_workers s)
      then (case qt_workers s ! k of
              Unstarted \<Rightarrow> None
            | Started \<Rightarrow>
                (case call_now CountDownLatch_countDown (qt_latch s) of
                   Some (r, n) \<Rightarrow> Some (s\<lparr>qt_latch := n, qt_workers := (qt_workers s)[k := Getting]\<rparr>) | None \<Rightarrow> None)
            | Getting \<Rightarrow>
                (case tq_get tq (qt_queue s) of
                   Some (x, q) \<Rightarrow>
                     Some (s\<lparr>qt_queue := q, qt_log := qt_log s @ [(k, x)],
                             qt_workers := (qt_workers s)[k := (if is_stop x then Ended else Getting)]\<rparr>)
                 | None \<Rightarrow> None)
            | Ended \<Rightarrow> None)
      else None)"

text \<open>A run is a list of the threads that make the steps: None is the main thread.\<close>

fun test_step ::
  "('a, 'q) test_queue \<Rightarrow> 'a list \<Rightarrow> 'a \<Rightarrow> ('a \<Rightarrow> bool) \<Rightarrow> nat option \<Rightarrow> ('a, 'q) queue_test \<Rightarrow> ('a, 'q) queue_test option" where
  "test_step tq msgs stop is_stop None s = Test_main tq msgs stop s"
| "test_step tq msgs stop is_stop (Some k) s = Test_ThreadFunc tq is_stop k s"

primrec test_run ::
  "('a, 'q) test_queue \<Rightarrow> 'a list \<Rightarrow> 'a \<Rightarrow> ('a \<Rightarrow> bool) \<Rightarrow> nat option list \<Rightarrow> ('a, 'q) queue_test \<Rightarrow> ('a, 'q) queue_test option" where
  "test_run tq msgs stop is_stop [] s = Some s"
| "test_run tq msgs stop is_stop (t # ts) s =
     Option.bind (test_step tq msgs stop is_stop t s) (test_run tq msgs stop is_stop ts)"

text \<open>The messages of the unit tests.\<close>

definition hello :: "nat \<Rightarrow> string" where
  "hello i = ''hello '' @ nat_chars i"

definition unittest_messages :: "nat \<Rightarrow> string list" where
  "unittest_messages n = map hello [0..<n]"

definition STOP :: string where
  "STOP = ''STOP''"

section \<open>What a queue promises to the programs\<close>

locale message_queue =
  fixes tq :: "('a, 'q) test_queue" and ok :: "'q \<Rightarrow> bool" and items :: "'q \<Rightarrow> 'a list"
  assumes put_ok: "ok q \<Longrightarrow> tq_put tq x q = Some q' \<Longrightarrow> ok q' \<and> items q' = items q @ [x]"
    and put_blocks: "ok q \<Longrightarrow> tq_put tq x q = None \<Longrightarrow> items q \<noteq> []"
    and get_ok: "ok q \<Longrightarrow> tq_get tq q = Some (x, q') \<Longrightarrow> ok q' \<and> items q = x # items q'"
    and get_blocks: "ok q \<Longrightarrow> tq_get tq q = None \<Longrightarrow> items q = []"

text \<open>What main has put, and how far it is; the rank is the number of steps that are left.\<close>

definition test_sent :: "'a list \<Rightarrow> 'a \<Rightarrow> nat \<Rightarrow> test_main \<Rightarrow> 'a list" where
  "test_sent msgs stop n m =
     (case m of MStart i \<Rightarrow> [] | MWait \<Rightarrow> [] | MPut i \<Rightarrow> take i msgs | MStop i \<Rightarrow> msgs @ replicate i stop
      | MJoin i \<Rightarrow> msgs @ replicate n stop | MDone \<Rightarrow> msgs @ replicate n stop)"

primrec main_left :: "nat \<Rightarrow> nat \<Rightarrow> test_main \<Rightarrow> nat" where
  "main_left n l (MStart i) = (n - i) + 1 + 1 + (l + 1) + (n + 1) + (n + 1)"
| "main_left n l MWait = 1 + (l + 1) + (n + 1) + (n + 1)"
| "main_left n l (MPut i) = (l - i + 1) + (n + 1) + (n + 1)"
| "main_left n l (MStop i) = (n - i + 1) + (n + 1)"
| "main_left n l (MJoin i) = n - i + 1"
| "main_left n l MDone = 0"

primrec worker_left :: "test_worker \<Rightarrow> nat" where
  "worker_left Unstarted = 1"
| "worker_left Started = 1"
| "worker_left Getting = 0"
| "worker_left Ended = 0"

definition counted :: "test_worker list \<Rightarrow> nat" where
  "counted ws = sum_list (map (\<lambda>w. if w = Getting \<or> w = Ended then 1 else 0) ws)"

primrec main_place :: "nat \<Rightarrow> nat \<Rightarrow> test_worker list \<Rightarrow> test_main \<Rightarrow> bool" where
  "main_place n l ws (MStart i) \<longleftrightarrow> i \<le> n \<and> (\<forall>k < n. ws ! k = Unstarted \<longleftrightarrow> i \<le> k)"
| "main_place n l ws MWait \<longleftrightarrow> Unstarted \<notin> set ws"
| "main_place n l ws (MPut i) \<longleftrightarrow> i \<le> l \<and> set ws \<subseteq> {Getting, Ended}"
| "main_place n l ws (MStop i) \<longleftrightarrow> i \<le> n \<and> set ws \<subseteq> {Getting, Ended}"
| "main_place n l ws (MJoin i) \<longleftrightarrow> i \<le> n \<and> set ws \<subseteq> {Getting, Ended} \<and> (\<forall>k < i. ws ! k = Ended)"
| "main_place n l ws MDone \<longleftrightarrow> (\<forall>k < n. ws ! k = Ended)"

text \<open>The stop messages that worker k has taken.\<close>

definition stops_of :: "('a \<Rightarrow> bool) \<Rightarrow> nat \<Rightarrow> (nat \<times> 'a) list \<Rightarrow> nat" where
  "stops_of is_stop k taken = length (filter (\<lambda>(j, x). j = k \<and> is_stop x) taken)"

definition test_inv ::
  "('q \<Rightarrow> bool) \<Rightarrow> ('q \<Rightarrow> 'a list) \<Rightarrow> 'a list \<Rightarrow> 'a \<Rightarrow> ('a \<Rightarrow> bool) \<Rightarrow> nat \<Rightarrow> ('a, 'q) queue_test \<Rightarrow> bool" where
  "test_inv ok items msgs stop is_stop n s \<longleftrightarrow> ok (qt_queue s) \<and> length (qt_workers s) = n
     \<and> qt_latch s = int n - int (counted (qt_workers s))
     \<and> map snd (qt_log s) @ items (qt_queue s) = test_sent msgs stop n (qt_main s)
     \<and> main_place n (length msgs) (qt_workers s) (qt_main s)
     \<and> (\<forall>k < n. stops_of is_stop k (qt_log s) = (if qt_workers s ! k = Ended then 1 else 0))
     \<and> (\<forall>(k, x) \<in> set (qt_log s). k < n)"

definition test_rank :: "'a list \<Rightarrow> nat \<Rightarrow> ('a, 'q) queue_test \<Rightarrow> nat" where
  "test_rank msgs n s = main_left n (length msgs) (qt_main s) + sum_list (map worker_left (qt_workers s))
     + (length msgs + n - length (qt_log s))"

lemma sum_update:
  "k < length ws \<Longrightarrow> sum_list (map f (ws[k := w])) + f (ws ! k) = sum_list (map f ws) + (f w :: nat)"
proof (induction ws arbitrary: k)
  case (Cons v ws)
  then show ?case by (cases k) auto
qed simp

lemma counted_le: "counted ws \<le> length ws"
  unfolding counted_def by (induction ws) auto

lemma counted_all: "counted ws = length ws \<longleftrightarrow> set ws \<subseteq> {Getting, Ended}"
proof (induction ws)
  case (Cons w ws)
  then show ?case using counted_le [of ws] by (cases w) (auto simp: counted_def)
qed (simp add: counted_def)

lemma sent_length: "main_place n (length msgs) ws m \<Longrightarrow> length (test_sent msgs stop n m) \<le> length msgs + n"
  by (cases m) (auto simp: test_sent_def)

lemma stops_of_append: "stops_of is_stop k (taken @ [(j, x)]) = stops_of is_stop k taken + (if j = k \<and> is_stop x then 1 else 0)"
  by (simp add: stops_of_def)

lemma stops_total:
  "\<forall>(k, x) \<in> set taken. k < n \<Longrightarrow> (\<Sum>k<n. stops_of is_stop k taken) = length (filter is_stop (map snd taken))"
proof (induction taken rule: rev_induct)
  case Nil
  then show ?case by (simp add: stops_of_def)
next
  case (snoc e taken)
  obtain j x where e: "e = (j, x)" by fastforce
  have j: "j < n" using snoc.prems e by simp
  have "(\<Sum>k<n. stops_of is_stop k (taken @ [e])) = (\<Sum>k<n. stops_of is_stop k taken) + (\<Sum>k<n. if j = k \<and> is_stop x then 1 else 0)"
    by (simp add: e stops_of_append sum.distrib)
  also have "(\<Sum>k<n. if j = k \<and> is_stop x then 1 else (0::nat)) = (if is_stop x then 1 else 0)"
    using j by (cases "is_stop x") (simp_all add: sum.delta)
  finally show ?case using snoc e by simp
qed

context message_queue
begin

lemma main_start_keeps:
  assumes inv: "test_inv ok items msgs stop is_stop n s" and step: "Test_main tq msgs stop s = Some s'" and pc: "qt_main s = MStart i"
  shows "test_inv ok items msgs stop is_stop n s' \<and> test_rank msgs n s' < test_rank msgs n s"
proof (cases "i < length (qt_workers s)")
  case True
  then have un: "qt_workers s ! i = Unstarted" using inv pc by (simp add: test_inv_def)
  have c: "counted ((qt_workers s)[i := Started]) = counted (qt_workers s)"
    using sum_update [OF True, of "\<lambda>w. if w = Getting \<or> w = Ended then 1 else 0" Started] un by (simp add: counted_def)
  have w: "sum_list (map worker_left ((qt_workers s)[i := Started])) = sum_list (map worker_left (qt_workers s))"
    using sum_update [OF True, of worker_left Started] un by simp
  have s': "s' = s\<lparr>qt_workers := (qt_workers s)[i := Started], qt_main := MStart (i + 1)\<rparr>"
    using step pc True by (simp add: Test_main_def)
  have "main_place n (length msgs) ((qt_workers s)[i := Started]) (MStart (i + 1))"
    using inv pc True by (auto simp: test_inv_def nth_list_update)
  moreover have "(qt_workers s)[i := Started] ! k = Ended \<longleftrightarrow> qt_workers s ! k = Ended" for k
    using un True by (cases "k = i") auto
  moreover have "test_sent msgs stop n (MStart (i + 1)) = test_sent msgs stop n (MStart i)" by (simp add: test_sent_def)
  ultimately have "test_inv ok items msgs stop is_stop n s'" using inv pc c
    unfolding s' test_inv_def by simp
  then show ?thesis using inv pc True w by (auto simp: s' test_rank_def test_inv_def)
next
  case False
  then have "Unstarted \<notin> set (qt_workers s)" using inv pc by (auto simp: test_inv_def in_set_conv_nth)
  then show ?thesis using inv step pc False
    by (auto simp: Test_main_def test_inv_def test_rank_def test_sent_def)
qed

lemma main_put_keeps:
  assumes inv: "test_inv ok items msgs stop is_stop n s" and step: "Test_main tq msgs stop s = Some s'" and pc: "qt_main s = MPut i"
  shows "test_inv ok items msgs stop is_stop n s' \<and> test_rank msgs n s' < test_rank msgs n s"
proof (cases "i < length msgs")
  case True
  then obtain q where q: "tq_put tq (msgs ! i) (qt_queue s) = Some q" "s' = s\<lparr>qt_queue := q, qt_main := MPut (i + 1)\<rparr>"
    using step pc by (auto simp: Test_main_def split: option.splits)
  have "ok q \<and> items q = items (qt_queue s) @ [msgs ! i]" using put_ok [OF _ q(1)] inv by (simp add: test_inv_def)
  moreover have "take (Suc i) msgs = take i msgs @ [msgs ! i]" using True by (rule take_Suc_conv_app_nth)
  moreover have "map snd (qt_log s) @ items (qt_queue s) = take i msgs" using inv pc by (simp add: test_inv_def test_sent_def)
  ultimately show ?thesis using inv pc True
    by (simp add: q(2) test_inv_def test_rank_def test_sent_def flip: append_assoc)
next
  case False
  then show ?thesis using inv step pc
    by (auto simp: Test_main_def test_inv_def test_rank_def test_sent_def)
qed

lemma main_stop_keeps:
  assumes inv: "test_inv ok items msgs stop is_stop n s" and step: "Test_main tq msgs stop s = Some s'" and pc: "qt_main s = MStop i"
  shows "test_inv ok items msgs stop is_stop n s' \<and> test_rank msgs n s' < test_rank msgs n s"
proof (cases "i < length (qt_workers s)")
  case True
  then obtain q where q: "tq_put tq stop (qt_queue s) = Some q" "s' = s\<lparr>qt_queue := q, qt_main := MStop (i + 1)\<rparr>"
    using step pc by (auto simp: Test_main_def split: option.splits)
  have "ok q \<and> items q = items (qt_queue s) @ [stop]" using put_ok [OF _ q(1)] inv by (simp add: test_inv_def)
  moreover have "map snd (qt_log s) @ items (qt_queue s) = msgs @ replicate i stop"
    using inv pc by (simp add: test_inv_def test_sent_def)
  moreover have "msgs @ replicate (Suc i) stop = (msgs @ replicate i stop) @ [stop]"
    by (simp add: replicate_append_same)
  ultimately show ?thesis using inv pc True
    by (simp add: q(2) test_inv_def test_rank_def test_sent_def flip: append_assoc)
next
  case False
  then show ?thesis using inv step pc
    by (auto simp: Test_main_def test_inv_def test_rank_def test_sent_def)
qed

lemma main_keeps:
  assumes inv: "test_inv ok items msgs stop is_stop n s" and step: "Test_main tq msgs stop s = Some s'"
  shows "test_inv ok items msgs stop is_stop n s' \<and> test_rank msgs n s' < test_rank msgs n s"
proof (cases "qt_main s")
  case (MStart i)
  then show ?thesis by (rule main_start_keeps [OF inv step])
next
  case MWait
  then have l: "\<not> 0 < qt_latch s" and s': "s' = s\<lparr>qt_main := MPut 0\<rparr>"
    using step by (auto simp: Test_main_def call_now_def CountDownLatch_wait_def split: if_splits)
  have "counted (qt_workers s) = length (qt_workers s)"
    using l inv counted_le [of "qt_workers s"] by (simp add: test_inv_def)
  then have place: "main_place n (length msgs) (qt_workers s) (MPut 0)" using counted_all [of "qt_workers s"] by simp
  have "test_sent msgs stop n (MPut 0) = test_sent msgs stop n MWait" by (simp add: test_sent_def)
  then have "test_inv ok items msgs stop is_stop n s'" using inv MWait place unfolding s' test_inv_def by simp
  then show ?thesis using MWait by (simp add: s' test_rank_def)
next
  case (MPut i)
  then show ?thesis by (rule main_put_keeps [OF inv step])
next
  case (MStop i)
  then show ?thesis by (rule main_stop_keeps [OF inv step])
next
  case (MJoin i)
  then show ?thesis using inv step
    by (auto simp: Test_main_def test_inv_def test_rank_def test_sent_def less_Suc_eq split: if_splits)
next
  case MDone
  then show ?thesis using step by (simp add: Test_main_def)
qed

lemma worker_inv:
  assumes inv: "test_inv ok items msgs stop is_stop n s" and step: "Test_ThreadFunc tq is_stop k s = Some s'"
    and plain: "\<forall>x \<in> set msgs. \<not> is_stop x"
  shows "test_inv ok items msgs stop is_stop n s' \<and> test_rank msgs n s' < test_rank msgs n s"
proof -
  have k: "k < length (qt_workers s)" "k < n" using step inv by (auto simp: Test_ThreadFunc_def test_inv_def split: if_splits)
  let ?c = "\<lambda>w. if w = Getting \<or> w = Ended then 1 else 0 :: nat"
  show ?thesis
  proof (cases "qt_workers s ! k")
    case Started
    have s': "s' = s\<lparr>qt_latch := qt_latch s - 1, qt_workers := (qt_workers s)[k := Getting]\<rparr>"
      using step k Started by (simp add: Test_ThreadFunc_def call_now_def CountDownLatch_countDown_def)
    have c: "counted ((qt_workers s)[k := Getting]) = counted (qt_workers s) + 1"
      using sum_update [OF k(1), of ?c Getting] Started by (simp add: counted_def)
    have w: "sum_list (map worker_left ((qt_workers s)[k := Getting])) + 1 = sum_list (map worker_left (qt_workers s))"
      using sum_update [OF k(1), of worker_left Getting] Started by simp
    have e: "(qt_workers s)[k := Getting] ! j = Ended \<longleftrightarrow> qt_workers s ! j = Ended" for j
      using Started k by (cases "j = k") auto
    have u: "(qt_workers s)[k := Getting] ! j = Unstarted \<longleftrightarrow> qt_workers s ! j = Unstarted" for j
      using Started k by (cases "j = k") auto
    have "\<not> set (qt_workers s) \<subseteq> {Getting, Ended}" using Started k(1) nth_mem by fastforce
    then have "main_place n (length msgs) ((qt_workers s)[k := Getting]) (qt_main s)"
      using inv e u Started k set_update_subset_insert [of "qt_workers s" k Getting]
      by (cases "qt_main s") (auto simp: test_inv_def)
    then show ?thesis using inv c w e by (auto simp: s' test_inv_def test_rank_def)
  next
    case Getting
    then obtain x q where q: "tq_get tq (qt_queue s) = Some (x, q)"
        "s' = s\<lparr>qt_queue := q, qt_log := qt_log s @ [(k, x)],
                qt_workers := (qt_workers s)[k := (if is_stop x then Ended else Getting)]\<rparr>"
      using step k by (auto simp: Test_ThreadFunc_def split: option.splits)
    let ?w = "if is_stop x then Ended else Getting"
    have o: "ok q" "items (qt_queue s) = x # items q" using get_ok [OF _ q(1)] inv by (simp_all add: test_inv_def)
    have c: "counted ((qt_workers s)[k := ?w]) = counted (qt_workers s)"
      using sum_update [OF k(1), of ?c ?w] Getting by (simp add: counted_def split: if_splits)
    have w: "sum_list (map worker_left ((qt_workers s)[k := ?w])) = sum_list (map worker_left (qt_workers s))"
      using sum_update [OF k(1), of worker_left ?w] Getting by (simp split: if_splits)
    have sent: "map snd (qt_log s @ [(k, x)]) @ items q = test_sent msgs stop n (qt_main s)"
      using inv o by (simp add: test_inv_def)
    have "length (map snd (qt_log s @ [(k, x)]) @ items q) \<le> length msgs + n"
      unfolding sent using sent_length inv by (force simp: test_inv_def)
    then have len: "length (qt_log s) < length msgs + n" by simp
    have place: "main_place n (length msgs) ((qt_workers s)[k := ?w]) (qt_main s)"
      using inv Getting k set_update_subset_insert [of "qt_workers s" k ?w]
      by (cases "qt_main s") (auto simp: test_inv_def nth_list_update)
    have stops: "stops_of is_stop j (qt_log s @ [(k, x)]) = (if (qt_workers s)[k := ?w] ! j = Ended then 1 else 0)"
      if "j < n" for j
      using inv that Getting k by (cases "j = k") (auto simp: test_inv_def stops_of_append)
    show ?thesis using inv o(1) c w sent len place stops k(2) by (simp add: q(2) test_inv_def test_rank_def)
  qed (use step k in \<open>auto simp: Test_ThreadFunc_def\<close>)
qed

lemma runs_keep:
  "test_inv ok items msgs stop is_stop n s \<Longrightarrow> \<forall>x \<in> set msgs. \<not> is_stop x \<Longrightarrow> test_run tq msgs stop is_stop ts s = Some s'
    \<Longrightarrow> test_inv ok items msgs stop is_stop n s' \<and> length ts + test_rank msgs n s' \<le> test_rank msgs n s"
proof (induction ts arbitrary: s)
  case (Cons t ts)
  obtain s1 where s1: "test_step tq msgs stop is_stop t s = Some s1" "test_run tq msgs stop is_stop ts s1 = Some s'"
    using Cons.prems(3) by (auto simp: bind_eq_Some_conv)
  have "test_inv ok items msgs stop is_stop n s1 \<and> test_rank msgs n s1 < test_rank msgs n s"
    using s1(1) main_keeps [OF Cons.prems(1)] worker_inv [OF Cons.prems(1) _ Cons.prems(2)] by (cases t) auto
  then show ?case using Cons.IH [OF _ Cons.prems(2) s1(2)] by auto
qed simp

text \<open>The number of workers that have ended is the number of stop messages that have been taken.\<close>

lemma ended_stops:
  assumes "test_inv ok items msgs stop is_stop n s"
  shows "card {k. k < n \<and> qt_workers s ! k = Ended} = length (filter is_stop (map snd (qt_log s)))"
proof -
  have "(\<Sum>k<n. stops_of is_stop k (qt_log s)) = (\<Sum>k<n. if qt_workers s ! k = Ended then 1 else 0)"
    using assms by (intro sum.cong) (auto simp: test_inv_def)
  also have "\<dots> = card {k. k < n \<and> qt_workers s ! k = Ended}"
    by (simp add: sum.If_cases Collect_conj_eq lessThan_def)
  finally show ?thesis using stops_total [of "qt_log s" n is_stop] assms by (simp add: test_inv_def)
qed

lemma taker:
  assumes inv: "test_inv ok items msgs stop is_stop n s" and pending: "items (qt_queue s) \<noteq> []"
    and place: "set (qt_workers s) \<subseteq> {Getting, Ended}" and few: "length (filter is_stop (map snd (qt_log s))) < n"
  shows "\<exists>k. Test_ThreadFunc tq is_stop k s \<noteq> None"
proof -
  have len: "length (qt_workers s) = n" using inv by (simp add: test_inv_def)
  have "\<exists>k < n. qt_workers s ! k \<noteq> Ended"
  proof (rule ccontr)
    assume "\<not> (\<exists>k < n. qt_workers s ! k \<noteq> Ended)"
    then have "{k. k < n \<and> qt_workers s ! k = Ended} = {..<n}" by auto
    then show False using few ended_stops [OF inv] by simp
  qed
  then obtain k where k: "k < n" "qt_workers s ! k = Getting"
    using place len nth_mem by (metis insertE singletonD subsetD)
  have "ok (qt_queue s)" using inv by (simp add: test_inv_def)
  then have "tq_get tq (qt_queue s) \<noteq> None" using get_blocks pending by blast
  then have "Test_ThreadFunc tq is_stop k s \<noteq> None" using k len by (auto simp: Test_ThreadFunc_def)
  then show ?thesis ..
qed

lemma test_enabled:
  assumes inv: "test_inv ok items msgs stop is_stop n s" and plain: "\<forall>x \<in> set msgs. \<not> is_stop x" and stop: "is_stop stop"
    and n: "0 < n" and going: "qt_main s \<noteq> MDone"
  shows "Test_main tq msgs stop s \<noteq> None \<or> (\<exists>k. Test_ThreadFunc tq is_stop k s \<noteq> None)"
proof -
  have len: "length (qt_workers s) = n" and okq: "ok (qt_queue s)"
    and sent: "map snd (qt_log s) @ items (qt_queue s) = test_sent msgs stop n (qt_main s)"
    and place: "main_place n (length msgs) (qt_workers s) (qt_main s)" using inv by (simp_all add: test_inv_def)
  have none: "filter is_stop (take i msgs) = []" for i using plain set_take_subset [of i msgs] by (auto simp: filter_empty_conv)
  have stops: "length (filter is_stop (map snd (qt_log s))) \<le> length (filter is_stop (test_sent msgs stop n (qt_main s)))"
    by (simp flip: sent)
  show ?thesis
  proof (cases "qt_main s")
    case MWait
    show ?thesis
    proof (cases "0 < qt_latch s")
      case True
      then have "counted (qt_workers s) \<noteq> length (qt_workers s)" using inv by (simp add: test_inv_def)
      then obtain w where w: "w \<in> set (qt_workers s)" "w \<notin> {Getting, Ended}"
        using counted_all [of "qt_workers s"] by blast
      then have "w \<noteq> Unstarted" using place MWait by auto
      then have "w = Started" using w(2) by (cases w) auto
      then obtain k where "k < length (qt_workers s)" "qt_workers s ! k = Started" using w(1) by (auto simp: in_set_conv_nth)
      then have "Test_ThreadFunc tq is_stop k s \<noteq> None"
        by (simp add: Test_ThreadFunc_def call_now_def CountDownLatch_countDown_def)
      then show ?thesis by blast
    qed (simp add: Test_main_def MWait call_now_def CountDownLatch_wait_def)
  next
    case (MPut i)
    have "length (filter is_stop (map snd (qt_log s))) < n" using stops n MPut none by (simp add: test_sent_def)
    then show ?thesis using put_blocks [OF okq, of "msgs ! i"] taker [OF inv] place MPut
      by (cases "tq_put tq (msgs ! i) (qt_queue s)") (auto simp: Test_main_def)
  next
    case (MStop i)
    show ?thesis
    proof (cases "i < n")
      case True
      have "length (filter is_stop (map snd (qt_log s))) \<le> i"
        using stops MStop none [of "length msgs"] stop by (simp add: test_sent_def)
      then show ?thesis using True put_blocks [OF okq, of stop] taker [OF inv] place MStop
        by (cases "tq_put tq stop (qt_queue s)") (auto simp: Test_main_def)
    qed (simp add: Test_main_def MStop len)
  next
    case (MJoin i)
    show ?thesis
    proof (cases "i < n \<and> qt_workers s ! i \<noteq> Ended")
      case True
      have few: "card {k. k < n \<and> qt_workers s ! k = Ended} < n"
      proof -
        have "{k. k < n \<and> qt_workers s ! k = Ended} \<subset> {..<n}" using True by auto
        from psubset_card_mono [OF finite_lessThan this] show ?thesis by simp
      qed
      have "items (qt_queue s) \<noteq> []"
      proof
        assume "items (qt_queue s) = []"
        then have "length (filter is_stop (map snd (qt_log s))) = n"
          using sent MJoin none [of "length msgs"] stop by (simp add: test_sent_def)
        then show False using few ended_stops [OF inv] by simp
      qed
      then show ?thesis using taker [OF inv] place MJoin few ended_stops [OF inv] by simp
    qed (auto simp: Test_main_def MJoin len)
  qed (use going in \<open>auto simp: Test_main_def\<close>)
qed

text \<open>When main is done, every worker has ended and all has been taken.\<close>

lemma done_state:
  assumes inv: "test_inv ok items msgs stop is_stop n s" and plain: "\<forall>x \<in> set msgs. \<not> is_stop x" and stop: "is_stop stop"
    and n: "0 < n" and fin: "qt_main s = MDone"
  shows "map snd (qt_log s) = msgs @ replicate n stop \<and> items (qt_queue s) = [] \<and> qt_latch s = 0
    \<and> qt_workers s = replicate n Ended \<and> (\<forall>k < n. stops_of is_stop k (qt_log s) = 1)"
proof -
  have len: "length (qt_workers s) = n" and all: "\<forall>k < n. qt_workers s ! k = Ended"
    using inv fin by (simp_all add: test_inv_def)
  then have ws: "qt_workers s = replicate n Ended" by (simp add: list_eq_iff_nth_eq)
  have sent: "map snd (qt_log s) @ items (qt_queue s) = msgs @ replicate n stop"
    using inv fin by (simp add: test_inv_def test_sent_def)
  have "{k. k < n \<and> qt_workers s ! k = Ended} = {..<n}" using all by auto
  then have "length (filter is_stop (map snd (qt_log s))) = n" using ended_stops [OF inv] by simp
  moreover have "length (filter is_stop (msgs @ replicate n stop)) = n"
    using plain stop by (simp add: filter_empty_conv [THEN iffD2])
  ultimately have rest: "filter is_stop (items (qt_queue s)) = []"
    by (simp flip: sent)
  have "items (qt_queue s) = []"
  proof (rule ccontr)
    assume ne: "items (qt_queue s) \<noteq> []"
    then have l: "last (items (qt_queue s)) = last (msgs @ replicate n stop)" by (metis last_appendR sent)
    have "last (items (qt_queue s)) = stop" using l n by (simp add: last_append)
    then show False using rest ne stop last_in_set by (metis filter_empty_conv)
  qed
  then show ?thesis using sent ws inv len all
    by (auto simp: test_inv_def counted_def map_replicate_const sum_list_replicate)
qed

lemma start_inv:
  assumes "ok queue" and "items queue = []"
  shows "test_inv ok items msgs stop is_stop n (Test_new queue n)"
  using assms by (simp add: test_inv_def Test_new_def counted_def map_replicate_const sum_list_replicate test_sent_def stops_of_def)

text \<open>The steps that a program of n workers and l messages makes.\<close>

lemma test_correct:
  assumes start: "ok queue" "items queue = []" and plain: "\<forall>x \<in> set msgs. \<not> is_stop x" and stop: "is_stop stop"
    and n: "0 < n" and run: "test_run tq msgs stop is_stop ts (Test_new queue n) = Some s"
  shows "length ts \<le> 5 * n + 2 * length msgs + 5"
    and "map snd (qt_log s) @ items (qt_queue s) = test_sent msgs stop n (qt_main s)"
    and "qt_main s \<noteq> MDone \<Longrightarrow> \<exists>t. test_step tq msgs stop is_stop t s \<noteq> None"
    and "qt_main s = MDone \<Longrightarrow> map snd (qt_log s) = msgs @ replicate n stop \<and> items (qt_queue s) = [] \<and> qt_latch s = 0
      \<and> qt_workers s = replicate n Ended \<and> (\<forall>k < n. stops_of is_stop k (qt_log s) = 1)"
proof -
  have r: "test_inv ok items msgs stop is_stop n s" "length ts + test_rank msgs n s \<le> test_rank msgs n (Test_new queue n)"
    using runs_keep [OF start_inv [OF start] plain run] by simp_all
  have "test_rank msgs n (Test_new queue n :: ('a, 'q) queue_test) = 5 * n + 2 * length msgs + 5"
    by (simp add: test_rank_def Test_new_def map_replicate_const sum_list_replicate)
  then show "length ts \<le> 5 * n + 2 * length msgs + 5" using r(2) by simp
  show "map snd (qt_log s) @ items (qt_queue s) = test_sent msgs stop n (qt_main s)" using r(1) by (simp add: test_inv_def)
  show "\<exists>t. test_step tq msgs stop is_stop t s \<noteq> None" if "qt_main s \<noteq> MDone"
    using test_enabled [OF r(1) plain stop n that] test_step.simps by metis
  show "qt_main s = MDone \<Longrightarrow> map snd (qt_log s) = msgs @ replicate n stop \<and> items (qt_queue s) = [] \<and> qt_latch s = 0
      \<and> qt_workers s = replicate n Ended \<and> (\<forall>k < n. stops_of is_stop k (qt_log s) = 1)"
    using done_state [OF r(1) plain stop n] .
qed

end

section \<open>The queues keep the promise\<close>

interpretation unbounded: message_queue blocking_queue "\<lambda>_. True" "\<lambda>q. q"
  by unfold_locales (auto simp: blocking_queue_def call_now_def BlockingQueue_put_def BlockingQueue_get_def
      BlockingQueue_get_body_def split: list.splits if_splits)

lemma bounded_message_queue:
  assumes laws: "cb_laws cb items"
  shows "message_queue (bounded_queue cb) (\<lambda>q. 0 < cb_capacity cb q) items"
proof
  fix q x q' assume q: "0 < cb_capacity cb q"
  have L: "cb_full cb q \<longleftrightarrow> length (items q) = cb_capacity cb q" "cb_empty cb q \<longleftrightarrow> items q = []"
    "\<not> cb_full cb q \<Longrightarrow> items (cb_push_back cb x q) = items q @ [x] \<and> cb_capacity cb (cb_push_back cb x q) = cb_capacity cb q"
    "\<not> cb_empty cb q \<Longrightarrow> cb_front cb q = hd (items q) \<and> items (cb_pop_front cb q) = tl (items q)
      \<and> cb_capacity cb (cb_pop_front cb q) = cb_capacity cb q"
    using laws unfolding cb_laws_def by blast+
  have put: "tq_put (bounded_queue cb) x q = (if cb_full cb q then None else Some (cb_push_back cb x q))"
    by (simp add: bounded_queue_def call_now_def BoundedBlockingQueue_put_def)
  have get: "tq_get (bounded_queue cb) q = (if cb_empty cb q then None else Some (cb_front cb q, cb_pop_front cb q))"
    by (simp add: bounded_queue_def call_now_def BoundedBlockingQueue_get_def)
  show "0 < cb_capacity cb q' \<and> items q' = items q @ [x]" if "tq_put (bounded_queue cb) x q = Some q'"
    using that q L(3) by (auto simp: put split: if_splits)
  show "items q \<noteq> []" if "tq_put (bounded_queue cb) x q = None"
    using that q L(1) by (auto simp: put split: if_splits)
  show "0 < cb_capacity cb q' \<and> items q = x # items q'" if "tq_get (bounded_queue cb) q = Some (x, q')"
    using that q L(2,4) by (auto simp: get neq_Nil_conv split: if_splits)
  show "items q = []" if "tq_get (bounded_queue cb) q = None"
    using that L(2) by (auto simp: get split: if_splits)
qed

section \<open>The programs\<close>

lemma hello_not_STOP: "\<forall>x \<in> set (unittest_messages n). \<not> x = STOP"
  by (simp add: unittest_messages_def hello_def STOP_def)

lemma unittest_messages_length [simp]: "length (unittest_messages n) = n"
  by (simp add: unittest_messages_def)

text \<open>The unit test of the unbounded queue, and the benchmark, whose stop message is the invalid timestamp.\<close>

lemma BlockingQueue_unittest:
  assumes "0 < n" and "test_run blocking_queue (unittest_messages l) STOP (\<lambda>x. x = STOP) ts (Test_new [] n) = Some s"
  shows "qt_main s \<noteq> MDone \<Longrightarrow> \<exists>t. test_step blocking_queue (unittest_messages l) STOP (\<lambda>x. x = STOP) t s \<noteq> None"
    and "qt_main s = MDone \<Longrightarrow> map snd (qt_log s) = unittest_messages l @ replicate n STOP"
  using unbounded.test_correct(3,4) [OF _ _ hello_not_STOP _ assms] by simp_all

lemma BlockingQueue_bench:
  assumes "0 < n" and "\<forall>t \<in> set stamps. Timestamp_valid t"
    and "test_run blocking_queue stamps Timestamp_invalid (\<lambda>t. \<not> Timestamp_valid t) ts (Test_new [] n) = Some s"
  shows "qt_main s \<noteq> MDone \<Longrightarrow>
      \<exists>t. test_step blocking_queue stamps Timestamp_invalid (\<lambda>t. \<not> Timestamp_valid t) t s \<noteq> None"
    and "qt_main s = MDone \<Longrightarrow> map snd (qt_log s) = stamps @ replicate n Timestamp_invalid"
  using unbounded.test_correct(3,4) [OF _ _ _ _ assms(1,3)] assms(2)
  by (simp_all add: Timestamp_invalid_def Timestamp_default_def Timestamp_valid_def)

text \<open>
  C16. The unit test of the bounded queue, for any positive number of workers and size of the queue: latch, queue
  and threads together. In every interleaving the messages that the workers have taken and those that wait in the
  queue are what main has put so far, in order. While main is not at its end some thread can make a step, and no
  run has more than 5 n + 2 l + 5 steps, so that every run ends; at the end all messages and one stop for
  each worker have been taken, the queue is empty, every worker has ended and been joined.
\<close>

theorem queue_unittest_finishes:
  assumes "cb_laws cb items" and "0 < n" and "0 < room"
    and "test_run (bounded_queue cb) (unittest_messages l) STOP (\<lambda>x. x = STOP) ts (Test_new (cb_new cb room) n) = Some s"
  shows "length ts \<le> 5 * n + 2 * l + 5
    \<and> map snd (qt_log s) @ items (qt_queue s) = test_sent (unittest_messages l) STOP n (qt_main s)
    \<and> (qt_main s \<noteq> MDone \<longrightarrow>
         (\<exists>t. test_step (bounded_queue cb) (unittest_messages l) STOP (\<lambda>x. x = STOP) t s \<noteq> None))
    \<and> (qt_main s = MDone \<longrightarrow> map snd (qt_log s) = unittest_messages l @ replicate n STOP \<and> items (qt_queue s) = []
         \<and> qt_workers s = replicate n Ended \<and> (\<forall>k < n. stops_of (\<lambda>x. x = STOP) k (qt_log s) = 1))"
proof -
  have start: "0 < cb_capacity cb (cb_new cb room)" "items (cb_new cb room) = []"
    using assms(1,3) by (simp_all add: cb_laws_def)
  note t = message_queue.test_correct [OF bounded_message_queue [OF assms(1)] start hello_not_STOP _ assms(2,4)]
  show ?thesis using t(1,2) t(3) t(4) by simp
qed

lemma queue_unittest_finishes_witness:
  "case test_run (bounded_queue list_buffer) (unittest_messages 1) STOP (\<lambda>x. x = STOP)
          [None, None, Some 0, None, None, Some 0, None, None, Some 0, None, None, None]
          (Test_new (cb_new list_buffer 1) 1) of None \<Rightarrow> False
   | Some s \<Rightarrow> map snd (qt_log s) = [''hello 0'', ''STOP''] \<and> qt_workers s = [Ended]"
proof -
  let ?ts = "[None, None, Some 0, None, None, Some 0, None, None, Some 0, None, None, None]"
  let ?run = "test_run (bounded_queue list_buffer) (unittest_messages 1) STOP (\<lambda>x. x = STOP) ?ts
      (Test_new (cb_new list_buffer 1) 1)"
  have "case ?run of None \<Rightarrow> False | Some s \<Rightarrow> qt_main s = MDone" by code_simp
  moreover have "unittest_messages 1 @ replicate 1 STOP = [''hello 0'', ''STOP'']" by code_simp
  ultimately show ?thesis
    using queue_unittest_finishes [OF list_buffer_laws, of 1 1 1 ?ts] by (auto split: option.splits)
qed

end
