(* ===== verification/UnitTests.thy ===== *)
theory UnitTests
  imports Date Atomic LogStream
begin

text \<open>
  The sequential test programs of base/tests: Date\_unittest, Atomic\_unittest and LogStream\_test, with their
  assertions in the place where the programs have them. A BOOST\_CHECK goes on after a failure, so that
  the result of a test case is the list of its checks; what is only printed is left out.
\<close>

section \<open>Date\_unittest\<close>

text \<open>The loop \<open>for (i = first; ...; ++i)\<close> with n rounds.\<close>

primrec for_loop :: "(int \<Rightarrow> 's \<Rightarrow> 's result) \<Rightarrow> nat \<Rightarrow> int \<Rightarrow> 's \<Rightarrow> 's result" where
  "for_loop f 0 i s = Inr s"
| "for_loop f (Suc n) i s = bindE (f i s) (for_loop f n (i + 1))"

lemma for_loop_rule:
  assumes "\<And>k s. k < n \<Longrightarrow> P (i + int k) s \<Longrightarrow> \<exists>s'. f (i + int k) s = Inr s' \<and> P (i + int k + 1) s'" and "P i s"
  shows "\<exists>s'. for_loop f n i s = Inr s' \<and> P (i + int n) s'"
  using assms
proof (induction n arbitrary: i s)
  case (Suc n)
  obtain s1 where s1: "f i s = Inr s1" "P (i + 1) s1" using Suc.prems(1) [of 0 s] Suc.prems(2) by auto
  have "\<exists>s'. for_loop f n (i + 1) s1 = Inr s' \<and> P (i + 1 + int n) s'"
  proof (rule Suc.IH)
    show "\<exists>s'. f (i + 1 + int k) t = Inr s' \<and> P (i + 1 + int k + 1) s'" if "k < n" "P (i + 1 + int k) t" for k t
      using Suc.prems(1) [of "Suc k" t] that by (simp add: add.assoc)
  qed (rule s1(2))
  then show ?case using s1 by (simp add: algebra_simps)
qed simp

text \<open>The two dates of a round, checked in the order of the assertions; the state is julianDayNumber and weekDay.\<close>

definition check_date :: "int \<Rightarrow> int \<Rightarrow> int \<Rightarrow> int \<times> int \<Rightarrow> date \<Rightarrow> unit result" where
  "check_date year month day st d =
     bindE (Date_year d) (\<lambda>y. assert_then (year = y)
     (bindE (Date_month d) (\<lambda>m. assert_then (month = m)
     (bindE (Date_day d) (\<lambda>dd. assert_then (day = dd)
     (bindE (Date_weekDay d) (\<lambda>w. assert_then (snd st = w)
     (assert_then (fst st = Date_julianDayNumber d) (Inr ())))))))))"

definition check_day :: "int \<Rightarrow> int \<Rightarrow> int \<Rightarrow> int \<times> int \<Rightarrow> (int \<times> int) result" where
  "check_day year month day st =
     bindE (Date_ymd year month day) (\<lambda>d.
     bindE (check_date year month day st d) (\<lambda>_.
     bindE (check_date year month day st (Date (fst st))) (\<lambda>_.
     checked32 [fst st + 1, snd st + 1] (fst st + 1, (snd st + 1) smod 7))))"

definition check_leap :: "int \<Rightarrow> unit result" where
  "check_leap year =
     bindE (Date_ymd year 3 1) (\<lambda>a. bindE (Date_ymd year 2 29) (\<lambda>b.
       assert_then (Date_julianDayNumber a - Date_julianDayNumber b = (if isLeapYear year then 1 else 0)) (Inr ())))"

definition check_year :: "int \<Rightarrow> int \<times> int \<Rightarrow> (int \<times> int) result" where
  "check_year year st =
     bindE (check_leap year) (\<lambda>_.
       for_loop (\<lambda>month. for_loop (check_day year month) (nat (daysOfMonth year month)) 1) 12 1 st)"

definition Date_unittest :: "(int \<times> int) result" where
  "Date_unittest = for_loop check_year (nat (2500 - 1900)) 1900 (2415021, 1)"

text \<open>The state belongs to a date.\<close>

definition on_date :: "YearMonthDay \<Rightarrow> int \<times> int \<Rightarrow> bool" where
  "on_date x st \<longleftrightarrow> getJulianDayNum (ymd_year x) (ymd_month x) (ymd_day x) = Inr (fst st) \<and> snd st = (fst st + 1) mod 7"

lemma next_number:
  assumes "civil x" and "0 \<le> ymd_year x" and "ymd_year x \<le> 9999"
  shows "\<exists>j. getJulianDayNum (ymd_year x) (ymd_month x) (ymd_day x) = Inr j \<and> getYearMonthDay j = Inr x
    \<and> getJulianDayNum (ymd_year (next_day x)) (ymd_month (next_day x)) (ymd_day (next_day x)) = Inr (j + 1)
    \<and> 0 \<le> j \<and> j < 536838867"
proof -
  obtain y m k where v: "march_valid y m k" and x: "x = from_march y m k"
      and le: "march_days y + month_days m + k \<le> max_days"
    by (rule civil_march [OF assms(1)])
  obtain y' m' k' where v': "march_valid y' m' k'" and n: "next_day x = from_march y' m' k'"
      and a': "march_days y' + month_days m' + k' = march_days y + month_days m + k + 1"
    using next_day_march [OF v] x by metis
  have m: "0 \<le> m" "m \<le> 11" and y: "0 \<le> y" and k: "0 \<le> k" "k < daysOfMonth (cal_year y m) (cal_month m)"
    using v by (simp_all add: march_valid_def)
  have "y \<le> 14799" and y1: "4799 \<le> y" using assms(2,3) x m by (auto simp: from_march_def cal_year_def)
  moreover have "march_days y \<le> 365 * y + y div 4 + y div 400"
    using y by (simp add: march_days_def pos_imp_zdiv_nonneg_iff)
  moreover have "y div 4 \<le> 3699" "y div 400 \<le> 36" using \<open>y \<le> 14799\<close> by simp_all
  moreover have "month_days m + k \<le> 365" by (rule month_of_day(2) [OF m k])
  ultimately have small: "march_days y + month_days m + k < max_days - 1" by (simp add: max_days_def)
  moreover have "32044 \<le> march_days y + month_days m + k"
    using march_days_lower [OF y] y1 m k by (simp add: month_days_def)
  ultimately show ?thesis
    using march_forward [OF v refl le] march_forward(1) [OF v' a' [symmetric]] x n
    by (intro exI [of _ "march_days y + month_days m + k - 32044"]) (simp add: max_days_def algebra_simps)
qed

lemma check_date_ok:
  assumes "getYearMonthDay j = Inr \<lparr>ymd_year = year, ymd_month = month, ymd_day = day\<rparr>" and "0 \<le> j" "j < 536838867"
  shows "check_date year month day (j, (j + 1) mod 7) (Date j) = Inr ()"
  using assms by (simp add: check_date_def Date_year_def Date_month_def Date_day_def Date_toYearMonthDay_def
      Date_weekDay_def Date_julianDayNumber_def NumDaysPerWeek_def smod_nonneg checked32_def in_int32_def)

lemma check_day_ok:
  assumes x: "civil \<lparr>ymd_year = year, ymd_month = month, ymd_day = day\<rparr>" and range: "0 \<le> year" "year \<le> 9999"
    and on: "on_date \<lparr>ymd_year = year, ymd_month = month, ymd_day = day\<rparr> st"
  shows "\<exists>st'. check_day year month day st = Inr st'
    \<and> on_date (next_day \<lparr>ymd_year = year, ymd_month = month, ymd_day = day\<rparr>) st'"
proof -
  obtain j where j: "getJulianDayNum year month day = Inr j"
      "getYearMonthDay j = Inr \<lparr>ymd_year = year, ymd_month = month, ymd_day = day\<rparr>" "0 \<le> j" "j < 536838867"
    and n: "on_date (next_day \<lparr>ymd_year = year, ymd_month = month, ymd_day = day\<rparr>) (j + 1, (j + 1 + 1) mod 7)"
    using next_number [OF x] range by (auto simp: on_date_def)
  have st: "st = (j, (j + 1) mod 7)" using on j(1) by (cases st) (simp add: on_date_def)
  have "0 \<le> (j + 1) mod 7" "(j + 1) mod 7 < 7" by simp_all
  then have "check_day year month day st = Inr (j + 1, ((j + 1) mod 7 + 1) mod 7)"
    using j check_date_ok [OF j(2-4)]
    by (simp add: check_day_def st Date_ymd_def checked32_def in_int32_def smod_nonneg)
  then show ?thesis using n by (simp add: mod_add_left_eq)
qed

text \<open>A day past the end of its month, and a month past the end of its year, stand for the first of the next.\<close>

definition day_at :: "int \<Rightarrow> int \<Rightarrow> int \<Rightarrow> YearMonthDay" where
  "day_at year month day =
     (if day \<le> daysOfMonth year month then \<lparr>ymd_year = year, ymd_month = month, ymd_day = day\<rparr>
      else if month < 12 then \<lparr>ymd_year = year, ymd_month = month + 1, ymd_day = 1\<rparr>
      else \<lparr>ymd_year = year + 1, ymd_month = 1, ymd_day = 1\<rparr>)"

lemma days_positive: "0 < daysOfMonth year month"
  by (simp add: daysOfMonth_def)

lemma days_ok:
  assumes "1 \<le> month" "month \<le> 12" "0 \<le> year" "year \<le> 9999" and "on_date (day_at year month 1) st"
  shows "\<exists>st'. for_loop (check_day year month) (nat (daysOfMonth year month)) 1 st = Inr st'
    \<and> on_date (day_at year month (daysOfMonth year month + 1)) st'"
proof -
  have "\<exists>st'. check_day year month (1 + int k) t = Inr st' \<and> on_date (day_at year month (1 + int k + 1)) st'"
    if k: "k < nat (daysOfMonth year month)" and t: "on_date (day_at year month (1 + int k)) t" for k t
  proof -
    let ?x = "\<lparr>ymd_year = year, ymd_month = month, ymd_day = 1 + int k\<rparr>"
    have le: "1 + int k \<le> daysOfMonth year month" using k by simp
    then have "day_at year month (1 + int k) = ?x" by (simp add: day_at_def)
    moreover have "next_day ?x = day_at year month (1 + int k + 1)"
      using le by (auto simp: next_day_def day_at_def)
    moreover have "civil ?x" using assms le by (simp add: civil_def valid_ymd_def)
    ultimately show ?thesis using check_day_ok [of year month "1 + int k" t] assms(3,4) t by simp
  qed
  from for_loop_rule [of "nat (daysOfMonth year month)" "\<lambda>d. on_date (day_at year month d)", OF this assms(5)]
  show ?thesis using days_positive [of year month] by (simp add: add.commute)
qed

lemma day_before_march:
  assumes "0 \<le> year" "year \<le> 9999"
  shows "getJulianDayNum year 2 29 = Inr (march_days (year + 4799) + 365 - 32044)"
proof -
  define y where "y = year + 4799"
  have y: "0 \<le> y" "y \<le> 14798" "year = y - 4799" using assms by (simp_all add: y_def)
  have sd: "y sdiv 4 = y div 4" "y sdiv 100 = y div 100" "y sdiv 400 = y div 400" using y by (simp_all add: sdiv_nonneg)
  define q1 q2 q3 where "q1 = y div 4" and "q2 = y div 100" and "q3 = y div 400"
  have q: "0 \<le> q1" "q1 \<le> 3699" "0 \<le> q2" "q2 \<le> 147" "0 \<le> q3" "q3 \<le> 36"
    using y by (simp_all add: q1_def q2_def q3_def)
  have c: "(14 - 2) sdiv 12 = (1 :: int)" "y - 4799 + 4800 - 1 = y" "2 + 12 * 1 - 3 = (11 :: int)"
      "(153 * 11 + 2) sdiv 5 = (337 :: int)" by (simp_all add: sdiv_nonneg)
  show ?thesis
    unfolding getJulianDayNum_def Let_def y_def [symmetric] y(3) c sd march_days_def checked32_eq_Inr
      q1_def [symmetric] q2_def [symmetric] q3_def [symmetric]
    using q y by (auto simp: in_int32_def march_days_def q1_def q2_def q3_def)
qed

lemma leap_ok:
  assumes "0 \<le> year" "year \<le> 9999"
  shows "check_leap year = Inr ()"
proof -
  have "march_valid (year + 4800) 0 0" using assms by (simp add: march_valid_def daysOfMonth_def)
  from getJulianDayNum_from_march [OF this] assms
  have "getJulianDayNum year 3 1 = Inr (march_days (year + 4800) - 32044)"
    by (simp add: cal_year_def cal_month_def month_days_def)
  moreover have "march_days (year + 4800) = march_days (year + 4799) + (if isLeapYear year then 366 else 365)"
    using march_days_Suc [of "year + 4799"] isLeapYear_shift [of "year + 4800"] assms by (simp add: add.commute)
  ultimately show ?thesis using day_before_march [OF assms]
    by (simp add: check_leap_def Date_ymd_def Date_julianDayNumber_def)
qed

lemma year_ok:
  assumes "0 \<le> year" "year \<le> 9999" and "on_date \<lparr>ymd_year = year, ymd_month = 1, ymd_day = 1\<rparr> st"
  shows "\<exists>st'. check_year year st = Inr st' \<and> on_date \<lparr>ymd_year = year + 1, ymd_month = 1, ymd_day = 1\<rparr> st'"
proof -
  have first: "day_at year month 1 = \<lparr>ymd_year = year, ymd_month = month, ymd_day = 1\<rparr>" for month
    using days_positive [of year month] by (simp add: day_at_def)
  let ?P = "\<lambda>month. on_date (if month \<le> 12 then day_at year month 1 else \<lparr>ymd_year = year + 1, ymd_month = 1, ymd_day = 1\<rparr>)"
  have "\<exists>st'. for_loop (check_day year (1 + int k)) (nat (daysOfMonth year (1 + int k))) 1 t = Inr st' \<and> ?P (1 + int k + 1) st'"
    if "k < 12" "?P (1 + int k) t" for k t
  proof -
    have "on_date (day_at year (1 + int k) 1) t" using that by simp
    from days_ok [OF _ _ assms(1,2) this] that(1) obtain st' where
      "for_loop (check_day year (1 + int k)) (nat (daysOfMonth year (1 + int k))) 1 t = Inr st'"
      "on_date (day_at year (1 + int k) (daysOfMonth year (1 + int k) + 1)) st'" by auto
    then show ?thesis using that(1) by (auto simp: first) (auto simp: day_at_def split: if_splits)
  qed
  from for_loop_rule [of 12 ?P, OF this] assms(3) first leap_ok [OF assms(1,2)]
  show ?thesis by (fastforce simp: check_year_def)
qed

lemma years_ok: "\<exists>st. Date_unittest = Inr st \<and> on_date \<lparr>ymd_year = 2500, ymd_month = 1, ymd_day = 1\<rparr> st"
proof -
  have start: "on_date \<lparr>ymd_year = 1900, ymd_month = 1, ymd_day = 1\<rparr> (2415021, 1)" by code_simp
  have "\<exists>st'. for_loop check_year (nat (2500 - 1900)) 1900 (2415021, 1) = Inr st'
      \<and> on_date \<lparr>ymd_year = 1900 + int (nat (2500 - 1900)), ymd_month = 1, ymd_day = 1\<rparr> st'"
  proof (rule for_loop_rule [where P = "\<lambda>year. on_date \<lparr>ymd_year = year, ymd_month = 1, ymd_day = 1\<rparr>"])
    show "\<exists>s'. check_year (1900 + int k) s = Inr s' \<and> on_date \<lparr>ymd_year = 1900 + int k + 1, ymd_month = 1, ymd_day = 1\<rparr> s'"
      if "k < nat (2500 - 1900)" "on_date \<lparr>ymd_year = 1900 + int k, ymd_month = 1, ymd_day = 1\<rparr> s" for k s
      using year_ok [OF _ _ that(2)] that(1) by simp
  qed (rule start)
  then show ?thesis by (simp add: Date_unittest_def)
qed

section \<open>Atomic\_unittest\<close>

definition Atomic_unittest_32 :: "bool list" where
  "Atomic_unittest_32 =
     (let a = (AtomicIntegerT_default :: 32 word);
          (r1, a) = AtomicIntegerT_get a;
          (r2, a) = AtomicIntegerT_getAndSet 1 a;
          (r3, a) = AtomicIntegerT_addAndGet 1 a;
          (r4, a) = AtomicIntegerT_getAndAdd 1 a;
          (r5, a) = AtomicIntegerT_get a;
          a = AtomicIntegerT_inc a;
          (r6, a) = AtomicIntegerT_get a;
          (r7, a) = AtomicIntegerT_incAndGet a;
          (r8, a) = AtomicIntegerT_subAndGet 5 a;
          (r9, a) = AtomicIntegerT_decAndGet a;
          a = AtomicIntegerT_dec a;
          (r10, a) = AtomicIntegerT_addAndGet (- 1) a;
          (r11, a) = AtomicIntegerT_subAndGet (- 3) a in
      [r1 = 0, r2 = 0, r3 = 2, r4 = 2, r5 = 3, r6 = 4, r7 = 5, r8 = 0, r9 = - 1, r10 = - 3, r11 = 0])"

definition Atomic_unittest_64 :: "bool list" where
  "Atomic_unittest_64 =
     (let a = (AtomicIntegerT_default :: 64 word);
          (r1, a) = AtomicIntegerT_get a;
          (r2, a) = AtomicIntegerT_subAndGet (- 3) a;
          (r3, a) = AtomicIntegerT_addAndGet (- 1) a;
          a = AtomicIntegerT_dec a;
          (r4, a) = AtomicIntegerT_decAndGet a;
          (r5, a) = AtomicIntegerT_subAndGet 5 a;
          (r6, a) = AtomicIntegerT_incAndGet a;
          (r7, a) = AtomicIntegerT_get a;
          a = AtomicIntegerT_inc a;
          (r8, a) = AtomicIntegerT_getAndSet 5 a;
          (r9, a) = AtomicIntegerT_get a in
      [r1 = 0, r2 = 3, r3 = 2, r4 = 0, r5 = - 5, r6 = - 4, r7 = - 4, r8 = - 3, r9 = 5])"

lemma Atomic_unittest_passes: "list_all id (Atomic_unittest_32 @ Atomic_unittest_64)"
  by code_simp

section \<open>LogStream\_test\<close>

text \<open>The memory of an object is whatever it is made in.\<close>

definition testFixedBuffer :: "string \<Rightarrow> bool list" where
  "testFixedBuffer mem =
     (let data = ''123456'';
          b = FixedBuffer_new mem;
          c1 = (FixedBuffer_asString b = []);
          (ret, b) = FixedBuffer_append data b;
          c2 = (ret = length data);
          c3 = (FixedBuffer_asString b = data);
          (ret, b) = FixedBuffer_append data b;
          c4 = (ret = 0);
          c5 = (FixedBuffer_asString b = data);
          (ret, b) = FixedBuffer_appendPartial data b;
          c6 = (ret = 4);
          (ret, b) = FixedBuffer_appendPartial data b;
          c7 = (ret = 0);
          c8 = (FixedBuffer_length b = 10) in
      [c1, c2, c3, c4, c5, c6, c7, c8])"

text \<open>A sequence of statements, each followed by a check of the text in the stream.\<close>

primrec run_checks :: "(log_item list \<times> (string \<Rightarrow> bool)) list \<Rightarrow> log_stream \<Rightarrow> (bool list \<times> log_stream) result" where
  "run_checks [] os = Inr ([], os)"
| "run_checks (c # cs) os =
     bindE (stream_puts (fst c) os) (\<lambda>os.
     bindE (run_checks cs os) (\<lambda>(bs, os'). Inr (snd c (FixedBuffer_asString os) # bs, os')))"

definition testLogStreamBooleans :: "string \<Rightarrow> bool list result" where
  "testLogStreamBooleans mem =
     bindE (run_checks [([], \<lambda>t. t = []), ([Bool True], \<lambda>t. t = ''1''), ([Bool False], \<lambda>t. t = ''10''),
         ([Chr CHR 0x0A], \<lambda>t. t = ''10'' @ [CHR 0x0A]), ([Bool True], \<lambda>t. t = ''10'' @ [CHR 0x0A] @ ''1'')] (FixedBuffer_new mem))
       (\<lambda>(bs, os). Inr bs)"

text \<open>The last check of this case is marked in the source as an error test: it compares 1 with 2.\<close>

definition testLogStreamInteger :: "string \<Rightarrow> bool list result" where
  "testLogStreamInteger mem =
     bindE (run_checks [([SInt 123], \<lambda>t. t = ''123''), ([Chr CHR '' '', Dbl ''123.45''], \<lambda>t. t = ''123 123.45''),
         ([Dbl ''-10.2''], \<lambda>t. t = ''123 123.45-10.2'')] (FixedBuffer_new mem)) (\<lambda>(bs, os).
     bindE (run_checks [([SInt 10, CStr ''-'', SInt (- 20)], \<lambda>t. t = ''10--20'')] (LogStream_resetBuffer os)) (\<lambda>(bs', os).
     Inr (bs @ bs' @ [(1 :: int) = 2])))"

text \<open>atoll, on a 64-bit range, reads as atoi does.\<close>

definition testLogStreamIntegerLimit :: "string \<Rightarrow> bool list result" where
  "testLogStreamIntegerLimit mem =
     bindE (run_checks [([SInt 2147483647], \<lambda>t. atoi (c_string t) = 2147483647)] (FixedBuffer_new mem)) (\<lambda>(bs, os).
     bindE (run_checks [([SInt (- 2147483648)], \<lambda>t. atoi (c_string t) = - 2147483648)] (LogStream_resetBuffer os)) (\<lambda>(bs', os).
     bindE (run_checks [([LLong 9223372036854775807], \<lambda>t. atoi (c_string t) = 9223372036854775807)] (LogStream_resetBuffer os))
       (\<lambda>(bs'', os). Inr (bs @ bs' @ bs''))))"

definition testLogStreamPtr :: "string \<Rightarrow> bool list result" where
  "testLogStreamPtr mem =
     bindE (run_checks [([Ptr 0], \<lambda>t. t = ''0x0'')] (FixedBuffer_new mem)) (\<lambda>(bs, os). Inr bs)"

text \<open>With enough room every check sees the texts of the statements so far.\<close>

definition stream_has :: "nat \<Rightarrow> string \<Rightarrow> log_stream \<Rightarrow> bool" where
  "stream_has n t os \<longleftrightarrow> fb_inv os \<and> length (m_buff os) = n \<and> FixedBuffer_asString os = t"

primrec checks_of :: "string \<Rightarrow> (log_item list \<times> (string \<Rightarrow> bool)) list \<Rightarrow> bool list" where
  "checks_of t [] = []"
| "checks_of t (c # cs) =
     (let t' = t @ concat (map item_text (fst c)) in snd c t' # checks_of t' cs)"

definition room_for :: "log_item list \<Rightarrow> nat" where
  "room_for its = sum_list (map (\<lambda>i. length (item_text i) + kMaxNumericSize) its)"

lemma stream_text_all:
  "room_for its \<le> room \<Longrightarrow> stream_text its room = concat (map item_text its)"
proof (induction its arbitrary: room)
  case (Cons i its)
  have "item_room i \<le> length (item_text i) + kMaxNumericSize" by (simp add: item_room_def)
  then have "item_room i \<le> room" "room_for its \<le> room - length (item_text i)" using Cons.prems by (simp_all add: room_for_def)
  then show ?case using Cons.IH by simp
qed simp

lemma room_for_text: "length (concat (map item_text its)) \<le> room_for its"
  unfolding room_for_def by (induction its) auto

lemma run_checks_eq:
  "stream_has n t os \<Longrightarrow> list_all (\<lambda>c. list_all item_ok (fst c)) cs \<Longrightarrow>
    length t + sum_list (map (\<lambda>c. room_for (fst c)) cs) \<le> n \<Longrightarrow>
    \<exists>os' t'. run_checks cs os = Inr (checks_of t cs, os') \<and> stream_has n t' os'"
proof (induction cs arbitrary: t os)
  case (Cons c cs)
  let ?its = "fst c" and ?t = "t @ concat (map item_text (fst c))"
  have os: "fb_inv os" "length (m_buff os) = n" "FixedBuffer_asString os = t" using Cons.prems(1) by (simp_all add: stream_has_def)
  have cur: "m_cur os = length t" using asString_length [OF os(1)] os(3) by simp
  have ok: "list_all item_ok ?its" and room: "room_for ?its \<le> n - m_cur os" using Cons.prems(2,3) cur by simp_all
  obtain os1 where os1: "stream_puts ?its os = Inr os1" "stream_has n ?t os1"
    using stream_puts_spec [OF os(1) ok] stream_text_all [OF room] os by (auto simp: stream_has_def)
  have "length ?t + sum_list (map (\<lambda>c. room_for (fst c)) cs) \<le> n"
    using Cons.prems(3) room_for_text [of ?its] by simp
  from Cons.IH [OF os1(2) _ this] Cons.prems(2) obtain os' t' where
    "run_checks cs os1 = Inr (checks_of ?t cs, os')" "stream_has n t' os'" by auto
  then show ?case using os1 by (auto simp: stream_has_def Let_def)
qed auto

lemma run_checks_then:
  assumes "stream_has n t os" and "list_all (\<lambda>c. list_all item_ok (fst c)) cs"
    and "length t + sum_list (map (\<lambda>c. room_for (fst c)) cs) \<le> n"
    and "\<And>os' t'. stream_has n t' os' \<Longrightarrow> f (checks_of t cs, os') = r"
  shows "bindE (run_checks cs os) f = r"
  using run_checks_eq [OF assms(1-3)] assms(4) by auto

lemma fresh_stream:
  "length mem = kSmallBuffer \<Longrightarrow> stream_has kSmallBuffer [] (FixedBuffer_new mem)"
  "stream_has n t os \<Longrightarrow> stream_has n [] (LogStream_resetBuffer os)"
  by (auto simp: stream_has_def FixedBuffer_new_def FixedBuffer_setCookie_def fb_inv_def FixedBuffer_asString_def
      LogStream_resetBuffer_def FixedBuffer_reset_def kSmallBuffer_def size_mod_def)

lemma dec_char_class: "d < 10 \<Longrightarrow> is_digit (dec_char d) \<and> \<not> is_space (dec_char d) \<and> dec_char d \<noteq> CHR ''+'' \<and> dec_char d \<noteq> CHR 0x00"
  by (drule less_10_cases) (auto simp: dec_char_def is_digit_def is_space_def)

text \<open>atoi reads what the converter writes.\<close>

lemma atoi_convert_chars: "atoi (c_string (convert_chars v)) = v"
proof -
  define ds where "ds = rev (convert_loop (int (nat \<bar>v\<bar>)))"
  have val: "int (digits_value ds) = \<bar>v\<bar>"
    using dec.loop_value [of "nat \<bar>v\<bar>"] by (simp add: ds_def digits_value_def foldl_conv_foldr)
  have chars: "convert_chars v = (if v < 0 then CHR ''-'' # ds else ds)"
    unfolding convert_chars_def convert_loop_abs [of v] by (simp add: ds_def)
  have dig: "\<exists>d < 10. c = dec_char d" if "c \<in> set ds" for c
    using dec.loop_digits [of c "nat \<bar>v\<bar>"] that by (simp add: ds_def)
  then have set: "\<forall>c \<in> set ds. is_digit c \<and> \<not> is_space c \<and> c \<noteq> CHR ''+'' \<and> c \<noteq> CHR ''-'' \<and> c \<noteq> CHR 0x00"
    using dec_char_class dec_char_not_minus by metis
  then have take: "c_string ds = ds" by (auto simp: takeWhile_eq_all_conv c_string_def)
  have sub: "c_string (c # cs) = (if c = CHR 0x00 then [] else c # c_string cs)" for c cs by (simp add: c_string_def)
  have digits: "takeWhile is_digit ds = ds" using set by (simp add: takeWhile_eq_all_conv)
  obtain c cs where cs: "ds = c # cs" using convert_loop_nonempty [of "int (nat \<bar>v\<bar>)"] by (cases ds) (simp_all add: ds_def)
  show ?thesis
  proof (cases "v < 0")
    case True
    then show ?thesis using val by (simp add: chars atoi_def sub take digits is_space_def del: takeWhile_eq_all_conv)
  next
    case False
    have "dropWhile is_space ds = ds" using set cs by simp
    then show ?thesis using False val set cs digits take by (simp add: chars atoi_def del: takeWhile_eq_all_conv)
  qed
qed
lemma numerals:
  "convert_chars 123 = ''123''" "convert_chars 10 = ''10''" "convert_chars (- 20) = ''-20''"
  "convertHex_chars 0 = ''0''" "convert_chars 2147483647 = ''2147483647''"
  "convert_chars (- 2147483648) = ''-2147483648''" "convert_chars 9223372036854775807 = ''9223372036854775807''"
  by code_simp+

lemma atoi_numerals:
  "atoi (c_string ''2147483647'') = 2147483647" "atoi (c_string ''-2147483648'') = - 2147483648"
  "atoi (c_string ''9223372036854775807'') = 9223372036854775807"
  unfolding numerals [symmetric] by (rule atoi_convert_chars)+

lemma sint_numerals:
  "sint (123 :: 32 word) = 123" "sint (10 :: 32 word) = 10" "sint (- 20 :: 32 word) = - 20"
  "sint (2147483647 :: 32 word) = 2147483647" "sint (- 2147483648 :: 32 word) = - 2147483648"
  "sint (9223372036854775807 :: 64 word) = 9223372036854775807"
  by code_simp+

lemmas stream_sizes = room_for_def kMaxNumericSize_def kSmallBuffer_def

lemma booleans_pass: "length mem = kSmallBuffer \<Longrightarrow> testLogStreamBooleans mem = Inr [True, True, True, True, True]"
  unfolding testLogStreamBooleans_def
  by (rule run_checks_then [OF fresh_stream(1)], assumption) (simp_all add: stream_sizes)

lemma pointer_passes: "length mem = kSmallBuffer \<Longrightarrow> testLogStreamPtr mem = Inr [True]"
  unfolding testLogStreamPtr_def
  by (rule run_checks_then [OF fresh_stream(1)], assumption) (simp_all add: stream_sizes numerals)

lemma integer_passes: "length mem = kSmallBuffer \<Longrightarrow> testLogStreamInteger mem = Inr [True, True, True, True, False]"
  unfolding testLogStreamInteger_def
  apply (rule run_checks_then [OF fresh_stream(1)], assumption)
    apply (simp_all add: stream_sizes numerals sint_numerals del: run_checks.simps)
  apply (rule run_checks_then [OF fresh_stream(2)], assumption)
    apply (simp_all add: stream_sizes numerals sint_numerals c_string_def)
  done

lemma limits_pass: "length mem = kSmallBuffer \<Longrightarrow> testLogStreamIntegerLimit mem = Inr [True, True, True]"
  unfolding testLogStreamIntegerLimit_def
  apply (rule run_checks_then [OF fresh_stream(1)], assumption)
    apply (simp_all add: stream_sizes numerals sint_numerals atoi_numerals del: run_checks.simps)
  apply (rule run_checks_then [OF fresh_stream(2)], assumption)
    apply (simp_all add: stream_sizes numerals sint_numerals atoi_numerals del: run_checks.simps)
  apply (rule run_checks_then [OF fresh_stream(2)], assumption)
    apply (simp_all add: stream_sizes numerals sint_numerals atoi_numerals)
  done

lemma fixed_buffer_passes:
  assumes "length mem = 10"
  shows "list_all id (testFixedBuffer mem)"
proof -
  have "10 < size_mod" by (simp add: size_mod_def)
  then show ?thesis using assms
    by (simp add: testFixedBuffer_def FixedBuffer_new_def FixedBuffer_setCookie_def FixedBuffer_asString_def
        FixedBuffer_append_def FixedBuffer_appendPartial_def FixedBuffer_avail_def FixedBuffer_length_def
        size_sub_exact overwrite_def Let_def)
qed

text \<open>
  C24. The sequential unit tests pass on the model: for every day from 1900-01-01 to 2499-12-31 the constructors,
  the accessors and the day of the week of Date agree with the calendar of the test, and the loop ends at day
  number 2634167, a Friday; all assertions about the atomic integers hold; and the checks of LogStream's
  test cases hold whatever memory the objects are made in, but the last one of testLogStreamInteger,
  which is marked as an error test and compares 1 with 2.
\<close>

theorem unit_tests_pass:
  "Date_unittest = Inr (2634167, 5)
   \<and> list_all id (Atomic_unittest_32 @ Atomic_unittest_64)
   \<and> (length mem = 10 \<longrightarrow> list_all id (testFixedBuffer mem))
   \<and> (length mem = kSmallBuffer \<longrightarrow> testLogStreamBooleans mem = Inr (replicate 5 True)
        \<and> testLogStreamInteger mem = Inr [True, True, True, True, False]
        \<and> testLogStreamIntegerLimit mem = Inr (replicate 3 True) \<and> testLogStreamPtr mem = Inr [True])"
proof -
  have "getJulianDayNum 2500 1 1 = Inr 2634167" by code_simp
  then have "Date_unittest = Inr (2634167, 5)" using years_ok by (auto simp: on_date_def)
  then show ?thesis using Atomic_unittest_passes fixed_buffer_passes booleans_pass integer_passes limits_pass pointer_passes
    by (simp add: numeral_eq_Suc)
qed

lemma unit_tests_pass_witness:
  "list_all id (testFixedBuffer (replicate 10 (CHR ''x'')))
   \<and> testLogStreamPtr (replicate kSmallBuffer (CHR ''x'')) = Inr [True]"
  using unit_tests_pass [of "replicate 10 (CHR ''x'')"] unit_tests_pass [of "replicate kSmallBuffer (CHR ''x'')"] by simp

end
