(* ===== verification/LogFileTest.thy ===== *)
theory LogFileTest
  imports Logging LogFile
begin

text \<open>
  base/tests/LogFile\_test.cc: a program that logs through the macro LOG\_INFO into a LogFile with a mutex, by
  an output function that calls append. Level, logger, stream, mutex, file and rolling work together here without
  AsyncLogging between them.
\<close>

section \<open>The program\<close>

text \<open>The two functions that main passes to the logger; the default ones write to the standard output.\<close>

definition outputFunc :: "log_env \<Rightarrow> tid \<Rightarrow> int \<Rightarrow> int \<Rightarrow> string \<Rightarrow> log_file \<Rightarrow> log_file result" where
  "outputFunc env tid time1 time2 logline lf = LogFile_append env tid time1 time2 logline lf"

definition flushFunc :: "tid \<Rightarrow> log_file \<Rightarrow> log_file result" where
  "flushFunc tid lf = LogFile_flush tid lf"

fun perform :: "log_env \<Rightarrow> tid \<Rightarrow> int \<Rightarrow> int \<Rightarrow> log_call list \<Rightarrow> log_file \<Rightarrow> log_file result" where
  "perform env tid time1 time2 [] lf = Inr lf"
| "perform env tid time1 time2 (Output f logline # calls) lf =
     bindE (if f = UserOutput 0 then outputFunc env tid time1 time2 logline lf else Inr lf)
       (perform env tid time1 time2 calls)"
| "perform env tid time1 time2 (Flush f # calls) lf =
     bindE (if f = UserFlush 0 then flushFunc tid lf else Inr lf) (perform env tid time1 time2 calls)"

text \<open>What a round of the loop gets from outside: the clocks, and the memory of the stream.\<close>

record test_round =
  tr_now :: "int \<times> int"
  tr_mem :: string
  tr_time1 :: int
  tr_time2 :: int

text \<open>The process: the system under the logger and the log file, the source file and the line of the statement.\<close>

record test_process =
  tp_sys :: log_system
  tp_env :: log_env
  tp_tid :: tid
  tp_path :: string
  tp_line :: "32 word"

primrec LogFile_test_loop ::
  "test_process \<Rightarrow> log_globals \<Rightarrow> string \<Rightarrow> test_round list \<Rightarrow> 32 word \<Rightarrow> log_locals \<times> log_file
     \<Rightarrow> (log_locals \<times> log_file) result" where
  "LogFile_test_loop tp g line [] i st = Inr st"
| "LogFile_test_loop tp g line (r # rs) i st =
     bindE (LOG_INFO (tp_sys tp) g (tr_now r) (tr_mem r) (tp_path tp) (tp_line tp) [Str line, SInt i] (fst st))
       (\<lambda>(calls, lo).
     bindE (perform (tp_env tp) (tp_tid tp) (tr_time1 r) (tr_time2 r) calls (snd st))
       (\<lambda>lf. LogFile_test_loop tp g line rs (i + 1) (lo, lf)))"

definition LogFile_test ::
  "test_process \<Rightarrow> log_globals \<Rightarrow> string \<Rightarrow> int \<times> int \<times> int \<times> int \<Rightarrow> int \<Rightarrow> test_round list \<Rightarrow> log_locals
     \<Rightarrow> (log_locals \<times> log_file) result" where
  "LogFile_test tp g name garbage now rs lo =
     (let g_logfile = LogFile_new (tp_env tp) True (10 * 1024) name 3 1024 garbage now;
          g = Logger_setFlush (UserFlush 0) (Logger_setOutput (UserOutput 0) g) in
      LogFile_test_loop tp g ''0123456789abcdefghijklmnopqrstuvwxyz'' rs 0 (lo, g_logfile))"

section \<open>One line\<close>

lemma chain_wrote:
  assumes "fb_inv s" and "m_cur s + length (text_of @ convert_chars (sint i)) + 32 \<le> length (m_buff s)"
  shows "\<exists>s'. stream_puts [Str text_of, SInt i] s = Inr s' \<and> wrote (text_of @ convert_chars (sint i)) s s'"
proof -
  have room: "length text_of \<le> length (m_buff s) - m_cur s" "kMaxNumericSize \<le> length (m_buff s) - m_cur s - length text_of"
    using assms(2) by (simp_all add: kMaxNumericSize_def)
  obtain s' where s': "stream_puts [Str text_of, SInt i] s = Inr s'" "fb_inv s'" "length (m_buff s') = length (m_buff s)"
      "FixedBuffer_asString s' = FixedBuffer_asString s @ stream_text [Str text_of, SInt i] (length (m_buff s) - m_cur s)"
    using stream_puts_spec [OF assms(1), of "[Str text_of, SInt i]"] by auto
  have t: "stream_text [Str text_of, SInt i] (length (m_buff s) - m_cur s) = text_of @ convert_chars (sint i)"
    using room by (simp add: item_room_def)
  have "m_cur s' = m_cur s + length (text_of @ convert_chars (sint i))"
    using asString_length [OF s'(2)] asString_length [OF assms(1)] s'(4) t by simp
  then show ?thesis using s' t assms(1) by (intro exI [of _ s']) (simp add: wrote_def)
qed

text \<open>The text of a line, as the logger makes it.\<close>

definition line_text :: "test_process \<Rightarrow> log_globals \<Rightarrow> test_round \<Rightarrow> string \<Rightarrow> string" where
  "line_text tp g r msg = log_prefix (tp_sys tp) g (tr_now r) INFO 0 @ msg @ log_suffix (tp_path tp) (tp_line tp)"

definition line_fits :: "test_process \<Rightarrow> log_globals \<Rightarrow> test_round \<Rightarrow> string \<Rightarrow> log_locals \<Rightarrow> bool" where
  "line_fits tp g r msg lo \<longleftrightarrow> statement_ok (tp_sys tp) g (tr_now r) (tr_mem r) INFO 0 (tp_path tp) (tp_line tp) msg lo"

lemma line_fits_again:
  "line_fits tp g r msg lo \<Longrightarrow> log_locals_ok (tp_sys tp) g lo' \<Longrightarrow> line_fits tp g r msg lo'"
  by (simp add: line_fits_def statement_ok_def)

lemma line_text_length: "line_fits tp g r msg lo \<Longrightarrow> length (line_text tp g r msg) < size_mod"
  by (simp add: line_fits_def statement_ok_def line_text_def kSmallBuffer_def size_mod_def)

lemma LOG_INFO_output:
  assumes "Logger_logLevel g \<le> INFO" and ok: "line_fits tp g r (text_of @ convert_chars (sint i)) lo"
  shows "\<exists>lo'. LOG_INFO (tp_sys tp) g (tr_now r) (tr_mem r) (tp_path tp) (tp_line tp) [Str text_of, SInt i] lo
      = Inr ([Output (g_output g) (line_text tp g r (text_of @ convert_chars (sint i)))], lo') \<and> log_locals_ok (tp_sys tp) g lo'"
proof -
  let ?msg = "text_of @ convert_chars (sint i)"
  obtain impl lo' where new: "Impl_new (tp_sys tp) g (tr_now r) (tr_mem r) INFO 0 (SourceFile_literal (tp_path tp)) (tp_line tp) lo
        = Inr (impl, lo')" "log_locals_ok (tp_sys tp) g lo'" "fb_inv (i_stream impl)"
      "m_cur (i_stream impl) + length ?msg + 32 \<le> length (m_buff (i_stream impl))"
    and out: "\<forall>s1. wrote ?msg (i_stream impl) s1 \<longrightarrow> Logger_destroy g (impl\<lparr>i_stream := s1\<rparr>)
      = (let out = Output (g_output g) (line_text tp g r ?msg) in
         if INFO = FATAL then ([out, Flush (g_flush g)], Inl Aborted) else ([out], Inr ()))"
    using statement_wrote [OF ok [unfolded line_fits_def], folded line_text_def] by (elim exE conjE) (rule that; assumption)
  obtain s where "stream_puts [Str text_of, SInt i] (i_stream impl) = Inr s" "wrote ?msg (i_stream impl) s"
    using chain_wrote [OF new(3,4)] by blast
  then show ?thesis using new(1,2) out assms(1)
    by (auto simp: LOG_INFO_def log_chain_def Logger_new_def Let_def simp del: stream_puts.simps)
qed

section \<open>The loop\<close>

definition test_msg :: "string \<Rightarrow> nat \<Rightarrow> string" where
  "test_msg line i = line @ convert_chars (int i)"

text \<open>The files hold the lines, the mutex is free; the last flush was not before \<open>m\<close>.\<close>

definition test_log :: "int \<Rightarrow> string list \<Rightarrow> log_file \<Rightarrow> bool" where
  "test_log m lines lf \<longleftrightarrow> logged lines lf \<and> lf_mutexLock lf = Some MutexLock_new \<and> lf_flushInterval lf = 3
     \<and> m \<le> lf_lastFlush lf"

lemma perform_line:
  assumes env: "reliable env" and log: "test_log m lines lf" and len: "length msg < size_mod"
    and times: "m \<le> time1" "m \<le> time2"
  shows "(perform env tid time1 time2 [Output (UserOutput 0) msg] lf = Inl SelfDeadlock \<and> m + 3 \<le> time1)
    \<or> (\<exists>lf'. perform env tid time1 time2 [Output (UserOutput 0) msg] lf = Inr lf' \<and> test_log m (lines @ [msg]) lf')"
proof -
  have log': "logged lines lf" "lf_mutexLock lf = Some MutexLock_new" "lf_flushInterval lf = 3" "m \<le> lf_lastFlush lf"
    using log by (simp_all add: test_log_def)
  have p: "perform env tid time1 time2 [Output (UserOutput 0) msg] lf = LogFile_append env tid time1 time2 msg lf"
    by (cases "LogFile_append env tid time1 time2 msg lf") (simp_all add: outputFunc_def)
  show ?thesis
  proof (cases "flush_due env time1 msg lf")
    case True
    then have "3 \<le> time1 - lf_lastFlush lf" using log'(3) by (auto simp: flush_due_def split: option.splits)
    then show ?thesis using append_deadlocks [OF log'(2) True] log'(4) p by simp
  next
    case False
    then obtain lf' where lf': "LogFile_append env tid time1 time2 msg lf = Inr lf'" "logged (lines @ [msg]) lf'"
        "lf_mutexLock lf' = Some MutexLock_new"
      using append_logs [OF env log'(1) len log'(2)] by blast
    then have "test_log m (lines @ [msg]) lf'"
      using append_times [OF lf'(1) log'(4) times] log'(3) by (simp add: test_log_def)
    then show ?thesis using lf'(1) p by simp
  qed
qed

lemma loop_lines:
  assumes env: "reliable (tp_env tp)" and g: "g_output g = UserOutput 0" "Logger_logLevel g \<le> INFO"
  shows "test_log m lines lf \<Longrightarrow> log_locals_ok (tp_sys tp) g lo \<Longrightarrow> i + length rs \<le> 2 ^ 31 \<Longrightarrow>
    \<forall>k < length rs. line_fits tp g (rs ! k) (test_msg line (i + k)) lo
      \<and> m \<le> tr_time1 (rs ! k) \<and> m \<le> tr_time2 (rs ! k) \<Longrightarrow>
    (LogFile_test_loop tp g line rs (of_nat i) (lo, lf) = Inl SelfDeadlock \<and> (\<exists>r \<in> set rs. m + 3 \<le> tr_time1 r))
    \<or> (\<exists>lo' lf'. LogFile_test_loop tp g line rs (of_nat i) (lo, lf) = Inr (lo', lf')
        \<and> test_log m (lines @ map (\<lambda>k. line_text tp g (rs ! k) (test_msg line (i + k))) [0..<length rs]) lf')"
proof (induction rs arbitrary: i lines lo lf)
  case (Cons r rs)
  have si: "sint (of_nat i :: 32 word) = int i"
    using Cons.prems(3) by (simp add: signed_of_nat signed_take_bit_int_eq_self)
  have fit: "line_fits tp g r (line @ convert_chars (sint (of_nat i :: 32 word))) lo"
    using Cons.prems(4) [rule_format, of 0] unfolding si by (simp add: test_msg_def)
  have t: "m \<le> tr_time1 r" "m \<le> tr_time2 r" using Cons.prems(4) [rule_format, of 0] by simp_all
  obtain lo1 where info: "LOG_INFO (tp_sys tp) g (tr_now r) (tr_mem r) (tp_path tp) (tp_line tp) [Str line, SInt (of_nat i)] lo
      = Inr ([Output (UserOutput 0) (line_text tp g r (test_msg line i))], lo1)" "log_locals_ok (tp_sys tp) g lo1"
    using LOG_INFO_output [OF g(2) fit] unfolding g(1) si test_msg_def by blast
  have len: "length (line_text tp g r (test_msg line i)) < size_mod"
    using line_text_length [OF fit] unfolding si test_msg_def .
  from perform_line [OF env Cons.prems(1) len t, of "tp_tid tp"] show ?case
  proof (elim disjE exE conjE)
    fix lf1 assume lf1: "perform (tp_env tp) (tp_tid tp) (tr_time1 r) (tr_time2 r)
        [Output (UserOutput 0) (line_text tp g r (test_msg line i))] lf = Inr lf1"
      "test_log m (lines @ [line_text tp g r (test_msg line i)]) lf1"
    have run: "LogFile_test_loop tp g line (r # rs) (of_nat i) (lo, lf)
        = LogFile_test_loop tp g line rs (of_nat (Suc i)) (lo1, lf1)"
      using info(1) lf1(1) by (simp add: add.commute del: perform.simps)
    have rest: "\<forall>k < length rs. line_fits tp g (rs ! k) (test_msg line (Suc i + k)) lo1
        \<and> m \<le> tr_time1 (rs ! k) \<and> m \<le> tr_time2 (rs ! k)"
    proof (intro allI impI)
      fix k assume "k < length rs"
      then show "line_fits tp g (rs ! k) (test_msg line (Suc i + k)) lo1 \<and> m \<le> tr_time1 (rs ! k) \<and> m \<le> tr_time2 (rs ! k)"
        using Cons.prems(4) [rule_format, of "Suc k"] line_fits_again [OF _ info(2), of "rs ! k" "test_msg line (Suc i + k)" lo]
        by simp
    qed
    have up: "map (\<lambda>k. line_text tp g ((r # rs) ! k) (test_msg line (i + k))) [0..<length (r # rs)]
        = line_text tp g r (test_msg line i) # map (\<lambda>k. line_text tp g (rs ! k) (test_msg line (Suc i + k))) [0..<length rs]"
      by (simp add: upt_conv_Cons map_Suc_upt [symmetric] del: upt_Suc)
    from Cons.IH [OF lf1(2) info(2) _ rest] Cons.prems(3) show ?thesis unfolding run up by auto
  qed (use info(1) in \<open>simp del: perform.simps\<close>)
qed simp

text \<open>Above the level INFO nothing is output.\<close>

lemma loop_silent:
  assumes "INFO < Logger_logLevel g"
  shows "LogFile_test_loop tp g line rs i st = Inr st"
  using assms by (induction rs arbitrary: i st) (simp_all add: LOG_INFO_def flip: not_le)


lemma start_log:
  assumes "reliable env" and "- (2 ^ 31) \<le> c" "c < 2 ^ 31 - 1" and "roll < now"
  shows "test_log now [] (LogFile_new env True (10 * 1024) name 3 1024 (p, f, roll, c) now)"
  using new_logged [OF assms(1-3), of 1024 True "10 * 1024" name 3 p f roll now] assms(4)
  by (simp add: test_log_def LogFile_new_def LogFile_rollFile_def Let_def)

text \<open>
  C18. The test program, from the macro to the files. With the level at INFO or below it, every round sends one
  whole line through level, logger, stream and output function into the log file: either the program ends and the
  files hold exactly the lines, in order and none of them split, or an append deadlocks on the mutex of the log
  file, which cannot happen unless the clock has moved on by three seconds since the start. With a
  higher level the program does nothing.
\<close>

theorem log_file_test_lines:
  assumes "reliable (tp_env tp)" and "log_locals_ok (tp_sys tp) g lo"
    and "- (2 ^ 31) \<le> c" "c < 2 ^ 31 - 1" "roll < now" and "length rs \<le> 2 ^ 31"
    and "\<forall>k < length rs. line_fits tp g (rs ! k) (test_msg ''0123456789abcdefghijklmnopqrstuvwxyz'' k) lo
      \<and> now \<le> tr_time1 (rs ! k) \<and> now \<le> tr_time2 (rs ! k)"
  shows "if Logger_logLevel g \<le> INFO
    then (LogFile_test tp g name (p, f, roll, c) now rs lo = Inl SelfDeadlock \<and> (\<exists>r \<in> set rs. now + 3 \<le> tr_time1 r))
      \<or> (\<exists>lo' lf parts. LogFile_test tp g name (p, f, roll, c) now rs lo = Inr (lo', lf)
          \<and> lf_texts lf = map concat parts
          \<and> concat parts = map (\<lambda>k. line_text tp g (rs ! k) (test_msg ''0123456789abcdefghijklmnopqrstuvwxyz'' k)) [0..<length rs])
    else \<exists>lf. LogFile_test tp g name (p, f, roll, c) now rs lo = Inr (lo, lf) \<and> concat (lf_texts lf) = []"
proof -
  define h where "h = Logger_setFlush (UserFlush 0) (Logger_setOutput (UserOutput 0) g)"
  let ?line = "''0123456789abcdefghijklmnopqrstuvwxyz''"
  have same: "broken_down sy h t = broken_down sy g t" "log_prefix sy h tv l e = log_prefix sy g tv l e"
    "log_locals_ok sy h lo' = log_locals_ok sy g lo'" "Logger_logLevel h = Logger_logLevel g" for sy t tv l e lo'
    by (simp_all add: h_def broken_down_def log_prefix_def zone_text_def log_locals_ok_def Logger_setFlush_def Logger_setOutput_def
        Logger_logLevel_def)
  have out: "g_output h = UserOutput 0" by (simp add: h_def Logger_setFlush_def Logger_setOutput_def)
  have line: "line_fits tp h r msg lo' = line_fits tp g r msg lo'" "line_text tp h r msg = line_text tp g r msg" for r msg lo'
    by (simp_all add: line_fits_def statement_ok_def line_text_def same)
  let ?lf = "LogFile_new (tp_env tp) True (10 * 1024) name 3 1024 (p, f, roll, c) now"
  have run: "LogFile_test tp g name (p, f, roll, c) now rs lo = LogFile_test_loop tp h ?line rs (of_nat 0) (lo, ?lf)"
    by (simp add: LogFile_test_def Let_def h_def)
  have start: "test_log now [] ?lf" by (rule start_log [OF assms(1,3-5)])
  show ?thesis
  proof (cases "Logger_logLevel g \<le> INFO")
    case True
    then have "LogFile_test tp g name (p, f, roll, c) now rs lo = Inl SelfDeadlock \<and> (\<exists>r \<in> set rs. now + 3 \<le> tr_time1 r)
      \<or> (\<exists>lo' lf'. LogFile_test tp g name (p, f, roll, c) now rs lo = Inr (lo', lf')
        \<and> test_log now (map (\<lambda>k. line_text tp g (rs ! k) (test_msg ?line k)) [0..<length rs]) lf')"
      unfolding run using loop_lines [OF assms(1), of h now "[]" ?lf lo 0 rs ?line] start assms(2,6,7)
      by (simp add: line same out del: upt.simps)
    then show ?thesis using True by (auto simp: test_log_def logged_def grouped_def)
  next
    case False
    then have "LogFile_test tp g name (p, f, roll, c) now rs lo = Inr (lo, ?lf)"
      unfolding run using loop_silent [of h tp ?line rs] by (simp add: same(4) not_le)
    moreover have "concat (lf_texts ?lf) = []" using logged_text [of "[]" ?lf] start by (simp add: test_log_def)
    ultimately show ?thesis using False by simp
  qed
qed

definition example_test :: test_process where
  "example_test = \<lparr>tp_sys = example_system, tp_env = example_env, tp_tid = 1, tp_path = ''src/main.cc'', tp_line = 12\<rparr>"

definition example_round :: test_round where
  "example_round = \<lparr>tr_now = (97445, 7), tr_mem = replicate kSmallBuffer (CHR ''x''), tr_time1 = 97445, tr_time2 = 97445\<rparr>"

lemma all_less_two: "(\<forall>k < Suc (Suc 0). P k) \<longleftrightarrow> P 0 \<and> P 1"
  by (auto simp: less_Suc_eq)

lemma log_file_test_lines_witness:
  "\<exists>lo' lf. LogFile_test example_test (log_globals_init False False) ''test'' (0, 0, 0, 0) 97445 [example_round, example_round]
      example_locals = Inr (lo', lf)
    \<and> concat (lf_texts lf) = concat [line_text example_test (log_globals_init False False) example_round
          ''0123456789abcdefghijklmnopqrstuvwxyz0'',
        line_text example_test (log_globals_init False False) example_round ''0123456789abcdefghijklmnopqrstuvwxyz1'']"
proof -
  let ?g = "log_globals_init False False"
  have msg: "test_msg ''0123456789abcdefghijklmnopqrstuvwxyz'' 0 = ''0123456789abcdefghijklmnopqrstuvwxyz0''"
    "test_msg ''0123456789abcdefghijklmnopqrstuvwxyz'' 1 = ''0123456789abcdefghijklmnopqrstuvwxyz1''"
    by code_simp+
  have fits: "line_fits example_test ?g example_round m example_locals" if "length m \<le> 100" for m
    using example_message_ok [of INFO m] that by (simp add: line_fits_def example_test_def example_round_def)
  have sel: "tp_env example_test = example_env" "tp_sys example_test = example_system" "tr_time1 example_round = 97445"
      "tr_time2 example_round = 97445"
    by (simp_all add: example_test_def example_round_def)
  have lo: "log_locals_ok (tp_sys example_test) ?g example_locals" by (simp add: log_locals_ok_def example_locals_def)
  have rounds: "\<forall>k < length [example_round, example_round]. line_fits example_test ?g ([example_round, example_round] ! k)
      (test_msg ''0123456789abcdefghijklmnopqrstuvwxyz'' k) example_locals
      \<and> 97445 \<le> tr_time1 ([example_round, example_round] ! k) \<and> 97445 \<le> tr_time2 ([example_round, example_round] ! k)"
    using msg fits by (simp add: sel all_less_two)
  have "Logger_logLevel ?g \<le> INFO"
    by (simp add: Logger_logLevel_def log_globals_init_def initLogLevel_def)
  then obtain lo' lf parts where "LogFile_test example_test ?g ''test'' (0, 0, 0, 0) 97445 [example_round, example_round]
        example_locals = Inr (lo', lf)" "lf_texts lf = map concat parts"
      "concat parts = map (\<lambda>k. line_text example_test ?g ([example_round, example_round] ! k)
        (test_msg ''0123456789abcdefghijklmnopqrstuvwxyz'' k)) [0..<length [example_round, example_round]]"
    using log_file_test_lines [of example_test ?g example_locals 0 0 97445 "[example_round, example_round]" "''test''" 0 0]
      example_env_reliable lo rounds by (auto simp: sel)
  then show ?thesis using msg by (simp add: concat_map_concat upt_conv_Cons)
qed

end
