(* ===== verification/Spec2Isabelle.thy ===== *)
theory Spec2Isabelle
  imports BufferContract Frames FileTests LogStream Timestamp TimeZone BlockingQueue BoundedBlockingQueue
    CountDownLatch ThreadPool FileUtil LogFile LogPipeline Acceptor Connector ProcessInfo Lifetime
    Exception TimeSemForks AcceptorLife QueueTests UnitTests LogFileTest
begin

text \<open>
  MyNet is a C++ network library for Linux in the style of muduo. This development models its own
  code, base/ and net/ of src/MyNet, and proves what makes it correct; where the code does
  something else than it means to, the theorems say what it does.

  The program. base/ holds byte-level and calendar utilities (LogStream, Date, Timestamp,
  TimeZone), thread primitives (Atomic, Mutex, Condition, CountDownLatch, the two blocking queues,
  Thread, ThreadPool, Singleton, ThreadLocal, ThreadLocalSingleton, Exception), the logging stack
  (Logger writes one message into a LogStream and hands it to an output function;
  AsyncLogging::append is such a function and moves the text through buffers to a thread that
  writes it to a LogFile, which writes and rolls files through FileUtil's WriteFile) and
  ProcessInfo, which reads /proc through FileUtil's readFile. net/ holds the byte Buffer of a
  connection, byte order (Endian), the wrappers of the socket calls (SocketsOps, Socket,
  InetAddress) and the reactor's parts: Channel dispatches the events of a descriptor, Acceptor
  owns a listening Channel and Socket, Connector opens connections. EventLoop.h is empty. Beside
  the library src/ has time-sem.c, a program that compares six ways to exclude processes from each
  other: a parent forks children that increment a shared counter under the lock.

  How the code is modelled. A class is a record with the fields of the class, an enum a datatype,
  an operation a function Class\_method from the old state to the result and the new state.
  Machine integers are words where the code relies on their width or wraps (size\_t as nat with
  size\_add and size\_sub modulo 2 ^ 64, uint32\_t, the event masks, the fields of addresses); a signed
  int is an int whose overflow is the fault Overflow (checked32). A failed assertion, a null or
  dangling pointer that is dereferenced, an exception, an abort and a self-deadlock are values
  of the type fault, left of a sum. A C string ends at its first zero; strings are lists of
  characters, network data lists of 8-bit words. System calls, the clock, floating point and
  libraries without source are parameters, with their documented behaviour as a named predicate
  where a theorem needs it (fwrite\_ok, fwrite\_progress, reliable, fd\_kernel, cb\_laws and their
  like). What is read before it has been initialised is an argument called garbage or mem.

  The theories.
  \<^item> Prelude: faults, sequencing, the arithmetic of size\_t, the calls of the standard library that
    several components share, and the named collections of facts.
  \<^item> Printf: positional numerals (the locale positional, the contract of a digit loop), the %d
    conversions, snprintf and C strings. TextSink: the locale text\_sink, the contract between what
    writes log text and what takes it.
  \<^item> NetBuffer (net/Buffer.h, net/Buffer.cc) has the operations, BufferContract their contract: the
    abstract byte queue and its refinement, the integers of four widths as one locale
    (buffer\_integer), readFd, shrink, findCRLF, and the wrap-around in makeSpace. Frames puts two buffers at
    the ends of a stream: messages with a prepended length, received by readFd in any pieces. Endian
    (net/Endian.h) has the conversions for both byte orders of a host.
  \<^item> LogStream (base/LogStream.h and .cc): FixedBuffer, the digit loops, the output operators, Fmt.
  \<^item> Date, Timestamp, TimeZone: the classes of these names; the Julian day numbers are compared with
    a calendar that counts days, the search for a local time with the last transition before it.
  \<^item> Monitor (base/Mutex.h, base/Condition.h and .cc): mutexes and conditions as a step relation on
    threads that lock, wait, wake (also without a reason), run a body and notify; mutual exclusion,
    linearizability, and the locale signalling, which says when notifications suffice for progress.
    BlockingQueue, BoundedBlockingQueue, CountDownLatch and ThreadPool give their operations in
    this form, and ThreadPool adds its workers, the callers of run and stop (clients and tasks) and the
    joins in stop as a second step relation; what a run did is read off its labels.
  \<^item> Atomic, Thread (with ThreadOp), Lifetime (Singleton, ThreadLocal, ThreadLocalSingleton) and
    Exception: values that belong to the process or a thread. A run of Thread or Lifetime is a list
    of events in any order that the operating system can produce.
  \<^item> FileUtil, LogFile, AsyncLogging, Logging: the logging stack; critical sections of AsyncLogging
    are single steps, its runs are lists of events of clients and the logging thread. LogPipeline
    puts Logger and AsyncLogging together; the last theorem below follows a message from the log
    statement to the files.
  \<^item> Sockets (net/SocketsOps, net/Socket, net/InetAddress), Channel, Acceptor, Connector: the kernel
    is a function from a call and its state to a result and the next state; calls into the missing
    EventLoop and into undefined functions are recorded in lists. AcceptorLife runs an Acceptor with its
    Channel and Socket from the constructor to the destructor.
  \<^item> ProcessInfo (base/ProcessInfo.h and .cc): the queries and the parsers of /proc.
  \<^item> AcceptMutex (the upper half of time-sem.c): the six locks, and the locale process\_lock, the contract
    that all of them keep. TimeSem: main and its children as a step relation with an invariant. TimeSemRuns:
    exclusion, progress and the final counter. TimeSemForks: failed forks and the signal mask of the children.
  \<^item> QueueTests and UnitTests: the programs of base/tests that check the library. The three that use queue, latch
    and threads together are runs of main and the workers over the locale message\_queue, which both
    queues satisfy; the sequential ones have their loops and assertions. LogFileTest: the program that logs
    through the macros into a LogFile. FileTests: the two programs that print what readFile, writeLine and Exception
    give, and what they print on Linux.

  What the lemmas show. For each record there is an invariant (buf\_inv, fb\_inv, mon\_inv, pool\_inv,
  lf\_good, async\_inv, tl\_inv and so on), each operation keeps it and is described on every branch,
  faults included; runs inherit both by induction on the list of events or on the reachable
  states. The properties, numbered C1 to C40 in the order of the manifest, stand at the end of
  their theories, each followed by a witness that applies it to concrete values.

  Loops and bounds. No fuel is used. A structural loop is a primrec or fun, the digit loops and
  the binary search are functions with measures, and the loops around read, fwrite and close, which
  end only if the system lets them, are partial functions whose value None is a call that does
  not return; that they return is proved from the progress of the system calls. Concurrency is
  not bounded: any number of threads, calls and steps.

  Not modelled. NonCopyable.h and Copyable.h have no operations, EventLoop.h is empty. The functions that are declared
  without a body (Connector's restart, retry and connecting, TimeZone's conversions to UTC,
  Logger's constructor with a function name) have nothing to model. Memory exhaustion and failures of
  pthread calls that the code ignores are left out. The
  headers contain slips that keep parts of the library from compiling (recorded among the
  findings); those parts are modelled as they read, with the slip resolved in the one way that
  makes sense, and the theory says which.
\<close>
text \<open>
  C8. From the log statements to the log files. Threads log messages that fit into the stream, each
  thread with the cache it happens to have; no statement fails, and each hands one text to the
  output function. When that function is AsyncLogging::append with its buffers of kLargeBuffer
  characters, then in every run that ends without a fault, whatever the interleaving of the clients
  and the logging thread and wherever the files are rolled, the log files followed by what still
  waits in the buffers are exactly the messages, in the order of the calls.
\<close>

theorem logged_messages_reach_files:
  assumes env: "async_env_ok kLargeBuffer env"
    and fits: "\<forall>(t, st) \<in> set prog. statement_fits (sys t) g st (locs t)"
  shows "\<exists>calls. run_program sys g prog locs = Inr calls
    \<and> (\<forall>es s. appended es = sent (g_output g) calls
         \<and> (\<forall>now garbage. Begin now garbage \<in> set es \<longrightarrow> event_ok kLargeBuffer (Begin now garbage))
         \<and> async_run env es (AsyncLogging_new env basename rollSize flushInterval) = Some (Inr s) \<longrightarrow>
       log_text s @ pending_text s = concat (map (\<lambda>(t, st). statement_text (sys t) g st) prog))"
proof -
  obtain calls where calls: "run_program sys g prog locs = Inr calls"
      "sent (g_output g) calls = map (\<lambda>(t, st). statement_text (sys t) g st) prog"
    using run_program_output [OF fits] by blast
  have short: "length line \<le> kLargeBuffer" if "line \<in> set (sent (g_output g) calls)" for line
    using that fits calls(2) fits_length by fastforce
  have "log_text s @ pending_text s = concat (sent (g_output g) calls)"
    if es: "appended es = sent (g_output g) calls"
      "\<forall>now garbage. Begin now garbage \<in> set es \<longrightarrow> event_ok kLargeBuffer (Begin now garbage)"
      "async_run env es (AsyncLogging_new env basename rollSize flushInterval) = Some (Inr s)" for es s
  proof -
    have "list_all (event_ok kLargeBuffer) es" using es(1,2) short by (intro appended_ok) auto
    from run_inv [OF env new_inv [OF env] this es(3)] show ?thesis using es(1) by (auto simp: async_inv_def)
  qed
  then show ?thesis using calls by auto
qed

text \<open>A thread that logs one message, and a client that has appended it.\<close>

definition example_pipeline :: async_env where
  "example_pipeline = \<lparr>ae_log = example_env, ae_tid = 1, ae_mem = (\<lambda>_. replicate kLargeBuffer (CHR ''x''))\<rparr>"

lemma example_pipeline_ok: "async_env_ok kLargeBuffer example_pipeline"
  unfolding async_env_ok_def
  by (auto simp only: example_pipeline_def async_env.simps example_env_reliable length_replicate)
    (simp add: kLargeBuffer_def size_mod_def)

definition example_statement :: log_statement where
  "example_statement = \<lparr>st_time = (97445, 7), st_mem = replicate kSmallBuffer (CHR ''x''), st_level = WARN, st_errno = 0,
     st_path = ''src/main.cc'', st_line = 12, st_msg = ''bye''\<rparr>"

lemma example_statement_fits:
  "statement_fits example_system (log_globals_init False False) example_statement example_locals"
  using example_statement_ok [of WARN] by (simp add: statement_fits_def example_statement_def)

lemma first_append:
  assumes "async_env_ok sz env" and "length line < sz"
  shows "\<exists>s. async_run env [Append line] (AsyncLogging_new env basename rollSize flushInterval) = Some (Inr s)"
  using assms size_sub_exact [of 0 sz]
  by (simp add: async_env_ok_def AsyncLogging_new_def AsyncLogging_append_def FixedBuffer_new_def FixedBuffer_bzero_def
      FixedBuffer_setCookie_def FixedBuffer_avail_def)

theorem logged_messages_reach_files_witness:
  "\<exists>s. async_run example_pipeline
        [Append (statement_text example_system (log_globals_init False False) example_statement)]
        (AsyncLogging_new example_pipeline ''log'' 100 3) = Some (Inr s)
     \<and> log_text s @ pending_text s = statement_text example_system (log_globals_init False False) example_statement"
proof -
  let ?g = "log_globals_init False False"
  let ?text = "statement_text example_system ?g example_statement"
  let ?prog = "[(0 :: nat, example_statement)]"
  have fits: "\<forall>(t, st) \<in> set ?prog. statement_fits example_system ?g st example_locals"
    using example_statement_fits by simp
  have "length ?text < kLargeBuffer" using example_statement_fits
    by (simp add: statement_fits_def statement_ok_def statement_text_def kSmallBuffer_def kLargeBuffer_def)
  then obtain s where s: "async_run example_pipeline [Append ?text] (AsyncLogging_new example_pipeline ''log'' 100 3)
      = Some (Inr s)"
    using first_append [OF example_pipeline_ok] by blast
  obtain calls where calls: "run_program (\<lambda>_. example_system) ?g ?prog (\<lambda>_. example_locals) = Inr calls"
      "\<And>es s. appended es = sent (g_output ?g) calls \<Longrightarrow>
         (\<forall>now garbage. Begin now garbage \<in> set es \<longrightarrow> event_ok kLargeBuffer (Begin now garbage)) \<Longrightarrow>
         async_run example_pipeline es (AsyncLogging_new example_pipeline ''log'' 100 3) = Some (Inr s) \<Longrightarrow>
       log_text s @ pending_text s = ?text"
    using logged_messages_reach_files [OF example_pipeline_ok fits, of "''log''" 100 3] by auto
  have "sent (g_output ?g) calls = [?text]" using run_program_output [OF fits] calls(1) by auto
  then have "log_text s @ pending_text s = ?text" using calls(2) [of "[Append ?text]"] s by simp
  then show ?thesis using s by blast
qed

end
